(* ===== verification/Prelude.thy ===== *)
theory Prelude
  imports Main "HOL-Library.Word" "HOL-Library.AList"
begin

text \<open>
  Shared vocabulary of the development: machine integers at the widths the Go
  sources use, byte buffers, the fixed-width little- and big-endian codecs of
  Go's \<^verbatim>\<open>encoding/binary\<close>, and the positional reads and writes every on-disk
  encoder of the repository is made of, Go's wrapping \<^verbatim>\<open>int\<close>, and the locale of
  forward simulations.  The collections \<open>buf_simps\<close> and
  \<open>codec_simps\<close> carry the component proofs.
\<close>

unbundle bit_operations_syntax

type_synonym byte = "8 word"
type_synonym u16 = "16 word"
type_synonym u32 = "32 word"
type_synonym u64 = "64 word"
type_synonym bytes = "8 word list"

named_theorems buf_simps \<open>reads over writes on byte buffers\<close>
named_theorems codec_simps \<open>fixed-width integer codecs\<close>

section \<open>Word lemmas\<close>

lemma unat_bound: "unat (x :: 'a::len word) < 2 ^ LENGTH('a)"
  by (rule unsigned_less)

lemma unat_drop_bit_div: "unat (drop_bit n x) = unat x div 2 ^ n"
  by (simp only: unat_drop_bit_eq drop_bit_eq_div [where 'a = nat])

lemma high_bits_clear:
  fixes x :: "'a::len word"
  assumes "unat x < 2 ^ k" and "bit x n"
  shows "n < k"
proof -
  have "take_bit k (unat x) = unat x" using assms(1) by (simp add: take_bit_nat_eq_self)
  moreover have "bit (unat x) n" using assms(2) by (simp add: bit_unsigned_iff)
  ultimately show ?thesis by (metis bit_take_bit_iff)
qed

section \<open>Association lists\<close>

lemma update_new_key: "k \<notin> fst ` set m \<Longrightarrow> AList.update k v m = m @ [(k, v)]"
  by (induction m) auto

section \<open>Go's int\<close>

text \<open>
  A Go \<^verbatim>\<open>int\<close> has 64 bits: a sum, a product and the conversion of a \<^verbatim>\<open>uint64\<close>
  wrap.
\<close>

definition go_int :: "int \<Rightarrow> int" where "go_int x = (x + 2 ^ 63) mod 2 ^ 64 - 2 ^ 63"

lemma go_int_small: "- (2 ^ 63) \<le> x \<Longrightarrow> x < 2 ^ 63 \<Longrightarrow> go_int x = x"
  by (simp add: go_int_def)

lemma go_int_mod: "go_int x mod 2 ^ 64 = x mod 2 ^ 64"
  unfolding go_int_def mod_diff_left_eq by (simp only: add_diff_cancel_right')

lemma go_int_cong: "x mod 2 ^ 64 = y mod 2 ^ 64 \<Longrightarrow> go_int x = go_int y"
  unfolding go_int_def by (metis mod_add_left_eq)

lemma go_int_linear: "go_int (go_int x * m + y) = go_int (x * m + y)"
proof (rule go_int_cong)
  have "(go_int x * m) mod 2 ^ 64 = (x * m) mod 2 ^ 64"
    by (rule mod_mult_cong [OF go_int_mod refl])
  then show "(go_int x * m + y) mod 2 ^ 64 = (x * m + y) mod 2 ^ 64" by (rule mod_add_cong [OF _ refl])
qed

section \<open>Fixed-width integers as bytes\<close>

text \<open>
  \<^verbatim>\<open>binary.LittleEndian.PutUintN\<close> stores \<^verbatim>\<open>byte(v >> 8*i)\<close> at index \<^verbatim>\<open>i\<close>; the
  big-endian variant stores the same bytes in the opposite order.
\<close>

fun le_put :: "nat \<Rightarrow> 'a::len word \<Rightarrow> bytes" where
  "le_put 0 v = []"
| "le_put (Suc n) v = ucast v # le_put n (drop_bit 8 v)"

fun le_get :: "bytes \<Rightarrow> 'a::len word" where
  "le_get [] = 0"
| "le_get (b # bs) = ucast b OR push_bit 8 (le_get bs)"

definition be_put :: "nat \<Rightarrow> 'a::len word \<Rightarrow> bytes" where
  "be_put n v = rev (le_put n v)"

definition be_get :: "bytes \<Rightarrow> 'a::len word" where
  "be_get bs = le_get (rev bs)"

lemma length_le_put [simp]: "length (le_put n v) = n"
  by (induction n arbitrary: v) auto

lemma length_be_put [simp]: "length (be_put n v) = n"
  by (simp add: be_put_def)

lemma le_get_le_put: "le_get (le_put n v) = take_bit (8 * n) v"
proof (induction n arbitrary: v)
  case 0
  then show ?case by simp
next
  case (Suc n)
  show ?case
    by (rule bit_word_eqI) (auto simp: Suc.IH bit_simps)
qed

lemma le_get_le_put_full [codec_simps]:
  fixes v :: "'a::len word"
  assumes "LENGTH('a) \<le> 8 * n"
  shows "le_get (le_put n v) = v"
  using assms by (simp add: le_get_le_put take_bit_word_eq_self)

lemma be_get_be_put_full [codec_simps]:
  fixes v :: "'a::len word"
  assumes "LENGTH('a) \<le> 8 * n"
  shows "be_get (be_put n v) = v"
  using assms by (simp add: be_get_def be_put_def le_get_le_put_full)

lemma drop_bit_le_get_Cons:
  fixes bs :: bytes
  assumes "8 * Suc (length bs) \<le> LENGTH('a::len)"
  shows "drop_bit 8 (le_get (b # bs) :: 'a word) = le_get bs"
proof -
  have bound: "take_bit (8 * length bs) (le_get bs :: 'a word) = le_get bs" for bs :: bytes
  proof (induction bs)
    case Nil
    then show ?case by simp
  next
    case (Cons c cs)
    have IH: "bit (le_get cs :: 'a word) m \<Longrightarrow> m < 8 * length cs" for m
      using Cons by (metis bit_take_bit_iff)
    show ?case
      by (rule bit_word_eqI) (auto simp: bit_simps dest: IH bit_imp_le_length)
  qed
  have hi: "bit (le_get bs :: 'a word) m \<Longrightarrow> m < 8 * length bs" for m
    using bound [of bs] by (metis bit_take_bit_iff)
  show ?thesis
    using assms by (intro bit_word_eqI) (auto simp: bit_simps dest: hi bit_imp_le_length)
qed

lemma le_put_le_get:
  fixes bs :: bytes
  assumes "8 * length bs \<le> LENGTH('a::len)"
  shows "le_put (length bs) (le_get bs :: 'a word) = bs"
  using assms
proof (induction bs)
  case Nil
  then show ?case by simp
next
  case (Cons b bs)
  have low: "ucast (le_get (b # bs) :: 'a word) = b"
    using Cons.prems by (intro bit_word_eqI) (auto simp: bit_simps dest: bit_imp_le_length)
  show ?case
    using Cons low by (simp add: drop_bit_le_get_Cons del: le_get.simps)
qed

lemma le_get_inject:
  fixes bs cs :: bytes
  assumes "length bs = length cs" and "8 * length bs \<le> LENGTH('a::len)"
  shows "(le_get bs :: 'a word) = le_get cs \<longleftrightarrow> bs = cs"
  using assms by (metis le_put_le_get)

section \<open>Positional reads and writes\<close>

text \<open>
  \<open>get_at off n buf\<close> is the slice \<^verbatim>\<open>buf[off:off+n]\<close> and \<open>put_at off bs buf\<close> is
  \<^verbatim>\<open>copy(buf[off:], bs)\<close>, which writes no further than the end of the buffer.
  Both are used only behind the bounds the source establishes.
\<close>

definition get_at :: "nat \<Rightarrow> nat \<Rightarrow> 'a list \<Rightarrow> 'a list" where
  "get_at off n buf = take n (drop off buf)"

definition put_at :: "nat \<Rightarrow> 'a list \<Rightarrow> 'a list \<Rightarrow> 'a list" where
  "put_at off bs buf = take off buf @ take (length buf - off) bs @ drop (off + length bs) buf"

lemma length_put_at [simp]: "length (put_at off bs buf) = length buf"
  by (simp add: put_at_def)

lemma length_get_at [simp]:
  "off + n \<le> length buf \<Longrightarrow> length (get_at off n buf) = n"
  by (simp add: get_at_def)

lemma put_at_fits:
  "off + length bs \<le> length buf \<Longrightarrow>
   put_at off bs buf = take off buf @ bs @ drop (off + length bs) buf"
  by (simp add: put_at_def)

lemma get_put_same [buf_simps]:
  "off + length bs \<le> length buf \<Longrightarrow> n = length bs \<Longrightarrow> get_at off n (put_at off bs buf) = bs"
  by (simp add: get_at_def put_at_def)

lemma get_put_before [buf_simps]:
  "o1 + n1 \<le> o2 \<Longrightarrow> get_at o1 n1 (put_at o2 bs buf) = get_at o1 n1 buf"
  by (auto simp: get_at_def put_at_def take_drop min_def)

lemma get_put_after [buf_simps]:
  "o2 + length bs \<le> o1 \<Longrightarrow> get_at o1 n1 (put_at o2 bs buf) = get_at o1 n1 buf"
  by (cases "o2 + length bs \<le> length buf") (auto simp: get_at_def put_at_def)

lemma nth_put_at [buf_simps]:
  "i < length buf \<Longrightarrow>
   put_at off bs buf ! i =
     (if i < off then buf ! i else if i < off + length bs then bs ! (i - off) else buf ! i)"
  by (auto simp: put_at_def nth_append min_def)

lemma take_put_at_le [buf_simps]:
  "n \<le> off \<Longrightarrow> take n (put_at off bs buf) = take n buf"
  by (simp add: put_at_def min_def)

lemma drop_put_at_ge [buf_simps]:
  "off + length bs \<le> n \<Longrightarrow> drop n (put_at off bs buf) = drop n buf"
  by (cases "off + length bs \<le> length buf") (auto simp: put_at_def)

lemma take_put_at:
  "off + length w \<le> n \<Longrightarrow> n \<le> length buf \<Longrightarrow>
   take n (put_at off w buf) = put_at off w (take n buf)"
  by (rule nth_equalityI) (auto simp: nth_put_at)

lemma get_at_take: "off + k \<le> n \<Longrightarrow> get_at off k (take n buf) = get_at off k buf"
  by (simp add: get_at_def take_drop min_def)

lemma get_at_full: "get_at 0 (length buf) buf = buf"
  by (simp add: get_at_def)

lemma put_at_split: "buf = get_at 0 off buf @ get_at off n buf @ drop (off + n) buf"
  by (simp add: get_at_def) (metis add.commute append_take_drop_id drop_drop)

lemma put_at_append_right:
  "put_at (length xs + off) w (xs @ ys) = xs @ put_at off w ys"
  by (simp add: put_at_def)

lemma put_at_append_left:
  "off + length w \<le> length xs \<Longrightarrow> put_at off w (xs @ ys) = put_at off w xs @ ys"
  by (simp add: put_at_def)

lemma be_get_inject:
  fixes bs cs :: bytes
  assumes "length bs = length cs" and "8 * length bs \<le> LENGTH('a::len)"
  shows "(be_get bs :: 'a word) = be_get cs \<longleftrightarrow> bs = cs"
  using assms by (simp add: be_get_def le_get_inject)

section \<open>Forward simulation\<close>

text \<open>
  The shape of the refinement arguments: a relation between abstract and concrete states
  that every admissible operation keeps and under which the observations agree.
\<close>

locale forward_simulation =
  fixes R :: "'a \<Rightarrow> 'c \<Rightarrow> bool"
    and ok :: "'op \<Rightarrow> bool"
    and astep :: "'op \<Rightarrow> 'a \<Rightarrow> 'a"
    and cstep :: "'op \<Rightarrow> 'c \<Rightarrow> 'c"
    and aobs :: "'a \<Rightarrow> 'o"
    and cobs :: "'c \<Rightarrow> 'o"
  assumes step: "R a c \<Longrightarrow> ok x \<Longrightarrow> R (astep x a) (cstep x c)"
    and obs: "R a c \<Longrightarrow> cobs c = aobs a"
begin

lemma run: "R a c \<Longrightarrow> list_all ok xs \<Longrightarrow> R (fold astep xs a) (fold cstep xs c)"
  by (induction xs arbitrary: a c) (auto intro: step)

lemma run_obs: "R a c \<Longrightarrow> list_all ok xs \<Longrightarrow> cobs (fold cstep xs c) = aobs (fold astep xs a)"
  by (blast intro: obs run)

end

end
