(* ===== verification/Checksum.thy ===== *)
theory Checksum
  imports Prelude
begin

text \<open>
  The two cyclic redundancy checks of the repository: CRC-32C over pages and the
  database header (\<^verbatim>\<open>src/format/checksum.go\<close>) and CRC-64/ECMA over WAL frames
  (\<^verbatim>\<open>sum64\<close> of \<^verbatim>\<open>src/wal/wal.go\<close>).  Both are the reflected, table-driven loop of Go's
  \<^verbatim>\<open>hash/crc32\<close> and \<^verbatim>\<open>hash/crc64\<close>: complement, one table step per byte, complement.
  The theory proves the loop equal to its bitwise form and derives that an error
  burst no longer than the register is always detected.
\<close>

section \<open>The table-driven loop\<close>

definition crc_bit :: "'a::len word \<Rightarrow> 'a word \<Rightarrow> 'a word" where
  "crc_bit poly c = (if bit c 0 then drop_bit 1 c XOR poly else drop_bit 1 c)"

text \<open>Entry \<open>i\<close> of \<^verbatim>\<open>MakeTable(poly)\<close>.\<close>

definition crc_entry :: "'a::len word \<Rightarrow> byte \<Rightarrow> 'a word" where
  "crc_entry poly i = (crc_bit poly ^^ 8) (ucast i)"

definition crc_step :: "'a::len word \<Rightarrow> 'a word \<Rightarrow> byte \<Rightarrow> 'a word" where
  "crc_step poly c v = crc_entry poly (ucast c XOR v) XOR drop_bit 8 c"

definition crc_update :: "'a::len word \<Rightarrow> 'a word \<Rightarrow> bytes \<Rightarrow> 'a word" where
  "crc_update poly c bs = NOT (foldl (crc_step poly) (NOT c) bs)"

text \<open>\<^verbatim>\<open>crc32.Castagnoli\<close> and \<^verbatim>\<open>crc64.ECMA\<close>, in the reflected form Go uses.\<close>

definition castagnoli :: u32 where
  "castagnoli = 0x82F63B78"

definition ecma :: u64 where
  "ecma = 0xC96C5795D7870F42"

definition CRC32CUpdate :: "u32 \<Rightarrow> bytes \<Rightarrow> u32" where
  "CRC32CUpdate c b = crc_update castagnoli c b"

definition CRC32C :: "bytes \<Rightarrow> u32" where
  "CRC32C b = crc_update castagnoli 0 b"

definition sum64 :: "bytes \<Rightarrow> u64" where
  "sum64 b = crc_update ecma 0 b"

section \<open>Linearity and injectivity\<close>

lemma crc_bit_xor: "crc_bit p (a XOR b) = crc_bit p a XOR crc_bit p b"
  by (rule bit_word_eqI) (auto simp: crc_bit_def bit_simps)

lemma crc_bits_xor: "(crc_bit p ^^ n) (a XOR b) = (crc_bit p ^^ n) a XOR (crc_bit p ^^ n) b"
  by (induction n) (auto simp: crc_bit_xor)

lemma crc_bit_inj:
  fixes p :: "'a::len word"
  assumes "bit p (LENGTH('a) - 1)"
  shows "inj (crc_bit p)"
proof (rule injI)
  fix a b :: "'a word"
  assume eq: "crc_bit p a = crc_bit p b"
  have top: "bit (crc_bit p c) (LENGTH('a) - 1) = bit c 0" for c :: "'a word"
    using assms by (auto simp: crc_bit_def bit_simps dest: bit_imp_le_length)
  have low: "bit a 0 = bit b 0"
    using eq top by metis
  have drop: "drop_bit 1 a = drop_bit 1 b"
  proof (cases "bit b 0")
    case True
    then have "drop_bit 1 a XOR p = drop_bit 1 b XOR p"
      using eq low by (simp add: crc_bit_def)
    then have "(drop_bit 1 a XOR p) XOR p = (drop_bit 1 b XOR p) XOR p" by simp
    then show ?thesis by (simp add: xor.assoc)
  next
    case False
    with eq low show ?thesis by (simp add: crc_bit_def)
  qed
  show "a = b"
  proof (rule bit_word_eqI)
    fix n assume "n < LENGTH('a)"
    show "bit a n = bit b n"
    proof (cases n)
      case 0
      with low show ?thesis by simp
    next
      case (Suc m)
      have "bit (drop_bit 1 a) m = bit (drop_bit 1 b) m" by (simp only: drop)
      with Suc show ?thesis by (simp add: bit_simps)
    qed
  qed
qed

lemma crc_bits_inj:
  fixes p :: "'a::len word"
  assumes "bit p (LENGTH('a) - 1)"
  shows "inj (crc_bit p ^^ n)"
proof (induction n)
  case 0
  then show ?case by (simp add: inj_on_def)
next
  case (Suc n)
  then show ?case
    using inj_compose [OF crc_bit_inj [OF assms] Suc] by (simp add: comp_def)
qed

lemma crc_bits_shift:
  assumes "take_bit n c = 0"
  shows "(crc_bit p ^^ n) c = drop_bit n c"
  using assms
proof (induction n arbitrary: c)
  case 0
  then show ?case by simp
next
  case (Suc n)
  have zero: "\<not> bit c m" if "m < Suc n" for m
  proof
    assume "bit c m"
    then have "bit (take_bit (Suc n) c) m" using that by (simp add: bit_simps)
    with Suc.prems show False by simp
  qed
  have "take_bit n (drop_bit 1 c) = 0"
    by (rule bit_word_eqI) (auto simp: bit_simps zero)
  then have "(crc_bit p ^^ n) (drop_bit 1 c) = drop_bit n (drop_bit 1 c)"
    by (rule Suc.IH)
  moreover have "crc_bit p c = drop_bit 1 c"
    using zero [of 0] by (simp add: crc_bit_def)
  ultimately show ?case
    by (simp add: funpow_swap1 drop_bit_drop_bit)
qed

text \<open>One table step is eight bit steps on the register with the byte folded in.\<close>

lemma crc_step_bits:
  fixes c :: "'a::len word"
  assumes "8 \<le> LENGTH('a)"
  shows "crc_step p c v = (crc_bit p ^^ 8) (c XOR ucast v)"
proof -
  let ?lo = "ucast (ucast c XOR v :: byte) :: 'a word"
  let ?hi = "push_bit 8 (drop_bit 8 c)"
  have split: "c XOR ucast v = ?lo XOR ?hi"
    using assms by (intro bit_word_eqI) (auto simp: bit_simps dest: bit_imp_le_length)
  have "take_bit 8 ?hi = 0"
    by (rule bit_word_eqI) (auto simp: bit_simps)
  then have "(crc_bit p ^^ 8) ?hi = drop_bit 8 ?hi"
    by (rule crc_bits_shift)
  also have "\<dots> = drop_bit 8 c"
    by (rule bit_word_eqI) (auto simp: bit_simps dest: bit_imp_le_length)
  finally show ?thesis
    by (simp add: crc_step_def crc_entry_def split crc_bits_xor)
qed

lemma crc_fold_bits:
  fixes c :: "'a::len word"
  assumes "8 * length bs \<le> LENGTH('a)"
  shows "foldl (crc_step p) c bs = (crc_bit p ^^ (8 * length bs)) (c XOR le_get bs)"
  using assms
proof (induction bs arbitrary: c)
  case Nil
  then show ?case by simp
next
  case (Cons b bs)
  let ?g = "le_get bs :: 'a word"
  have tb: "take_bit 8 (push_bit 8 ?g) = 0"
    by (rule bit_word_eqI) (auto simp: bit_simps)
  have unshift: "drop_bit 8 (push_bit 8 ?g) = ?g"
    using drop_bit_le_get_Cons [of bs 0, where 'a = 'a] Cons.prems by simp
  have split: "le_get (b # bs) = ucast b XOR push_bit 8 ?g"
    by (rule bit_word_eqI) (auto simp: bit_simps dest: bit_imp_le_length)
  have "foldl (crc_step p) c (b # bs) = foldl (crc_step p) (crc_step p c b) bs" by simp
  also have "\<dots> = (crc_bit p ^^ (8 * length bs)) (crc_step p c b XOR ?g)"
    using Cons by simp
  also have "crc_step p c b XOR ?g = (crc_bit p ^^ 8) (c XOR ucast b) XOR (crc_bit p ^^ 8) (push_bit 8 ?g)"
    using Cons.prems by (simp add: crc_step_bits crc_bits_shift [OF tb] unshift)
  also have "\<dots> = (crc_bit p ^^ 8) (c XOR le_get (b # bs))"
    by (simp only: crc_bits_xor [symmetric] split xor.assoc)
  finally have "foldl (crc_step p) c (b # bs)
      = (crc_bit p ^^ (8 * length bs + 8)) (c XOR le_get (b # bs))"
    by (simp only: funpow_add comp_apply)
  moreover have "8 * length (b # bs) = 8 * length bs + 8" by simp
  ultimately show ?case by (simp only:)
qed

lemma crc_step_inj:
  fixes p :: "'a::len word"
  assumes "bit p (LENGTH('a) - 1)" and "8 \<le> LENGTH('a)" and "crc_step p a v = crc_step p b v"
  shows "a = b"
proof -
  have "a XOR ucast v = b XOR ucast v"
    using assms crc_bits_inj [OF assms(1), of 8] by (simp add: crc_step_bits inj_eq)
  then have "(a XOR ucast v) XOR ucast v = (b XOR ucast v) XOR ucast v" by simp
  then show ?thesis by (simp add: xor.assoc)
qed

lemma crc_fold_inj:
  fixes p :: "'a::len word"
  assumes "bit p (LENGTH('a) - 1)" and "8 \<le> LENGTH('a)"
  shows "foldl (crc_step p) a bs = foldl (crc_step p) b bs \<Longrightarrow> a = b"
proof (induction bs arbitrary: a b)
  case Nil
  then show ?case by simp
next
  case (Cons v bs)
  then have "crc_step p a v = crc_step p b v" by simp
  then show ?case using assms by (rule crc_step_inj [rotated 2])
qed

section \<open>Burst detection\<close>

text \<open>
  A contract between a checksum and its clients: two inputs of the same length that
  differ only inside one window no longer than the burst length have different
  checksums.
\<close>

locale burst_checksum =
  fixes cksum :: "bytes \<Rightarrow> 'c"
    and burst :: nat
  assumes detects: "length w = length w' \<Longrightarrow> length w \<le> burst \<Longrightarrow> w \<noteq> w' \<Longrightarrow>
    cksum (pre @ w @ suf) \<noteq> cksum (pre @ w' @ suf)"
begin

lemma detects_byte:
  assumes "i < length bs" and "b \<noteq> bs ! i" and "0 < burst"
  shows "cksum (bs[i := b]) \<noteq> cksum bs"
proof -
  have "bs = take i bs @ [bs ! i] @ drop (Suc i) bs"
    using assms(1) by (simp add: id_take_nth_drop)
  moreover have "bs[i := b] = take i bs @ [b] @ drop (Suc i) bs"
    using assms(1) by (simp add: upd_conv_take_nth_drop)
  ultimately show ?thesis
    using detects [of "[b]" "[bs ! i]" "take i bs" "drop (Suc i) bs"] assms by auto
qed

lemma detects_put:
  assumes "off + length w \<le> length bs" and "length w \<le> burst" and "w \<noteq> get_at off (length w) bs"
  shows "cksum (put_at off w bs) \<noteq> cksum bs"
proof -
  let ?old = "get_at off (length w) bs"
  have "bs = take off bs @ ?old @ drop (off + length w) bs"
    using put_at_split [of bs off "length w"] by (simp add: get_at_def)
  moreover have "length ?old = length w" using assms(1) by simp
  ultimately show ?thesis
    using detects [of w ?old "take off bs" "drop (off + length w) bs"] assms
    by (simp add: put_at_fits)
qed

end

lemma crc_update_burst:
  fixes p :: "'a::len word"
  assumes top: "bit p (LENGTH('a) - 1)" and wide: "8 \<le> LENGTH('a)"
    and len: "length w = length w'" and short: "8 * length w \<le> LENGTH('a)" and neq: "w \<noteq> w'"
  shows "crc_update p c (pre @ w @ suf) \<noteq> crc_update p c (pre @ w' @ suf)"
proof
  let ?s = "foldl (crc_step p) (NOT c) pre"
  assume "crc_update p c (pre @ w @ suf) = crc_update p c (pre @ w' @ suf)"
  then have "NOT (NOT (foldl (crc_step p) (foldl (crc_step p) ?s w) suf))
           = NOT (NOT (foldl (crc_step p) (foldl (crc_step p) ?s w') suf))"
    by (simp add: crc_update_def)
  then have "foldl (crc_step p) ?s w = foldl (crc_step p) ?s w'"
    by (simp add: crc_fold_inj [OF top wide])
  then have "?s XOR le_get w = ?s XOR le_get w'"
    using crc_bits_inj [OF top] len short by (simp add: crc_fold_bits inj_eq)
  then have "?s XOR (?s XOR le_get w) = ?s XOR (?s XOR le_get w')" by simp
  then have "(le_get w :: 'a word) = le_get w'"
    by (simp add: xor.assoc [symmetric])
  with len short neq show False by (simp add: le_get_inject)
qed

interpretation crc32c: burst_checksum CRC32C 4
proof
  fix w w' pre suf :: bytes
  assume "length w = length w'" "length w \<le> 4" "w \<noteq> w'"
  then show "CRC32C (pre @ w @ suf) \<noteq> CRC32C (pre @ w' @ suf)"
    unfolding CRC32C_def by (intro crc_update_burst) (simp_all add: castagnoli_def bit_numeral_rec)
qed

interpretation crc64: burst_checksum sum64 8
proof
  fix w w' pre suf :: bytes
  assume "length w = length w'" "length w \<le> 8" "w \<noteq> w'"
  then show "sum64 (pre @ w @ suf) \<noteq> sum64 (pre @ w' @ suf)"
    unfolding sum64_def by (intro crc_update_burst) (simp_all add: ecma_def)
qed

end
