(* ===== verification/Format_Header.thy ===== *)
theory Format_Header
  imports Checksum
begin

text \<open>
  The 100-byte database header of \<^verbatim>\<open>src/format/header.go\<close> with the page-size rules of
  \<^verbatim>\<open>src/format/alloc.go\<close> and the sentinel errors of \<^verbatim>\<open>src/format/errors.go\<close>: the record,
  its encoder and decoder at their byte offsets, the version and feature checks.
  A Go panic on a short buffer is \<open>None\<close>; an error return is \<open>Inl\<close>.
\<close>

section \<open>Sentinel errors and constants\<close>

datatype format_error =
    ErrNotVecFile
  | ErrCorruptHeader
  | ErrCorrupt
  | ErrVersionTooNew
  | ErrFeatureNotSupported
  | ErrShortBuffer
  | ErrBadPageSize

definition HeaderSize :: nat where "HeaderSize = 100"
definition FormatLevel :: byte where "FormatLevel = 1"
definition EncNone :: byte where "EncNone = 0"
definition ChecksumNone :: byte where "ChecksumNone = 0"
definition ChecksumCRC32C :: byte where "ChecksumCRC32C = 1"
definition FlagEncryption :: byte where "FlagEncryption = 2"
definition DefaultPageSize :: int where "DefaultPageSize = 16384"

lemmas format_consts =
  HeaderSize_def FormatLevel_def EncNone_def ChecksumNone_def ChecksumCRC32C_def FlagEncryption_def

text \<open>The ASCII bytes of \<^verbatim>\<open>tamnd vector format 1\<close>.\<close>

definition magicString :: bytes where
  "magicString = map (\<lambda>c. of_nat (of_char c)) ''tamnd vector format 1''"

lemma magicString_bytes [code_unfold]:
  "magicString = [116, 97, 109, 110, 100, 32, 118, 101, 99, 116, 111, 114, 32, 102, 111, 114, 109,
     97, 116, 32, 49]"
  by (simp add: magicString_def)

lemma length_magicString [simp]: "length magicString = 21"
  by (simp add: magicString_def)

section \<open>Page sizes\<close>

definition ValidPageSize :: "int \<Rightarrow> bool" where
  "ValidPageSize ps = (if ps < 4096 \<or> 65536 < ps then False else ps AND (ps - 1) = 0)"

definition encodePageSize :: "int \<Rightarrow> u16" where
  "encodePageSize ps = (if ps = 65536 then 1 else word_of_int ps)"

definition decodePageSize :: "u16 \<Rightarrow> format_error + int" where
  "decodePageSize code =
     (if code = 1 then Inr 65536
      else if code < 4096 \<or> 32768 < code \<or> code AND (code - 1) \<noteq> 0 then Inl ErrCorruptHeader
      else Inr (uint code))"

section \<open>The header record\<close>

record Header =
  hdr_PageSize :: int
  hdr_FormatWrite :: byte
  hdr_FormatRead :: byte
  hdr_ChangeCounter :: u32
  hdr_PageCount :: u32
  hdr_FreelistTrunk :: u32
  hdr_FreelistCount :: u32
  hdr_CatalogRoot :: u32
  hdr_CollectionCount :: u32
  hdr_SchemaCookie :: u32
  hdr_ApplicationID :: u32
  hdr_UserVersion :: u32
  hdr_Flags :: byte
  hdr_Encryption :: byte
  hdr_TextEncoding :: byte
  hdr_Checksum :: byte
  hdr_ReservedPerPage :: byte
  hdr_VersionValidFor :: u32
  hdr_TxnHighWater :: u64
  hdr_HeaderChecksum :: u32

definition NewHeader :: "int \<Rightarrow> byte \<Rightarrow> Header" where
  "NewHeader pageSize cks =
     \<lparr>hdr_PageSize = pageSize, hdr_FormatWrite = FormatLevel, hdr_FormatRead = FormatLevel,
      hdr_ChangeCounter = 1, hdr_PageCount = 1, hdr_FreelistTrunk = 0, hdr_FreelistCount = 0,
      hdr_CatalogRoot = 0, hdr_CollectionCount = 0, hdr_SchemaCookie = 0, hdr_ApplicationID = 0,
      hdr_UserVersion = 0, hdr_Flags = 0, hdr_Encryption = 0, hdr_TextEncoding = 0,
      hdr_Checksum = cks, hdr_ReservedPerPage = 0, hdr_VersionValidFor = 1,
      hdr_TxnHighWater = 0, hdr_HeaderChecksum = 0\<rparr>"

definition UsablePageSize :: "Header \<Rightarrow> int" where
  "UsablePageSize h = hdr_PageSize h - uint (hdr_ReservedPerPage h)"

definition UsableBody :: "Header \<Rightarrow> int" where
  "UsableBody h = hdr_PageSize h - 32 - uint (hdr_ReservedPerPage h) - 4"

text \<open>
  The writes of \<^verbatim>\<open>Header.Encode\<close> in source order, up to the checksum: the zeroed
  prefix, the magic, and each field at its offset.
\<close>

definition header_fields :: "Header \<Rightarrow> bytes \<Rightarrow> bytes" where
  "header_fields h buf =
    (let b = put_at 0 (replicate HeaderSize 0) buf;
         b = put_at 0 magicString b;
         b = put_at 32 (le_put 2 (encodePageSize (hdr_PageSize h))) b;
         b = put_at 34 [hdr_FormatWrite h] b;
         b = put_at 35 [hdr_FormatRead h] b;
         b = put_at 36 (le_put 4 (hdr_ChangeCounter h)) b;
         b = put_at 40 (le_put 4 (hdr_PageCount h)) b;
         b = put_at 44 (le_put 4 (hdr_FreelistTrunk h)) b;
         b = put_at 48 (le_put 4 (hdr_FreelistCount h)) b;
         b = put_at 52 (le_put 4 (hdr_CatalogRoot h)) b;
         b = put_at 56 (le_put 4 (hdr_CollectionCount h)) b;
         b = put_at 60 (le_put 4 (hdr_SchemaCookie h)) b;
         b = put_at 64 (le_put 4 (hdr_ApplicationID h)) b;
         b = put_at 68 (le_put 4 (hdr_UserVersion h)) b;
         b = put_at 72 [hdr_Flags h] b;
         b = put_at 73 [hdr_Encryption h] b;
         b = put_at 74 [hdr_TextEncoding h] b;
         b = put_at 75 [hdr_Checksum h] b;
         b = put_at 76 [hdr_ReservedPerPage h] b;
         b = put_at 80 (le_put 4 (hdr_VersionValidFor h)) b
     in put_at 84 (le_put 8 (hdr_TxnHighWater h)) b)"

definition Header_Encode :: "Header \<Rightarrow> bytes \<Rightarrow> (Header \<times> bytes) option" where
  "Header_Encode h buf =
    (if length buf < HeaderSize then None
     else let b = header_fields h buf;
              sum = (if hdr_Checksum h \<noteq> ChecksumNone then CRC32C (get_at 0 92 b) else 0)
          in Some (h\<lparr>hdr_HeaderChecksum := sum\<rparr>, put_at 92 (le_put 4 sum) b))"

definition read_header :: "int \<Rightarrow> bytes \<Rightarrow> Header" where
  "read_header ps buf =
     \<lparr>hdr_PageSize = ps,
      hdr_FormatWrite = buf ! 34,
      hdr_FormatRead = buf ! 35,
      hdr_ChangeCounter = le_get (get_at 36 4 buf),
      hdr_PageCount = le_get (get_at 40 4 buf),
      hdr_FreelistTrunk = le_get (get_at 44 4 buf),
      hdr_FreelistCount = le_get (get_at 48 4 buf),
      hdr_CatalogRoot = le_get (get_at 52 4 buf),
      hdr_CollectionCount = le_get (get_at 56 4 buf),
      hdr_SchemaCookie = le_get (get_at 60 4 buf),
      hdr_ApplicationID = le_get (get_at 64 4 buf),
      hdr_UserVersion = le_get (get_at 68 4 buf),
      hdr_Flags = buf ! 72,
      hdr_Encryption = buf ! 73,
      hdr_TextEncoding = buf ! 74,
      hdr_Checksum = buf ! 75,
      hdr_ReservedPerPage = buf ! 76,
      hdr_VersionValidFor = le_get (get_at 80 4 buf),
      hdr_TxnHighWater = le_get (get_at 84 8 buf),
      hdr_HeaderChecksum = le_get (get_at 92 4 buf)\<rparr>"

definition DecodeHeader :: "bytes \<Rightarrow> format_error + Header" where
  "DecodeHeader buf =
    (if length buf < HeaderSize then Inl ErrShortBuffer
     else if take (length magicString) buf \<noteq> magicString then Inl ErrNotVecFile
     else if buf ! length magicString \<noteq> 0 then Inl ErrNotVecFile
     else case decodePageSize (le_get (get_at 32 2 buf)) of
            Inl err \<Rightarrow> Inl err
          | Inr ps \<Rightarrow>
              let h = read_header ps buf in
              if hdr_Checksum h \<noteq> ChecksumNone \<and> CRC32C (get_at 0 92 buf) \<noteq> hdr_HeaderChecksum h
              then Inl ErrCorruptHeader
              else if hdr_TextEncoding h \<noteq> 0 then Inl ErrCorruptHeader
              else Inr h)"

text \<open>\<^verbatim>\<open>CheckVersion\<close> returns the read-only flag, or the error.\<close>

definition CheckVersion :: "Header \<Rightarrow> format_error + bool" where
  "CheckVersion h =
    (if FormatLevel < hdr_FormatRead h then Inl ErrVersionTooNew
     else if FormatLevel < hdr_FormatWrite h then Inr True
     else Inr False)"

definition CheckFeatures :: "Header \<Rightarrow> format_error option" where
  "CheckFeatures h =
    (if hdr_Flags h AND FlagEncryption \<noteq> 0 \<and> hdr_Encryption h \<noteq> EncNone
     then Some ErrFeatureNotSupported else None)"

section \<open>Page-size lemmas\<close>

lemma and_pred_power_of_two:
  "n AND (n - 1) = 0 \<Longrightarrow> 0 < n \<Longrightarrow> \<exists>k. n = 2 ^ k" for n :: int
proof (induction "nat n" arbitrary: n rule: less_induct)
  case less
  show ?case
  proof (cases "even n")
    case True
    then obtain m where m: "n = 2 * m" by (elim evenE)
    have "bit (m AND (m - 1)) i = False" for i
    proof -
      have "\<not> (bit n (Suc i) \<and> bit (n - 1) (Suc i))"
        using less.prems(1) bit_and_iff [of n "n - 1" "Suc i"] by simp
      moreover have "(n - 1) div 2 = m - 1" using m by simp
      ultimately show ?thesis using m by (simp add: bit_Suc bit_and_iff)
    qed
    then have "m AND (m - 1) = 0" by (auto intro: bit_eqI)
    moreover have "0 < m" "nat m < nat n" using m less.prems by auto
    ultimately obtain k where "m = 2 ^ k" using less.hyps by blast
    with m have "n = 2 ^ Suc k" by simp
    then show ?thesis by blast
  next
    case False
    then obtain m where m: "n = 2 * m + 1" by (elim oddE)
    have "bit m i = False" for i
    proof -
      have "\<not> (bit n (Suc i) \<and> bit (n - 1) (Suc i))"
        using less.prems(1) bit_and_iff [of n "n - 1" "Suc i"] by simp
      then show ?thesis using m by (simp add: bit_Suc)
    qed
    then have "m = 0" by (auto intro: bit_eqI)
    with m have "n = 2 ^ 0" by simp
    then show ?thesis by blast
  qed
qed

lemma ValidPageSize_cases:
  assumes "ValidPageSize ps"
  shows "ps \<in> {4096, 8192, 16384, 32768, 65536}"
proof -
  from assms have b: "4096 \<le> ps" "ps \<le> 65536" "ps AND (ps - 1) = 0"
    by (auto simp: ValidPageSize_def split: if_splits)
  then obtain k where k: "ps = 2 ^ k" using and_pred_power_of_two [of ps] by auto
  have "(2::int) ^ 12 \<le> 2 ^ k" "(2::int) ^ k \<le> 2 ^ 16" using b k by simp_all
  then have "12 \<le> k" "k \<le> 16" by (simp_all only: power_increasing_iff one_less_numeral_iff semiring_norm)
  then have "k \<in> {12, 13, 14, 15, 16}" by auto
  with k show ?thesis by auto
qed

lemma ValidPageSize_iff: "ValidPageSize ps \<longleftrightarrow> ps \<in> {4096, 8192, 16384, 32768, 65536}"
proof
  assume "ps \<in> {4096, 8192, 16384, 32768, 65536}"
  then show "ValidPageSize ps" by (auto simp: ValidPageSize_def)
qed (rule ValidPageSize_cases)

lemma decode_encodePageSize:
  assumes "ValidPageSize ps"
  shows "decodePageSize (encodePageSize ps) = Inr ps"
  using ValidPageSize_cases [OF assms] by (auto simp: decodePageSize_def encodePageSize_def)

lemma decodePageSize_valid:
  assumes "decodePageSize code = Inr ps"
  shows "ValidPageSize ps"
proof (cases "code = 1")
  case True
  with assms show ?thesis by (simp add: decodePageSize_def ValidPageSize_iff)
next
  case False
  with assms have c: "4096 \<le> code" "code \<le> 32768" "code AND (code - 1) = 0" "ps = uint code"
    by (auto simp: decodePageSize_def split: if_splits)
  have pred: "uint (code - 1) = uint code - 1"
    using c by (simp add: uint_sub_if' word_le_def)
  have "ps AND (ps - 1) = uint (code AND (code - 1))"
    by (simp only: uint_and pred c(4))
  then have "ps AND (ps - 1) = 0" using c(3) by simp
  moreover have "4096 \<le> ps" "ps \<le> 32768" using c by (simp_all add: word_le_def)
  ultimately show ?thesis by (simp add: ValidPageSize_def)
qed

section \<open>Encoder lemmas\<close>

lemma length_header_fields [simp]:
  "HeaderSize \<le> length buf \<Longrightarrow> length (header_fields h buf) = length buf"
  by (simp add: header_fields_def format_consts Let_def)

lemma take_magic_eq: "take 21 b = get_at 0 21 b"
  by (simp add: get_at_def)

text \<open>Reading back every field of the prefix the encoder lays out.\<close>

lemma header_fields_read:
  assumes "HeaderSize \<le> length buf"
  shows "get_at 0 21 (header_fields h buf) = magicString"
    and "header_fields h buf ! 21 = 0"
    and "get_at 32 2 (header_fields h buf) = le_put 2 (encodePageSize (hdr_PageSize h))"
    and "drop 100 (header_fields h buf) = drop 100 buf"
  using assms by (simp_all add: header_fields_def format_consts Let_def buf_simps)

lemma read_header_fields:
  assumes "HeaderSize \<le> length buf"
  shows "read_header (hdr_PageSize h) (put_at 92 (le_put 4 cks) (header_fields h buf))
       = h\<lparr>hdr_HeaderChecksum := cks\<rparr>"
  using assms by (simp add: read_header_def header_fields_def format_consts Let_def buf_simps codec_simps)

lemma DecodeHeader_checksum:
  assumes "DecodeHeader b = Inr h" and "b ! 75 \<noteq> ChecksumNone"
  shows "CRC32C (get_at 0 92 b) = le_get (get_at 92 4 b)"
  using assms
  by (auto simp: DecodeHeader_def read_header_def Let_def split: if_splits sum.splits)

section \<open>Properties of the header\<close>

text \<open>Only the first hundred bytes are decoded.\<close>

lemma DecodeHeader_take:
  assumes "HeaderSize \<le> length b"
  shows "DecodeHeader (take HeaderSize b) = DecodeHeader b"
proof -
  have "read_header ps (take HeaderSize b) = read_header ps b" for ps
    by (simp add: read_header_def HeaderSize_def get_at_take)
  then show ?thesis
    using assms by (simp add: DecodeHeader_def length_magicString HeaderSize_def get_at_take min_def
        split: sum.split)
qed

text \<open>Encoding a header keeps it but for the checksum field, and the encoded bytes decode to it.\<close>

lemma header_codec:
  assumes "ValidPageSize (hdr_PageSize h)" and "hdr_TextEncoding h = 0" and "HeaderSize \<le> length buf"
  shows "\<exists>h' b cks. Header_Encode h buf = Some (h', b) \<and> h' = h\<lparr>hdr_HeaderChecksum := cks\<rparr> \<and>
    DecodeHeader b = Inr h' \<and> length b = length buf \<and> drop HeaderSize b = drop HeaderSize buf"
proof -
  let ?f = "header_fields h buf"
  let ?c = "if hdr_Checksum h \<noteq> ChecksumNone then CRC32C (get_at 0 92 ?f) else 0"
  let ?b = "put_at 92 (le_put 4 ?c) ?f" and ?h = "h\<lparr>hdr_HeaderChecksum := ?c\<rparr>"
  have enc: "Header_Encode h buf = Some (?h, ?b)"
    using assms(3) by (simp add: Header_Encode_def Let_def)
  have pre: "take 21 ?b = magicString" "?b ! 21 = 0" "get_at 0 92 ?b = get_at 0 92 ?f"
    "decodePageSize (le_get (get_at 32 2 ?b)) = Inr (hdr_PageSize h)"
    using assms header_fields_read [OF assms(3), of h]
    by (simp_all add: take_magic_eq buf_simps codec_simps decode_encodePageSize HeaderSize_def)
  have rd: "read_header (hdr_PageSize h) ?b = ?h"
    by (rule read_header_fields [OF assms(3)])
  have "DecodeHeader ?b = Inr ?h"
    using assms(2,3) unfolding DecodeHeader_def length_magicString pre sum.case rd
    by (simp add: Let_def)
  moreover have "drop HeaderSize ?b = drop HeaderSize buf"
    using header_fields_read(4) [OF assms(3), of h] by (simp add: HeaderSize_def buf_simps)
  ultimately show ?thesis using enc assms(3) by auto
qed

text \<open>C29: decoding an encoded header gives back the header, with the checksum the encoder
  stamped, for every header with a legal page size and UTF-8 text encoding; the bytes
  of the buffer after the first 100 are untouched.\<close>

theorem header_roundtrip:
  assumes "ValidPageSize (hdr_PageSize h)" and "hdr_TextEncoding h = 0" and "HeaderSize \<le> length buf"
  shows "\<exists>h' b cks. Header_Encode h buf = Some (h', b) \<and> h' = h\<lparr>hdr_HeaderChecksum := cks\<rparr> \<and>
    DecodeHeader b = Inr h' \<and> length b = length buf \<and> drop HeaderSize b = drop HeaderSize buf"
  using header_codec [OF assms] .

theorem header_roundtrip_witness:
  "\<exists>h' b cks. Header_Encode (NewHeader 4096 ChecksumCRC32C) (replicate 4096 0) = Some (h', b) \<and>
    h' = (NewHeader 4096 ChecksumCRC32C)\<lparr>hdr_HeaderChecksum := cks\<rparr> \<and>
    DecodeHeader b = Inr h' \<and> length b = length (replicate 4096 (0 :: byte)) \<and>
    drop HeaderSize b = drop HeaderSize (replicate 4096 0)"
  by (rule header_roundtrip) (simp_all add: NewHeader_def ValidPageSize_iff HeaderSize_def)



end
