(* ===== verification/Format_Page.thy ===== *)
theory Format_Page
  imports Format_Header
begin

text \<open>
  Content pages: the common 32-byte page header and the tail checksum of
  \<^verbatim>\<open>src/format/page.go\<close>, and the freelist trunk pages of \<^verbatim>\<open>src/format/alloc.go\<close>.
  Page numbers are \<open>u32\<close>; a Go panic on an out-of-range slice is \<open>None\<close>.
\<close>

section \<open>Page types\<close>

definition PageFree :: byte where "PageFree = 0x00"
definition PageFreelistTrunk :: byte where "PageFreelistTrunk = 0x01"

definition page_type_names :: "string list" where
  "page_type_names =
    [''free'', ''freelist_trunk'', ''catalog'', ''btree_interior'', ''btree_leaf'',
     ''vector_segment'', ''vector_overflow'', ''hnsw_graph'', ''ivf_centroid'', ''ivf_posting'',
     ''pq_codebook'', ''diskann_graph'', ''meta_column'', ''meta_overflow'', ''ptrmap'', ''blob'']"

definition PageType_String :: "byte \<Rightarrow> string" where
  "PageType_String t =
    (if unat t < length page_type_names then page_type_names ! unat t else ''page?'')"

section \<open>The common page header\<close>

definition PageHeaderSize :: nat where "PageHeaderSize = 32"
definition PageChecksumSize :: nat where "PageChecksumSize = 4"

record PageHeader =
  ph_Type :: byte
  ph_Flags :: byte
  ph_FreeOffset :: u16
  ph_CellCount :: u16
  ph_FragBytes :: u16
  ph_PageLSN :: u64
  ph_SectionID :: u32
  ph_NextPage :: u32
  ph_PrevPage :: u32

definition zero_page_header :: PageHeader where
  "zero_page_header =
     \<lparr>ph_Type = 0, ph_Flags = 0, ph_FreeOffset = 0, ph_CellCount = 0, ph_FragBytes = 0,
      ph_PageLSN = 0, ph_SectionID = 0, ph_NextPage = 0, ph_PrevPage = 0\<rparr>"

definition page_header_fields :: "PageHeader \<Rightarrow> bytes \<Rightarrow> bytes" where
  "page_header_fields h page =
    (let p = put_at 0 [ph_Type h] page;
         p = put_at 1 [ph_Flags h] p;
         p = put_at 2 (le_put 2 (ph_FreeOffset h)) p;
         p = put_at 4 (le_put 2 (ph_CellCount h)) p;
         p = put_at 6 (le_put 2 (ph_FragBytes h)) p;
         p = put_at 8 (le_put 8 (ph_PageLSN h)) p;
         p = put_at 16 (le_put 4 (ph_SectionID h)) p;
         p = put_at 20 (le_put 4 (ph_NextPage h)) p;
         p = put_at 24 (le_put 4 (ph_PrevPage h)) p
     in put_at 28 [0, 0, 0, 0] p)"

definition PageHeader_Encode :: "PageHeader \<Rightarrow> bytes \<Rightarrow> bytes option" where
  "PageHeader_Encode h page =
    (if length page < PageHeaderSize then None else Some (page_header_fields h page))"

definition DecodePageHeader :: "bytes \<Rightarrow> format_error + PageHeader" where
  "DecodePageHeader page =
    (if length page < PageHeaderSize then Inl ErrShortBuffer
     else Inr \<lparr>ph_Type = page ! 0,
               ph_Flags = page ! 1,
               ph_FreeOffset = le_get (get_at 2 2 page),
               ph_CellCount = le_get (get_at 4 2 page),
               ph_FragBytes = le_get (get_at 6 2 page),
               ph_PageLSN = le_get (get_at 8 8 page),
               ph_SectionID = le_get (get_at 16 4 page),
               ph_NextPage = le_get (get_at 20 4 page),
               ph_PrevPage = le_get (get_at 24 4 page)\<rparr>)"

lemma length_page_header_fields [simp]: "length (page_header_fields h page) = length page"
  by (simp add: page_header_fields_def Let_def)

lemma drop_page_header_fields:
  "32 \<le> n \<Longrightarrow> drop n (page_header_fields h page) = drop n page"
  by (simp add: page_header_fields_def Let_def buf_simps)

lemma Decode_page_header_fields:
  assumes "PageHeaderSize \<le> length page"
  shows "DecodePageHeader (page_header_fields h page) = Inr h"
proof -
  have "page \<noteq> []" using assms by (auto simp: PageHeaderSize_def)
  with assms show ?thesis
    by (simp add: DecodePageHeader_def page_header_fields_def PageHeaderSize_def Let_def
        buf_simps codec_simps)
qed

text \<open>The decoder reads nothing past the 32-byte prefix.\<close>

lemma DecodePageHeader_prefix:
  assumes "take 32 p = take 32 q" and "32 \<le> length p" and "32 \<le> length q"
  shows "DecodePageHeader p = DecodePageHeader q"
proof -
  have nth: "p ! i = q ! i" if "i < 32" for i
    using assms that by (metis nth_take)
  have get: "get_at o1 n p = get_at o1 n q" if "o1 + n \<le> 32" for o1 n
  proof -
    have "get_at o1 n (take 32 xs) = get_at o1 n xs" for xs :: bytes
      using that by (simp add: get_at_def drop_take min_def)
    then show ?thesis using assms(1) by metis
  qed
  show ?thesis
    using assms(2,3) by (simp add: DecodePageHeader_def PageHeaderSize_def nth get)
qed

section \<open>The tail checksum\<close>

definition WritePageChecksum :: "bytes \<Rightarrow> byte \<Rightarrow> bytes option" where
  "WritePageChecksum page algo =
    (let n = length page in
     if n < 4 then None
     else if algo = ChecksumNone then Some (put_at (n - 4) (le_put 4 (0 :: u32)) page)
     else Some (put_at (n - 4) (le_put 4 (CRC32C (take (n - 4) page))) page))"

text \<open>\<open>Inr ()\<close> is the nil error.\<close>

definition VerifyPageChecksum :: "bytes \<Rightarrow> byte \<Rightarrow> (format_error + unit) option" where
  "VerifyPageChecksum page algo =
    (if algo = ChecksumNone then Some (Inr ())
     else let n = length page in
       if n < 4 then None
       else if CRC32C (take (n - 4) page) \<noteq> le_get (get_at (n - 4) 4 page)
            then Some (Inl ErrCorrupt) else Some (Inr ()))"

definition BodyRange :: "int \<Rightarrow> byte \<Rightarrow> int \<times> int" where
  "BodyRange pageSize reservedPerPage =
     (int PageHeaderSize, pageSize - uint reservedPerPage - int PageChecksumSize)"

lemma WritePageChecksum_Some:
  assumes "4 \<le> length page"
  obtains out where "WritePageChecksum page algo = Some out"
    and "length out = length page" and "take (length page - 4) out = take (length page - 4) page"
    and "VerifyPageChecksum out algo = Some (Inr ())"
proof -
  let ?n = "length page - 4"
  let ?c = "if algo = ChecksumNone then 0 else CRC32C (take ?n page)"
  let ?out = "put_at ?n (le_put 4 ?c) page"
  have "WritePageChecksum page algo = Some ?out"
    using assms by (simp add: WritePageChecksum_def Let_def)
  moreover have "VerifyPageChecksum ?out algo = Some (Inr ())"
    using assms by (simp add: VerifyPageChecksum_def Let_def buf_simps codec_simps)
  ultimately show ?thesis using that by (simp add: buf_simps)
qed

lemma VerifyPageChecksum_ok:
  assumes "VerifyPageChecksum page algo = Some (Inr ())" and "algo \<noteq> ChecksumNone"
  shows "4 \<le> length page" and "CRC32C (take (length page - 4) page) = le_get (get_at (length page - 4) 4 page)"
  using assms by (auto simp: VerifyPageChecksum_def Let_def split: if_splits)

section \<open>Freelist trunk pages\<close>

record TrunkPage =
  tp_Next :: u32
  tp_Leafs :: "u32 list"

definition trunkBodyStart :: nat where "trunkBodyStart = PageHeaderSize"

definition TrunkCapacity :: "int \<Rightarrow> byte \<Rightarrow> int" where
  "TrunkCapacity pageSize reservedPerPage =
    (let (_, end) = BodyRange pageSize reservedPerPage;
         body = end - int trunkBodyStart
     in if body < 0 then 0 else body div 4)"

text \<open>The package's own \<^verbatim>\<open>putU32\<close>/\<^verbatim>\<open>getU32\<close> on the slice \<^verbatim>\<open>page[off:]\<close>.\<close>

definition putU32 :: "nat \<Rightarrow> u32 \<Rightarrow> bytes \<Rightarrow> bytes option" where
  "putU32 off v page =
    (if length page < off + 4 then None
     else Some (put_at off [ucast v, ucast (drop_bit 8 v), ucast (drop_bit 16 v),
                            ucast (drop_bit 24 v)] page))"

definition getU32 :: "nat \<Rightarrow> bytes \<Rightarrow> u32 option" where
  "getU32 off page =
    (if length page < off + 4 then None
     else Some (ucast (page ! off) OR push_bit 8 (ucast (page ! (off + 1)))
                OR push_bit 16 (ucast (page ! (off + 2)))
                OR push_bit 24 (ucast (page ! (off + 3)))))"

fun put_leafs :: "nat \<Rightarrow> u32 list \<Rightarrow> bytes \<Rightarrow> bytes option" where
  "put_leafs off [] page = Some page"
| "put_leafs off (leaf # leafs) page =
     (case putU32 off leaf page of None \<Rightarrow> None | Some page' \<Rightarrow> put_leafs (off + 4) leafs page')"

fun get_leafs :: "nat \<Rightarrow> nat \<Rightarrow> bytes \<Rightarrow> u32 list option" where
  "get_leafs off 0 page = Some []"
| "get_leafs off (Suc n) page =
     (case getU32 off page of
        None \<Rightarrow> None
      | Some leaf \<Rightarrow> map_option (Cons leaf) (get_leafs (off + 4) n page))"

definition EncodeTrunk :: "bytes \<Rightarrow> TrunkPage \<Rightarrow> bytes option" where
  "EncodeTrunk page tp =
    (let h = zero_page_header\<lparr>ph_Type := PageFreelistTrunk, ph_NextPage := tp_Next tp,
                              ph_CellCount := of_nat (length (tp_Leafs tp))\<rparr>
     in case PageHeader_Encode h (replicate (length page) 0) of
          None \<Rightarrow> None
        | Some page' \<Rightarrow> put_leafs trunkBodyStart (tp_Leafs tp) page')"

text \<open>\<^verbatim>\<open>DecodeTrunk\<close> discards the page-header error: a short page decodes as a zero header.\<close>

definition DecodeTrunk :: "bytes \<Rightarrow> TrunkPage option" where
  "DecodeTrunk page =
    (let h = (case DecodePageHeader page of Inl _ \<Rightarrow> zero_page_header | Inr h \<Rightarrow> h)
     in map_option (\<lambda>leafs. \<lparr>tp_Next = ph_NextPage h, tp_Leafs = leafs\<rparr>)
          (get_leafs trunkBodyStart (unat (ph_CellCount h)) page))"

section \<open>Trunk lemmas\<close>

lemma putU32_le_put: "off + 4 \<le> length page \<Longrightarrow> putU32 off v page = Some (put_at off (le_put 4 v) page)"
  by (simp add: putU32_def numeral_eq_Suc drop_bit_drop_bit)

lemma nths_4: "off + 4 \<le> length p \<Longrightarrow>
  get_at off 4 p = [p ! off, p ! (off + 1), p ! (off + 2), p ! (off + 3)]"
  by (rule nth_equalityI) (auto simp: get_at_def less_Suc_eq numeral_eq_Suc)

lemma getU32_le_get:
  assumes "off + 4 \<le> length page"
  shows "getU32 off page = Some (le_get (get_at off 4 page))"
  using assms
  by (simp add: getU32_def nths_4 push_bit_or)

lemma put_leafs_Some:
  assumes "off + 4 * length leafs \<le> length page"
  obtains out where "put_leafs off leafs page = Some out"
    and "length out = length page" and "take off out = take off page"
    and "get_leafs off (length leafs) out = Some leafs"
proof -
  have "\<exists>out. put_leafs off leafs page = Some out \<and> length out = length page \<and>
      take off out = take off page \<and> get_leafs off (length leafs) out = Some leafs"
    using assms
  proof (induction leafs arbitrary: off page)
    case Nil
    then show ?case by simp
  next
    case (Cons leaf leafs)
    let ?p = "put_at off (le_put 4 leaf) page"
    have "off + 4 + 4 * length leafs \<le> length ?p" using Cons.prems by simp
    from Cons.IH [OF this] obtain out where
      out: "put_leafs (off + 4) leafs ?p = Some out" "length out = length ?p"
        "take (off + 4) out = take (off + 4) ?p" "get_leafs (off + 4) (length leafs) out = Some leafs"
      by blast
    have "get_at off 4 out = get_at off 4 ?p"
      using out(3) by (metis get_at_def take_drop add.commute)
    then have leaf: "getU32 off out = Some leaf"
      using Cons.prems out(2) by (simp add: getU32_le_get buf_simps codec_simps)
    have "take off out = take off (take (off + 4) out)" by (simp add: min_def)
    also have "\<dots> = take off page" by (simp add: out(3) min_def buf_simps)
    finally show ?case
      using Cons.prems out leaf by (simp add: putU32_le_put)
  qed
  then show ?thesis using that by blast
qed

lemma TrunkCapacity_fits:
  assumes "int n \<le> TrunkCapacity ps r" and "0 < n"
  shows "32 + 4 * int n + uint r + 4 \<le> ps"
proof -
  have "int n \<le> (ps - uint r - 36) div 4" "\<not> ps - uint r - 36 < 0"
    using assms by (auto simp: TrunkCapacity_def BodyRange_def PageHeaderSize_def
        PageChecksumSize_def trunkBodyStart_def split: if_splits)
  then show ?thesis by linarith
qed

lemma get_leafs_prefix:
  assumes "take m p = take m q" and "off + 4 * n \<le> m" and "m \<le> length p" and "m \<le> length q"
  shows "get_leafs off n p = get_leafs off n q"
  using assms(2)
proof (induction n arbitrary: off)
  case 0
  then show ?case by simp
next
  case (Suc n)
  have "p ! i = q ! i" if "i < m" for i
    using assms(1) that by (metis nth_take)
  then have "getU32 off p = getU32 off q"
    using Suc.prems assms(3,4) by (simp add: getU32_def)
  with Suc.prems Suc.IH [of "off + 4"] show ?case by (simp split: option.split)
qed

text \<open>A trunk survives encoding followed by the tail checksum, on every legal page.\<close>

lemma trunk_page_roundtrip:
  assumes ps: "ValidPageSize (int (length page))"
    and cap: "int (length (tp_Leafs tp)) \<le> TrunkCapacity (int (length page)) r"
  obtains p out where "EncodeTrunk page tp = Some p" and "WritePageChecksum p algo = Some out"
    and "length out = length page" and "DecodeTrunk out = Some tp"
    and "VerifyPageChecksum out algo = Some (Inr ())"
proof -
  let ?L = "tp_Leafs tp" and ?n = "length page"
  let ?h = "zero_page_header\<lparr>ph_Type := PageFreelistTrunk, ph_NextPage := tp_Next tp,
                              ph_CellCount := of_nat (length ?L)\<rparr>"
  let ?p0 = "page_header_fields ?h (replicate ?n 0)"
  have big: "4096 \<le> ?n" "?n \<le> 65536"
    using ValidPageSize_cases [OF ps] by auto
  have fits: "32 + 4 * length ?L + 4 \<le> ?n"
  proof (cases "length ?L = 0")
    case False
    then show ?thesis using TrunkCapacity_fits [OF cap] uint_ge_0 [of r] by linarith
  qed (use big in simp)
  have enc: "PageHeader_Encode ?h (replicate ?n 0) = Some ?p0"
    using big by (simp add: PageHeader_Encode_def PageHeaderSize_def)
  have "32 + 4 * length ?L \<le> length ?p0" using fits by simp
  then obtain p where p: "put_leafs 32 ?L ?p0 = Some p" "length p = ?n"
      "take 32 p = take 32 ?p0" "get_leafs 32 (length ?L) p = Some ?L"
    by (rule put_leafs_Some) auto
  have ET: "EncodeTrunk page tp = Some p"
    by (simp add: EncodeTrunk_def enc p trunkBodyStart_def PageHeaderSize_def)
  obtain out where out: "WritePageChecksum p algo = Some out" "length out = ?n"
      "take (?n - 4) out = take (?n - 4) p" "VerifyPageChecksum out algo = Some (Inr ())"
    using WritePageChecksum_Some [of p algo] big p(2) by auto
  have "take 32 out = take 32 (take (?n - 4) out)" using big by (auto simp: min_def)
  also have "\<dots> = take 32 ?p0" using big p(3) out(3) by (auto simp: min_def)
  finally have "DecodePageHeader out = DecodePageHeader ?p0"
    using big out(2) by (intro DecodePageHeader_prefix) auto
  also have "\<dots> = Inr ?h"
    using big by (intro Decode_page_header_fields) (simp add: PageHeaderSize_def)
  finally have hd: "DecodePageHeader out = Inr ?h" .
  have cnt: "unat (of_nat (length ?L) :: u16) = length ?L"
    using big fits by (simp add: unat_of_nat)
  have "get_leafs 32 (length ?L) out = Some ?L"
    using get_leafs_prefix [of "?n - 4" out p 32 "length ?L"] out(2,3) p(2,4) fits by simp
  then have "DecodeTrunk out = Some tp"
    by (simp add: DecodeTrunk_def hd cnt trunkBodyStart_def PageHeaderSize_def)
  with ET out show ?thesis using that by blast
qed

section \<open>Properties of pages\<close>

text \<open>C31: a page whose tail checksum was written verifies, and verification fails after any
  change of at most four consecutive bytes of the body.\<close>

theorem page_burst_detected:
  assumes "WritePageChecksum page algo = Some out" and "algo \<noteq> ChecksumNone"
    and "off + length w \<le> length page - 4" and "length w \<le> 4" and "w \<noteq> get_at off (length w) out"
  shows "VerifyPageChecksum out algo = Some (Inr ()) \<and>
    VerifyPageChecksum (put_at off w out) algo = Some (Inl ErrCorrupt)"
proof -
  have len4: "4 \<le> length page"
    using assms(1) by (auto simp: WritePageChecksum_def Let_def split: if_splits)
  then have len: "length out = length page" and ok: "VerifyPageChecksum out algo = Some (Inr ())"
    using WritePageChecksum_Some [OF len4, of algo] assms(1) by auto
  let ?n = "length page - 4"
  have body: "take ?n (put_at off w out) = put_at off w (take ?n out)"
    using assms(3) len by (simp add: take_put_at)
  have old: "get_at off (length w) (take ?n out) = get_at off (length w) out"
    using assms(3) by (simp add: get_at_take)
  have "CRC32C (put_at off w (take ?n out)) \<noteq> CRC32C (take ?n out)"
    using crc32c.detects_put [of off w "take ?n out"] assms(3-5) len old by simp
  moreover have "CRC32C (take ?n out) = le_get (get_at ?n 4 out)"
    using VerifyPageChecksum_ok [OF ok assms(2)] len by simp
  moreover have "get_at ?n 4 (put_at off w out) = get_at ?n 4 out"
    using assms(3) by (simp add: get_put_after)
  ultimately show ?thesis
    using ok assms(2) len len4 body by (simp add: VerifyPageChecksum_def Let_def)
qed

theorem page_burst_detected_witness:
  "\<exists>out. WritePageChecksum (replicate 4096 7) ChecksumCRC32C = Some out \<and>
    VerifyPageChecksum (put_at 2000 [6] out) ChecksumCRC32C = Some (Inl ErrCorrupt)"
proof -
  let ?p = "replicate 4096 (7 :: byte)"
  obtain out where out: "WritePageChecksum ?p ChecksumCRC32C = Some out" "length out = length ?p"
      "take (length ?p - 4) out = take (length ?p - 4) ?p"
    by (rule WritePageChecksum_Some [of ?p ChecksumCRC32C]) auto
  have "get_at 2000 1 out = get_at 2000 1 (take (length ?p - 4) out)"
    by (simp add: get_at_take)
  also have "\<dots> = [7]" unfolding out(3) by (simp add: get_at_def)
  finally have "[6] \<noteq> get_at 2000 (length [6 :: byte]) out" by simp
  then have "VerifyPageChecksum (put_at 2000 [6] out) ChecksumCRC32C = Some (Inl ErrCorrupt)"
    using page_burst_detected [OF out(1), of 2000 "[6]"]
    by (simp add: ChecksumCRC32C_def ChecksumNone_def)
  with out(1) show ?thesis by blast
qed

text \<open>On a legal page, a freelist trunk within capacity encodes, is stamped with its tail
  checksum, verifies, and decodes back to the same link and leaf list.\<close>

lemma trunk_roundtrip:
  assumes "ValidPageSize (int (length page))"
    and "int (length (tp_Leafs tp)) \<le> TrunkCapacity (int (length page)) r"
  shows "\<exists>p out. EncodeTrunk page tp = Some p \<and> WritePageChecksum p algo = Some out \<and>
    length out = length page \<and> VerifyPageChecksum out algo = Some (Inr ()) \<and> DecodeTrunk out = Some tp"
  using trunk_page_roundtrip [OF assms, of algo] by metis

lemma trunk_roundtrip_instance:
  "\<exists>p out. EncodeTrunk (replicate 4096 0) \<lparr>tp_Next = 9, tp_Leafs = [3, 5]\<rparr> = Some p \<and>
    WritePageChecksum p ChecksumCRC32C = Some out \<and> length out = length (replicate 4096 (0 :: byte)) \<and>
    VerifyPageChecksum out ChecksumCRC32C = Some (Inr ()) \<and>
    DecodeTrunk out = Some \<lparr>tp_Next = 9, tp_Leafs = [3, 5]\<rparr>"
  by (rule trunk_roundtrip [where r = 0])
    (simp_all add: ValidPageSize_iff TrunkCapacity_def BodyRange_def PageHeaderSize_def
      PageChecksumSize_def trunkBodyStart_def)

end
