(* ===== verification/Varint.thy ===== *)
theory Varint
  imports Format_Header
begin

text \<open>
  The variable-length record encoding of \<^verbatim>\<open>src/format/varint.go\<close>: LEB128 unsigned
  integers, zigzag signed integers, and length-prefixed byte strings.  The loops are
  those of Go's \<^verbatim>\<open>encoding/binary\<close>; a result is the value with the byte count, which is
  not positive on truncation (0) and overflow (negative).
\<close>

definition MaxVarintLen64 :: nat where "MaxVarintLen64 = 10"

function put_uvarint :: "u64 \<Rightarrow> bytes" where
  "put_uvarint x = (if 0x80 \<le> x then (ucast x OR 0x80) # put_uvarint (drop_bit 7 x) else [ucast x])"
  by pat_completeness auto
termination
proof (relation "measure unat", goal_cases)
  case 1
  then show ?case by simp
next
  case (2 x)
  then have "0 < unat x" by (simp add: word_le_nat_alt)
  then show ?case by (simp add: unat_drop_bit_div)
qed

declare put_uvarint.simps [simp del]

definition AppendUvarint :: "bytes \<Rightarrow> u64 \<Rightarrow> bytes" where
  "AppendUvarint dst x = dst @ put_uvarint x"

fun uvarint_loop :: "bytes \<Rightarrow> nat \<Rightarrow> u64 \<Rightarrow> u64 \<times> int" where
  "uvarint_loop [] i x = (0, 0)"
| "uvarint_loop (b # bs) i x =
     (if i = MaxVarintLen64 then (0, - (int i + 1))
      else if b < 0x80 then
        (if i = MaxVarintLen64 - 1 \<and> 1 < b then (0, - (int i + 1))
         else (x OR push_bit (7 * i) (ucast b), int i + 1))
      else uvarint_loop bs (Suc i) (x OR push_bit (7 * i) (ucast (b AND 0x7F))))"

definition Uvarint :: "bytes \<Rightarrow> u64 \<times> int" where
  "Uvarint buf = uvarint_loop buf 0 0"

text \<open>Signed values, as two's complement \<open>u64\<close> words.\<close>

definition zigzag :: "u64 \<Rightarrow> u64" where
  "zigzag x = (if sint x < 0 then NOT (push_bit 1 x) else push_bit 1 x)"

definition unzigzag :: "u64 \<Rightarrow> u64" where
  "unzigzag ux = (if ux AND 1 \<noteq> 0 then NOT (drop_bit 1 ux) else drop_bit 1 ux)"

definition AppendVarint :: "bytes \<Rightarrow> u64 \<Rightarrow> bytes" where
  "AppendVarint dst x = AppendUvarint dst (zigzag x)"

definition Varint :: "bytes \<Rightarrow> u64 \<times> int" where
  "Varint buf = (let (ux, n) = Uvarint buf in (unzigzag ux, n))"

function UvarintLen_loop :: "u64 \<Rightarrow> nat \<Rightarrow> nat" where
  "UvarintLen_loop x n = (if 0x80 \<le> x then UvarintLen_loop (drop_bit 7 x) (Suc n) else n)"
  by pat_completeness auto
termination
proof (relation "measure (unat \<circ> fst)", goal_cases)
  case 1
  then show ?case by simp
next
  case (2 x n)
  then have "0 < unat x" by (simp add: word_le_nat_alt)
  then show ?case by (simp add: unat_drop_bit_div)
qed

declare UvarintLen_loop.simps [simp del]

definition UvarintLen :: "u64 \<Rightarrow> nat" where
  "UvarintLen x = UvarintLen_loop x 1"

definition AppendBytes :: "bytes \<Rightarrow> bytes \<Rightarrow> bytes" where
  "AppendBytes dst b = AppendUvarint dst (of_nat (length b)) @ b"

definition TakeBytes :: "bytes \<Rightarrow> format_error + bytes \<times> bytes" where
  "TakeBytes buf =
    (let (n, k) = Uvarint buf in
     if k \<le> 0 then Inl ErrShortBuffer
     else let rest = drop (nat k) buf in
       if length rest < unat n then Inl ErrShortBuffer
       else Inr (take (unat n) rest, drop (unat n) rest))"

section \<open>Round trips\<close>

lemma put_uvarint_nonempty: "put_uvarint x \<noteq> []"
  by (subst put_uvarint.simps) simp

lemma length_put_uvarint_loop: "UvarintLen_loop x n + 1 = n + length (put_uvarint x)"
proof (induction x n rule: UvarintLen_loop.induct)
  case (1 x n)
  then show ?case
    by (simp add: UvarintLen_loop.simps [of x n] put_uvarint.simps [of x])
qed

lemma length_put_uvarint: "length (put_uvarint x) = UvarintLen x"
  using length_put_uvarint_loop [of x 1] by (simp add: UvarintLen_def)

lemma UvarintLen_pow:
  "unat x < 2 ^ (7 * k) \<Longrightarrow> 0 < k \<Longrightarrow> length (put_uvarint x) \<le> k"
proof (induction k arbitrary: x)
  case 0
  then show ?case by simp
next
  case (Suc k)
  show ?case
  proof (cases "0x80 \<le> x")
    case True
    then have "128 \<le> unat x" by (simp add: word_le_nat_alt)
    with Suc.prems have "0 < k" by (cases k) auto
    moreover have "unat (drop_bit 7 x) < 2 ^ (7 * k)"
      using Suc.prems by (simp add: unat_drop_bit_div less_mult_imp_div_less power_add mult.commute)
    ultimately show ?thesis using True Suc.IH [of "drop_bit 7 x"] by (subst put_uvarint.simps) simp
  next
    case False
    then show ?thesis by (subst put_uvarint.simps) simp
  qed
qed

lemma UvarintLen_max: "UvarintLen x \<le> MaxVarintLen64"
proof -
  have "unat x < 2 ^ 64" using unat_bound [of x] by simp
  also have "(2::nat) ^ 64 < 2 ^ (7 * 10)" by simp
  finally show ?thesis using UvarintLen_pow [of x 10]
    by (simp add: length_put_uvarint [symmetric] MaxVarintLen64_def)
qed

lemma cont_byte_ge: "\<not> (v OR 0x80 < (0x80 :: byte))"
  using le_word_or2 [of "0x80 :: byte" v] by (simp add: or.commute not_less)

lemma cont_byte_low: "ucast ((ucast y OR 0x80 :: byte) AND 0x7F) = take_bit 7 (y :: u64)"
proof -
  have "(ucast y OR 0x80 :: byte) AND 0x7F = take_bit 7 (ucast y OR 0x80)"
    by (simp add: take_bit_eq_mask mask_eq_decr_exp)
  also have "\<dots> = take_bit 7 (ucast y)" by (simp only: take_bit_or) simp
  finally show ?thesis by (simp only:) (rule bit_word_eqI, auto simp: bit_simps)
qed

lemma uvarint_loop_put:
  "unat y < 2 ^ (64 - 7 * i) \<Longrightarrow> i \<le> 9 \<Longrightarrow>
   uvarint_loop (put_uvarint y @ rest) i x
     = (x OR push_bit (7 * i) y, int i + int (length (put_uvarint y)))"
proof (induction y arbitrary: i x rule: put_uvarint.induct)
  case (1 y)
  show ?case
  proof (cases "0x80 \<le> y")
    case False
    then have small: "unat y < 2 ^ 7" by (simp add: word_le_nat_alt)
    have low: "ucast (ucast y :: byte) = y"
    proof -
      have "bit y n \<Longrightarrow> n < 8" for n using high_bits_clear [OF small, of n] by simp
      then show ?thesis by (intro bit_word_eqI) (auto simp: bit_simps)
    qed
    have un: "unat (ucast y :: byte) = unat y"
      using small by (simp add: unsigned_ucast_eq take_bit_nat_eq_self)
    have "\<not> (i = 9 \<and> (1 :: byte) < ucast y)"
      using "1.prems" by (auto simp: word_less_nat_alt un)
    moreover have "ucast y < (0x80 :: byte)" using small by (simp add: word_less_nat_alt un)
    ultimately show ?thesis
      using "1.prems" False by (simp add: put_uvarint.simps [of y] MaxVarintLen64_def low)
  next
    case True
    then have ge: "128 \<le> unat y" by (simp add: word_le_nat_alt)
    have i8: "i \<le> 8"
    proof (rule ccontr)
      assume "\<not> i \<le> 8"
      then have "i = 9" using "1.prems" by simp
      then show False using "1.prems" ge by simp
    qed
    let ?y = "drop_bit 7 y" and ?x = "x OR push_bit (7 * i) (take_bit 7 y)"
    have e: "64 - 7 * i = (64 - 7 * Suc i) + 7" using i8 by simp
    have "unat y < 2 ^ (64 - 7 * Suc i) * 2 ^ 7"
      using "1.prems"(1) unfolding e power_add .
    then have "unat ?y < 2 ^ (64 - 7 * Suc i)"
      by (simp only: unat_drop_bit_div less_mult_imp_div_less)
    then have IH: "uvarint_loop (put_uvarint ?y @ rest) (Suc i) ?x
        = (?x OR push_bit (7 * Suc i) ?y, int (Suc i) + int (length (put_uvarint ?y)))"
      using "1.IH" True i8 by simp
    have "?x OR push_bit (7 * Suc i) ?y = x OR push_bit (7 * i) y"
    proof (rule bit_word_eqI)
      fix n
      show "bit (?x OR push_bit (7 * Suc i) ?y) n = bit (x OR push_bit (7 * i) y) n"
      proof (cases "7 * i + 7 \<le> n")
        case True
        then have "7 + (n - (7 + 7 * i)) = n - 7 * i" by simp
        with True show ?thesis by (auto simp: bit_simps)
      qed (auto simp: bit_simps)
    qed
    with IH show ?thesis
      using True i8
      by (simp add: put_uvarint.simps [of y] MaxVarintLen64_def cont_byte_ge cont_byte_low)
  qed
qed

lemma uvarint_loop_truncated:
  "k < length (put_uvarint y) \<Longrightarrow> snd (uvarint_loop (take k (put_uvarint y)) i x) \<le> 0"
proof (induction y arbitrary: k i x rule: put_uvarint.induct)
  case (1 y)
  show ?case
  proof (cases k)
    case (Suc j)
    with "1.prems" have True: "0x80 \<le> y"
      by (auto simp: put_uvarint.simps [of y] split: if_splits)
    then have "j < length (put_uvarint (drop_bit 7 y))"
      using "1.prems" Suc by (simp add: put_uvarint.simps [of y])
    from "1.IH" [OF True this] show ?thesis
      using True Suc by (simp add: put_uvarint.simps [of y] cont_byte_ge)
  qed simp
qed

lemma Uvarint_put: "Uvarint (put_uvarint x @ rest) = (x, int (UvarintLen x))"
proof -
  have "unat x < 2 ^ (64 - 7 * 0)" using unat_bound [of x] by simp
  then show ?thesis by (simp only: Uvarint_def uvarint_loop_put length_put_uvarint) simp
qed

lemma bit_zigzag: "bit (zigzag x) m \<longleftrightarrow> m < 64 \<and> ((0 < m \<and> bit x (m - 1)) \<noteq> bit x 63)"
  using bit_last_iff [of x]
  by (auto simp: zigzag_def bit_push_bit_iff bit_not_iff simp del: push_bit_numeral push_bit_Suc
      dest: bit_imp_le_length)

lemma bit_unzigzag: "bit (unzigzag u) n \<longleftrightarrow> n < 64 \<and> (bit u (Suc n) \<noteq> bit u 0)"
proof -
  have "u AND 1 \<noteq> 0 \<longleftrightarrow> bit u 0"
    by (simp add: and_one_eq bit_0 odd_iff_mod_2_eq_one)
  then show ?thesis
    by (auto simp: unzigzag_def bit_drop_bit_eq bit_not_iff dest: bit_imp_le_length)
qed

lemma unzigzag_zigzag: "unzigzag (zigzag x) = x"
proof (rule bit_word_eqI)
  fix n assume "n < LENGTH(64)"
  then have "n < 63 \<or> n = 63" by auto
  then show "bit (unzigzag (zigzag x)) n = bit x n"
    by (auto simp: bit_unzigzag bit_zigzag)
qed

section \<open>Properties of records\<close>

text \<open>Every unsigned and every signed 64-bit value survives its varint encoding in front
  of any further bytes, the byte count is \<^verbatim>\<open>UvarintLen\<close> and never exceeds ten.\<close>

lemma varint_roundtrip:
  "Uvarint (AppendUvarint [] x @ rest) = (x, int (UvarintLen x)) \<and>
   Varint (AppendVarint [] y @ rest) = (y, int (UvarintLen (zigzag y))) \<and>
   UvarintLen x \<le> MaxVarintLen64"
  by (simp add: AppendUvarint_def AppendVarint_def Varint_def Uvarint_put unzigzag_zigzag
      UvarintLen_max)

text \<open>A length-prefixed byte string is read back with exactly the bytes that follow it,
  and every proper prefix of the encoding is refused as a short buffer.\<close>

lemma bytes_roundtrip:
  assumes "length b < 2 ^ 63"
  shows "TakeBytes (AppendBytes [] b @ rest) = Inr (b, rest) \<and>
    (k < length (AppendBytes [] b) \<longrightarrow> TakeBytes (take k (AppendBytes [] b)) = Inl ErrShortBuffer)"
proof -
  let ?x = "of_nat (length b) :: u64" and ?e = "put_uvarint (of_nat (length b))"
  have un: "unat ?x = length b" using assms by (simp add: unat_of_nat)
  have full: "AppendBytes [] b = ?e @ b" by (simp add: AppendBytes_def AppendUvarint_def)
  have U: "Uvarint (?e @ tl) = (?x, int (length ?e))" for tl
    by (simp add: Uvarint_put length_put_uvarint)
  have pos: "0 < length ?e" using put_uvarint_nonempty by simp
  have short: "TakeBytes (take k (?e @ b)) = Inl ErrShortBuffer" if "k < length (?e @ b)"
  proof (cases "length ?e \<le> k")
    case True
    then have "take k (?e @ b) = ?e @ take (k - length ?e) b" by simp
    then show ?thesis using True that pos un by (simp add: TakeBytes_def U min_def)
  next
    case False
    then have cut: "take k (?e @ b) = take k ?e" by simp
    have "snd (Uvarint (take k ?e)) \<le> 0"
      using False by (simp add: Uvarint_def uvarint_loop_truncated)
    then show ?thesis unfolding cut by (cases "Uvarint (take k ?e)") (simp add: TakeBytes_def)
  qed
  show ?thesis using short un pos by (simp add: full TakeBytes_def U)
qed

lemma bytes_roundtrip_instance:
  "TakeBytes (AppendBytes [] [104, 105] @ [1, 2, 3]) = Inr ([104, 105], [1, 2, 3]) \<and>
   TakeBytes (take 2 (AppendBytes [] [104, 105])) = Inl ErrShortBuffer"
  using bytes_roundtrip [of "[104, 105]" "[1, 2, 3]" 2]
  by (simp add: AppendBytes_def AppendUvarint_def put_uvarint.simps)

end
