(* ===== verification/Vfs_Mem.thy ===== *)
theory Vfs_Mem
  imports Prelude
begin

text \<open>
  The file seam of \<^verbatim>\<open>src/vfs/vfs.go\<close> and its in-memory backend \<^verbatim>\<open>src/vfs/memfs.go\<close> with
  the shared-memory regions of \<^verbatim>\<open>src/vfs/shm.go\<close>.  A file system is a namespace of
  addresses into a heap of byte images, so two handles on one path share their data;
  each image has the live bytes and the bytes the last successful \<^verbatim>\<open>Sync\<close> made durable.
  Offsets and sizes are natural numbers: every call site passes a non-negative one.
\<close>

section \<open>State\<close>

datatype io_error = EOF | ErrNotExist | ErrExist | ErrSyncFault | ErrNoRegion

record OpenFlags =
  of_Read :: bool
  of_Write :: bool
  of_Create :: bool
  of_Exclusive :: bool

definition OpenReadWrite :: OpenFlags where
  "OpenReadWrite = \<lparr>of_Read = True, of_Write = True, of_Create = False, of_Exclusive = False\<rparr>"

record memData =
  md_live :: bytes
  md_durable :: bytes

definition ShmRegionSize :: nat where "ShmRegionSize = 32 * 1024"

record Mem =
  fs_files :: "string \<rightharpoonup> nat"
  fs_heap :: "nat \<Rightarrow> memData"
  fs_next :: nat
  fs_shm :: "string \<rightharpoonup> bytes option list"
  fs_faultAfter :: int
  fs_syncs :: int

record memFile =
  mf_path :: string
  mf_data :: nat

definition NewMem :: Mem where
  "NewMem = \<lparr>fs_files = Map.empty, fs_heap = (\<lambda>_. \<lparr>md_live = [], md_durable = []\<rparr>), fs_next = 0,
     fs_shm = Map.empty, fs_faultAfter = 0, fs_syncs = 0\<rparr>"

section \<open>Namespace operations\<close>

definition Mem_Open :: "Mem \<Rightarrow> string \<Rightarrow> OpenFlags \<Rightarrow> Mem \<times> (io_error + memFile)" where
  "Mem_Open m path flags =
    (case fs_files m path of
       None \<Rightarrow>
         if \<not> of_Create flags then (m, Inl ErrNotExist)
         else let a = fs_next m in
           (m\<lparr>fs_files := (fs_files m)(path \<mapsto> a),
              fs_heap := (fs_heap m)(a := \<lparr>md_live = [], md_durable = []\<rparr>),
              fs_next := Suc a\<rparr>,
            Inr \<lparr>mf_path = path, mf_data = a\<rparr>)
     | Some a \<Rightarrow>
         if of_Exclusive flags \<and> of_Create flags then (m, Inl ErrExist)
         else (m, Inr \<lparr>mf_path = path, mf_data = a\<rparr>))"

definition shm_drop :: "Mem \<Rightarrow> string \<Rightarrow> Mem" where
  "shm_drop m path = m\<lparr>fs_shm := (fs_shm m)(path := None)\<rparr>"

definition Mem_Delete :: "Mem \<Rightarrow> string \<Rightarrow> Mem" where
  "Mem_Delete m path = shm_drop (m\<lparr>fs_files := (fs_files m)(path := None)\<rparr>) path"

definition Mem_Exists :: "Mem \<Rightarrow> string \<Rightarrow> bool" where
  "Mem_Exists m path = (fs_files m path \<noteq> None)"

definition pad_regions :: "nat \<Rightarrow> bytes option list \<Rightarrow> bytes option list" where
  "pad_regions region regs = regs @ replicate (Suc region - length regs) None"

definition shm_get :: "Mem \<Rightarrow> string \<Rightarrow> nat \<Rightarrow> bool \<Rightarrow> Mem \<times> (io_error + bytes)" where
  "shm_get m path region create =
    (let regs = (case fs_shm m path of None \<Rightarrow> [] | Some r \<Rightarrow> r) in
     if region < length regs \<and> regs ! region \<noteq> None then (m, Inr (the (regs ! region)))
     else if \<not> create then (m, Inl ErrNoRegion)
     else let new = replicate ShmRegionSize 0;
              regs' = (pad_regions region regs)[region := Some new]
          in (m\<lparr>fs_shm := (fs_shm m)(path \<mapsto> regs')\<rparr>, Inr new))"

definition SetSyncFault :: "Mem \<Rightarrow> int \<Rightarrow> Mem" where
  "SetSyncFault m n = m\<lparr>fs_faultAfter := n, fs_syncs := 0\<rparr>"

text \<open>\<^verbatim>\<open>Crash\<close> reverts every named file to its durable bytes and drops its regions.\<close>

definition Crash :: "Mem \<Rightarrow> Mem" where
  "Crash m =
     m\<lparr>fs_heap := (\<lambda>a. if a \<in> ran (fs_files m)
                      then (fs_heap m a)\<lparr>md_live := md_durable (fs_heap m a)\<rparr> else fs_heap m a),
       fs_shm := (\<lambda>p. if fs_files m p \<noteq> None then None else fs_shm m p)\<rparr>"

section \<open>File operations\<close>

definition read_bytes :: "bytes \<Rightarrow> bytes \<Rightarrow> nat \<Rightarrow> bytes \<times> nat \<times> io_error option" where
  "read_bytes live p off =
    (if length live \<le> off then (p, 0, Some EOF)
     else let n = min (length p) (length live - off)
          in (put_at 0 (get_at off n live) p, n, if n < length p then Some EOF else None))"

definition write_bytes :: "bytes \<Rightarrow> bytes \<Rightarrow> nat \<Rightarrow> bytes" where
  "write_bytes live p off =
    (let grown = (if length live < off + length p
                  then live @ replicate (off + length p - length live) 0 else live)
     in put_at off p grown)"

definition live_of :: "Mem \<Rightarrow> memFile \<Rightarrow> bytes" where
  "live_of m f = md_live (fs_heap m (mf_data f))"

definition set_live :: "Mem \<Rightarrow> memFile \<Rightarrow> bytes \<Rightarrow> Mem" where
  "set_live m f b =
     m\<lparr>fs_heap := (fs_heap m)(mf_data f := (fs_heap m (mf_data f))\<lparr>md_live := b\<rparr>)\<rparr>"

definition ReadAt :: "Mem \<Rightarrow> memFile \<Rightarrow> bytes \<Rightarrow> nat \<Rightarrow> bytes \<times> nat \<times> io_error option" where
  "ReadAt m f p off = read_bytes (live_of m f) p off"

definition WriteAt :: "Mem \<Rightarrow> memFile \<Rightarrow> bytes \<Rightarrow> nat \<Rightarrow> Mem \<times> (io_error + nat)" where
  "WriteAt m f p off = (set_live m f (write_bytes (live_of m f) p off), Inr (length p))"

definition Sync :: "Mem \<Rightarrow> memFile \<Rightarrow> Mem \<times> (io_error + unit)" where
  "Sync m f =
    (let m1 = m\<lparr>fs_syncs := fs_syncs m + 1\<rparr> in
     if 0 < fs_faultAfter m1 \<and> fs_faultAfter m1 \<le> fs_syncs m1 then (m1, Inl ErrSyncFault)
     else (m1\<lparr>fs_heap := (fs_heap m1)(mf_data f :=
               (fs_heap m1 (mf_data f))\<lparr>md_durable := live_of m1 f\<rparr>)\<rparr>, Inr ()))"

definition Truncate :: "Mem \<Rightarrow> memFile \<Rightarrow> nat \<Rightarrow> Mem" where
  "Truncate m f n =
    (if n < length (live_of m f) then set_live m f (take n (live_of m f))
     else set_live m f (live_of m f @ replicate (n - length (live_of m f)) 0))"

definition Size :: "Mem \<Rightarrow> memFile \<Rightarrow> nat" where
  "Size m f = length (live_of m f)"

section \<open>Lemmas\<close>

named_theorems vfs_simps \<open>the in-memory file system\<close>

lemma live_of_set_live [simp, vfs_simps]: "live_of (set_live m f b) f = b"
  by (simp add: live_of_def set_live_def)

lemma length_write_bytes [simp, vfs_simps]:
  "length (write_bytes live p off) = max (length live) (off + length p)"
  by (auto simp: write_bytes_def Let_def max_def)

lemma write_bytes_within:
  "off + length p \<le> length live \<Longrightarrow> write_bytes live p off = put_at off p live"
  by (simp add: write_bytes_def)

lemma write_bytes_append: "write_bytes live p (length live) = live @ p"
proof (cases "p = []")
  case True
  then show ?thesis by (simp add: write_bytes_def put_at_def)
next
  case False
  then show ?thesis by (simp add: write_bytes_def put_at_fits)
qed

lemma take_write_bytes: "n \<le> off \<Longrightarrow> n \<le> length live \<Longrightarrow> take n (write_bytes live p off) = take n live"
  by (auto simp: write_bytes_def Let_def take_put_at_le)

lemma get_at_write_same:
  "n = length p \<Longrightarrow> get_at off n (write_bytes live p off) = p"
  by (auto simp: write_bytes_def Let_def get_put_same)

lemma get_at_write_other:
  assumes "o1 + n \<le> off \<or> off + length p \<le> o1" and "o1 + n \<le> length live"
  shows "get_at o1 n (write_bytes live p off) = get_at o1 n live"
proof -
  have "get_at o1 n (live @ zs) = get_at o1 n live" for zs
    using assms(2) by (simp add: get_at_def)
  then show ?thesis
    using assms(1) by (auto simp: write_bytes_def Let_def get_put_before get_put_after)
qed

lemma read_bytes_full:
  assumes "off + length p \<le> length live" and "p \<noteq> []"
  shows "read_bytes live p off = (get_at off (length p) live, length p, None)"
proof -
  have "off < length live" using assms by (cases p) auto
  moreover have "min (length p) (length live - off) = length p" using assms(1) by linarith
  ultimately show ?thesis using assms(1) by (simp add: read_bytes_def Let_def put_at_fits)
qed

lemma Sync_ok:
  assumes "fs_faultAfter m = 0"
  shows "Sync m f = (m\<lparr>fs_syncs := fs_syncs m + 1, fs_heap := (fs_heap m)(mf_data f :=
    (fs_heap m (mf_data f))\<lparr>md_durable := live_of m f\<rparr>)\<rparr>, Inr ())"
  using assms by (simp add: Sync_def Let_def live_of_def)

section \<open>The file contract\<close>

text \<open>
  What the pager and the log rely on: a read returns the bytes of the last write that
  covers them, other bytes are kept, and a crash restores the image of the last
  successful sync.
\<close>

locale positional_file =
  fixes ok :: "'s \<Rightarrow> bool"
    and content :: "'s \<Rightarrow> bytes"
    and durable :: "'s \<Rightarrow> bytes"
    and wr :: "'s \<Rightarrow> bytes \<Rightarrow> nat \<Rightarrow> 's"
    and sync :: "'s \<Rightarrow> 's"
    and crash :: "'s \<Rightarrow> 's"
  assumes wr_content: "content (wr s p off) = write_bytes (content s) p off"
    and wr_durable: "durable (wr s p off) = durable s"
    and wr_ok: "ok s \<Longrightarrow> ok (wr s p off)"
    and sync_durable: "ok s \<Longrightarrow> durable (sync s) = content s"
    and sync_content: "content (sync s) = content s"
    and sync_ok: "ok s \<Longrightarrow> ok (sync s)"
    and crash_content: "ok s \<Longrightarrow> content (crash s) = durable s"
begin

lemma read_your_write: "get_at off (length p) (content (wr s p off)) = p"
  by (simp add: wr_content get_at_write_same)

lemma writes_frame:
  "ok s \<Longrightarrow> ok (foldl (\<lambda>s (p, off). wr s p off) s ws) \<and>
   durable (foldl (\<lambda>s (p, off). wr s p off) s ws) = durable s"
  by (induction ws arbitrary: s) (auto simp: wr_durable wr_ok)

lemma crash_restores_sync:
  "ok s \<Longrightarrow> content (crash (foldl (\<lambda>s (p, off). wr s p off) (sync s) ws)) = content s"
  by (simp add: crash_content writes_frame sync_durable sync_ok)

end

text \<open>The backend meets the contract for a named file while no sync fault is armed.\<close>

definition mem_ok :: "memFile \<Rightarrow> Mem \<Rightarrow> bool" where
  "mem_ok f m \<longleftrightarrow> fs_files m (mf_path f) = Some (mf_data f) \<and> fs_faultAfter m = 0"

definition durable_of :: "Mem \<Rightarrow> memFile \<Rightarrow> bytes" where
  "durable_of m f = md_durable (fs_heap m (mf_data f))"

interpretation mf: positional_file "mem_ok f" "\<lambda>m. live_of m f" "\<lambda>m. durable_of m f"
    "\<lambda>m p off. fst (WriteAt m f p off)" "\<lambda>m. fst (Sync m f)" Crash for f
  by unfold_locales
    (auto simp: mem_ok_def WriteAt_def set_live_def live_of_def durable_of_def Sync_def Crash_def
      Let_def ran_def)

section \<open>Properties of the backend\<close>

text \<open>A crash after any sequence of unsynced writes restores exactly the bytes that were
  live at the last successful sync, and a read of a written range before the crash
  returns the written bytes.\<close>

lemma crash_restores_synced:
  assumes "fs_files m (mf_path f) = Some (mf_data f)" and "fs_faultAfter m = 0"
  shows "live_of (Crash (foldl (\<lambda>m (p, off). fst (WriteAt m f p off)) (fst (Sync m f)) ws)) f
           = live_of m f \<and>
         (p \<noteq> [] \<longrightarrow> ReadAt (fst (WriteAt m f p off)) f (replicate (length p) 0) off
           = (p, length p, None))"
proof -
  have "ReadAt (fst (WriteAt m f p off)) f (replicate (length p) 0) off = (p, length p, None)"
    if "p \<noteq> []"
    using that mf.read_your_write [of off p m f]
    by (simp add: ReadAt_def read_bytes_full WriteAt_def)
  then show ?thesis using mf.crash_restores_sync [of f m ws] assms by (simp add: mem_ok_def)
qed

lemma crash_restores_synced_instance:
  "\<exists>m f. live_of m f = [1, 2] \<and>
    live_of (Crash (foldl (\<lambda>m (p, off). fst (WriteAt m f p off)) (fst (Sync m f)) [([9, 9, 9], 1)])) f
      = [1, 2]"
proof -
  let ?f = "\<lparr>mf_path = ''a'', mf_data = 0\<rparr>"
  let ?m = "NewMem\<lparr>fs_files := [''a'' \<mapsto> 0],
     fs_heap := (\<lambda>_. \<lparr>md_live = [1, 2], md_durable = []\<rparr>)\<rparr>"
  have "live_of ?m ?f = [1, 2]" by (simp add: live_of_def)
  with crash_restores_synced [of ?m ?f "[([9, 9, 9], 1)]" "[]" 0] show ?thesis
    by (auto simp: NewMem_def)
qed

end
