(* ===== verification/Wal.thy ===== *)
theory Wal
  imports Checksum Vfs_Mem
begin

text \<open>
  The write-ahead log: the writer of \<^verbatim>\<open>src/wal/wal.go\<close> and the durable-tail reader of
  \<^verbatim>\<open>src/wal/reader.go\<close>, over the in-memory file backend.  Every operation returns the new
  log with \<open>Inl\<close> the I/O error or \<open>Inr\<close> the result; the reader is a loop whose result
  is a panic, or a summary with the error it stopped at.
\<close>

section \<open>Frames and constants\<close>

definition FrameOpBatch :: byte where "FrameOpBatch = 1"
definition FrameCommit :: byte where "FrameCommit = 2"
definition FrameCheckpoint :: byte where "FrameCheckpoint = 3"
definition FramePageImage :: byte where "FramePageImage = 4"

lemmas frame_types = FrameOpBatch_def FrameCommit_def FrameCheckpoint_def FramePageImage_def

datatype SyncLevel = SyncOff | SyncNormal | SyncFull | SyncExtra

definition headerSize :: nat where "headerSize = 32"
definition walMagic :: u32 where "walMagic = 0x76636c67"
definition walVersion :: u32 where "walVersion = 1"
definition frameHeaderSize :: nat where "frameHeaderSize = 1 + 4 + 8 + 8 + 8 + 8"

lemmas wal_consts = headerSize_def frameHeaderSize_def

record WAL =
  w_fs :: Mem
  w_file :: memFile
  w_path :: string
  w_pageSize :: int
  w_syncMode :: SyncLevel
  w_salt :: u64
  w_lsn :: u64
  w_lastSum :: u64
  w_tailOff :: nat
  w_grew :: bool
  w_batchN :: u32
  w_syncs :: u64

record WalOptions =
  wo_PageSize :: int
  wo_Sync :: SyncLevel
  wo_Salt :: u64

section \<open>The writer\<close>

text \<open>The 24 bytes the header checksum covers, and the 32-byte header.\<close>

definition header24 :: "int \<Rightarrow> u64 \<Rightarrow> bytes" where
  "header24 pageSize salt =
     be_put 4 walMagic @ be_put 4 walVersion @ be_put 4 (word_of_int pageSize :: u32)
     @ be_put 8 salt @ replicate 4 0"

definition header_bytes :: "int \<Rightarrow> u64 \<Rightarrow> bytes" where
  "header_bytes pageSize salt = header24 pageSize salt @ be_put 8 (sum64 (header24 pageSize salt))"

definition headerChecksum :: "WAL \<Rightarrow> u64" where
  "headerChecksum w = sum64 (header24 (w_pageSize w) (w_salt w))"

definition writeHeader :: "WAL \<Rightarrow> WAL \<times> (io_error + unit)" where
  "writeHeader w =
    (case WriteAt (w_fs w) (w_file w) (header_bytes (w_pageSize w) (w_salt w)) 0 of
       (fs, Inl err) \<Rightarrow> (w\<lparr>w_fs := fs\<rparr>, Inl err)
     | (fs, Inr _) \<Rightarrow> (w\<lparr>w_fs := fs\<rparr>, Inr ()))"

definition chain :: "u64 \<Rightarrow> bytes \<Rightarrow> bytes \<Rightarrow> u64" where
  "chain prev headerSansSum payload = sum64 (be_put 8 prev @ headerSansSum @ payload)"

definition frame_head :: "byte \<Rightarrow> nat \<Rightarrow> u64 \<Rightarrow> u64 \<Rightarrow> u64 \<Rightarrow> bytes" where
  "frame_head ft plen lsn version salt =
     [ft] @ be_put 4 (of_nat plen :: u32) @ be_put 8 lsn @ be_put 8 version @ be_put 8 salt"

definition frame_bytes :: "u64 \<Rightarrow> byte \<Rightarrow> u64 \<Rightarrow> u64 \<Rightarrow> u64 \<Rightarrow> bytes \<Rightarrow> bytes" where
  "frame_bytes prev ft lsn version salt payload =
    (let h = frame_head ft (length payload) lsn version salt
     in h @ be_put 8 (chain prev h payload) @ payload)"

definition appendFrame :: "WAL \<Rightarrow> byte \<Rightarrow> u64 \<Rightarrow> bytes \<Rightarrow> WAL \<times> (io_error + unit)" where
  "appendFrame w ft version payload =
    (let frame = frame_bytes (w_lastSum w) ft (w_lsn w) version (w_salt w) payload;
         cks = chain (w_lastSum w) (frame_head ft (length payload) (w_lsn w) version (w_salt w)) payload
     in case WriteAt (w_fs w) (w_file w) frame (w_tailOff w) of
          (fs, Inl err) \<Rightarrow> (w\<lparr>w_fs := fs\<rparr>, Inl err)
        | (fs, Inr _) \<Rightarrow>
            (w\<lparr>w_fs := fs, w_tailOff := w_tailOff w + length frame, w_lastSum := cks,
               w_lsn := w_lsn w + 1, w_grew := True\<rparr>, Inr ()))"

definition LogBatch :: "WAL \<Rightarrow> u64 \<Rightarrow> bytes \<Rightarrow> WAL \<times> (io_error + unit)" where
  "LogBatch w version encoded =
    (case appendFrame w FrameOpBatch version encoded of
       (w1, Inl err) \<Rightarrow> (w1, Inl err)
     | (w1, Inr _) \<Rightarrow> (w1\<lparr>w_batchN := w_batchN w1 + 1\<rparr>, Inr ()))"

text \<open>The file's \<^verbatim>\<open>Sync\<close> with its result threaded into the log.\<close>

definition file_sync :: "WAL \<Rightarrow> WAL \<times> (io_error + unit)" where
  "file_sync w = (case Sync (w_fs w) (w_file w) of (fs, r) \<Rightarrow> (w\<lparr>w_fs := fs\<rparr>, r))"

definition wal_sync :: "WAL \<Rightarrow> WAL \<times> (io_error + unit)" where
  "wal_sync w =
    (case w_syncMode w of
       SyncOff \<Rightarrow> (w, Inr ())
     | SyncNormal \<Rightarrow> (w, Inr ())
     | SyncFull \<Rightarrow> file_sync (w\<lparr>w_syncs := w_syncs w + 1\<rparr>)
     | SyncExtra \<Rightarrow> file_sync (w\<lparr>w_syncs := w_syncs w + 1, w_grew := False\<rparr>))"

definition Commit :: "WAL \<Rightarrow> u64 \<Rightarrow> WAL \<times> (io_error + u64)" where
  "Commit w version =
    (let commitLSN = w_lsn w in
     case appendFrame w FrameCommit version (be_put 4 (w_batchN w)) of
       (w1, Inl err) \<Rightarrow> (w1, Inl err)
     | (w1, Inr _) \<Rightarrow>
         (case wal_sync (w1\<lparr>w_batchN := 0\<rparr>) of
            (w2, Inl err) \<Rightarrow> (w2, Inl err)
          | (w2, Inr _) \<Rightarrow> (w2, Inr commitLSN)))"

definition Flush :: "WAL \<Rightarrow> WAL \<times> (io_error + unit)" where
  "Flush w = file_sync (w\<lparr>w_syncs := w_syncs w + 1, w_grew := False\<rparr>)"

definition nextSalt :: "u64 \<Rightarrow> u64 \<Rightarrow> u64" where
  "nextSalt prev foldedLSN =
    (let x = prev XOR (foldedLSN * 0x9E3779B97F4A7C15);
         x = x XOR drop_bit 30 x;
         x = x * 0xBF58476D1CE4E5B9;
         x = x XOR drop_bit 27 x
     in x OR 1)"

definition Checkpointed :: "WAL \<Rightarrow> u64 \<Rightarrow> WAL \<times> (io_error + unit)" where
  "Checkpointed w foldedLSN =
    (case appendFrame w FrameCheckpoint 0 (be_put 8 foldedLSN) of
       (w1, Inl err) \<Rightarrow> (w1, Inl err)
     | (w1, Inr _) \<Rightarrow>
         (case Flush w1 of
            (w2, Inl err) \<Rightarrow> (w2, Inl err)
          | (w2, Inr _) \<Rightarrow>
              let w3 = w2\<lparr>w_salt := nextSalt (w_salt w2) foldedLSN, w_tailOff := headerSize,
                          w_lsn := foldedLSN + 1\<rparr>
              in case writeHeader w3 of
                   (w4, Inl err) \<Rightarrow> (w4, Inl err)
                 | (w4, Inr _) \<Rightarrow> Flush (w4\<lparr>w_lastSum := headerChecksum w4\<rparr>)))"

definition Create :: "Mem \<Rightarrow> string \<Rightarrow> WalOptions \<Rightarrow> Mem \<times> (io_error + WAL)" where
  "Create fs path opts =
    (case Mem_Open fs path (OpenReadWrite\<lparr>of_Create := True\<rparr>) of
       (fs1, Inl err) \<Rightarrow> (fs1, Inl err)
     | (fs1, Inr f) \<Rightarrow>
         let w = \<lparr>w_fs = fs1, w_file = f, w_path = path, w_pageSize = wo_PageSize opts,
                  w_syncMode = wo_Sync opts, w_salt = wo_Salt opts, w_lsn = 1, w_lastSum = 0,
                  w_tailOff = headerSize, w_grew = False, w_batchN = 0, w_syncs = 0\<rparr>
         in case writeHeader w of
              (w1, Inl err) \<Rightarrow> (w_fs w1, Inl err)
            | (w1, Inr _) \<Rightarrow>
                (case file_sync (w1\<lparr>w_lastSum := headerChecksum w1\<rparr>) of
                   (w2, Inl err) \<Rightarrow> (w_fs w2, Inl err)
                 | (w2, Inr _) \<Rightarrow> (w_fs w2, Inr w2)))"

section \<open>The reader\<close>

record CommittedBatch =
  cb_Version :: u64
  cb_LSN :: u64
  cb_Encoded :: bytes

record RecoverResult =
  rr_Batches :: "CommittedBatch list"
  rr_LastCheckpointLSN :: u64
  rr_DurableLSN :: u64
  rr_DurableEndOff :: nat
  rr_DurableSum :: u64
  rr_Salt :: u64
  rr_TornTail :: bool

definition empty_result :: RecoverResult where
  "empty_result = \<lparr>rr_Batches = [], rr_LastCheckpointLSN = 0, rr_DurableLSN = 0,
     rr_DurableEndOff = 0, rr_DurableSum = 0, rr_Salt = 0, rr_TornTail = False\<rparr>"

datatype recovery = Panic | Done RecoverResult "io_error option"

type_synonym read_at = "bytes \<Rightarrow> nat \<Rightarrow> bytes \<times> nat \<times> io_error option"

text \<open>\<^verbatim>\<open>err != nil && err != io.EOF\<close>.\<close>

definition hard_error :: "io_error option \<Rightarrow> bool" where
  "hard_error err = (err \<noteq> None \<and> err \<noteq> Some EOF)"

text \<open>The switch on the frame type: the new pending list and summary, or a panic on a
  checkpoint payload shorter than eight bytes.\<close>

definition apply_frame ::
  "byte \<Rightarrow> u64 \<Rightarrow> u64 \<Rightarrow> bytes \<Rightarrow> CommittedBatch list \<Rightarrow> RecoverResult \<Rightarrow>
   (CommittedBatch list \<times> RecoverResult) option" where
  "apply_frame ft lsn version payload pending res =
    (if ft = FrameOpBatch then
       Some (pending @ [\<lparr>cb_Version = version, cb_LSN = lsn, cb_Encoded = payload\<rparr>], res)
     else if ft = FrameCommit then
       Some ([], res\<lparr>rr_Batches := rr_Batches res @ pending\<rparr>)
     else if ft = FrameCheckpoint then
       (if length payload < 8 then None
        else Some (pending, res\<lparr>rr_LastCheckpointLSN := be_get (take 8 payload)\<rparr>))
     else Some (pending, res))"

definition read_payload :: "read_at \<Rightarrow> nat \<Rightarrow> nat \<Rightarrow> bytes \<times> io_error option" where
  "read_payload readAt plen off =
    (if 0 < plen then (case readAt (replicate plen 0) off of (payload, _, err) \<Rightarrow> (payload, err))
     else ([], None))"

function recover_loop ::
  "read_at \<Rightarrow> nat \<Rightarrow> u64 \<Rightarrow> nat \<Rightarrow> u64 \<Rightarrow> CommittedBatch list \<Rightarrow> bytes \<Rightarrow> RecoverResult \<Rightarrow> recovery" where
  "recover_loop readAt sz salt off prevSum pending hp res =
    (if off + frameHeaderSize \<le> sz then
       let (hp, _, err) = readAt hp off in
       if hard_error err then Done res err
       else let ft = hp ! 0;
                plen = unat (be_get (get_at 1 4 hp) :: u32);
                lsn = be_get (get_at 5 8 hp);
                version = be_get (get_at 13 8 hp);
                fsalt = be_get (get_at 21 8 hp);
                cks = be_get (get_at 29 8 hp);
                stop = off + frameHeaderSize + plen
            in if sz < stop then Done (res\<lparr>rr_TornTail := True\<rparr>) None
               else let (payload, err) = read_payload readAt plen (off + frameHeaderSize)
                    in if hard_error err then Done res err
                       else if fsalt \<noteq> salt \<or> chain prevSum (take 29 hp) payload \<noteq> cks
                            then Done (res\<lparr>rr_TornTail := True\<rparr>) None
                       else case apply_frame ft lsn version payload pending res of
                              None \<Rightarrow> Panic
                            | Some (pending', res') \<Rightarrow>
                                recover_loop readAt sz salt stop cks pending' hp
                                  (res'\<lparr>rr_DurableLSN := lsn, rr_DurableEndOff := stop,
                                        rr_DurableSum := cks\<rparr>)
     else Done res None)"
  by pat_completeness auto
termination
  by (relation "measure (\<lambda>(_, sz, _, off, _). sz - off)") (auto simp: frameHeaderSize_def)

declare recover_loop.simps [simp del]

definition Recover :: "read_at \<Rightarrow> nat \<Rightarrow> recovery" where
  "Recover readAt sz =
    (if sz < headerSize then Done empty_result None
     else let (hdr, _, err) = readAt (replicate headerSize 0) 0 in
       if hard_error err then Done empty_result err
       else if (be_get (get_at 0 4 hdr) :: u32) \<noteq> walMagic then Done empty_result None
       else if (be_get (get_at 24 8 hdr) :: u64) \<noteq> sum64 (take 24 hdr) then Done empty_result None
       else let salt = be_get (get_at 12 8 hdr);
                prevSum = be_get (get_at 24 8 hdr)
            in recover_loop readAt sz salt headerSize prevSum [] (replicate frameHeaderSize 0)
                 (empty_result\<lparr>rr_Salt := salt, rr_DurableEndOff := headerSize,
                               rr_DurableSum := prevSum\<rparr>))"

definition CommittedAfter :: "RecoverResult \<Rightarrow> u64 \<Rightarrow> CommittedBatch list" where
  "CommittedAfter r lsn = filter (\<lambda>b. lsn < cb_LSN b) (rr_Batches r)"

datatype wal_open = OpenPanic | OpenErr io_error | OpenOk WAL RecoverResult

definition Open :: "Mem \<Rightarrow> string \<Rightarrow> WalOptions \<Rightarrow> Mem \<times> wal_open" where
  "Open fs path opts =
    (case Mem_Open fs path OpenReadWrite of
       (fs1, Inl err) \<Rightarrow> (fs1, OpenErr err)
     | (fs1, Inr f) \<Rightarrow>
         (case Recover (ReadAt fs1 f) (Size fs1 f) of
            Panic \<Rightarrow> (fs1, OpenPanic)
          | Done res (Some err) \<Rightarrow> (fs1, OpenErr err)
          | Done res None \<Rightarrow>
              (fs1, OpenOk \<lparr>w_fs = fs1, w_file = f, w_path = path, w_pageSize = wo_PageSize opts,
                            w_syncMode = wo_Sync opts, w_salt = rr_Salt res,
                            w_lsn = rr_DurableLSN res + 1, w_lastSum = rr_DurableSum res,
                            w_tailOff = rr_DurableEndOff res, w_grew = False, w_batchN = 0,
                            w_syncs = 0\<rparr> res)))"

end
