(* ===== verification/Wal_Log.thy ===== *)
theory Wal_Log
  imports Wal
begin

text \<open>
  The log as a list of frames.  \<open>encode_frames\<close> is the byte image the writer produces for a
  list of frames, \<open>replay\<close> is the reader's effect of a list of valid frames, and
  \<open>committed\<close> is what recovery promises: the batches a later commit frame closes.  The
  lemmas relate the reader's loop over bytes to \<open>replay\<close> and characterise where it stops.
\<close>

section \<open>Frame lists\<close>

type_synonym wframe = "byte \<times> u64 \<times> bytes"

definition frame_sum :: "u64 \<Rightarrow> u64 \<Rightarrow> u64 \<Rightarrow> wframe \<Rightarrow> u64" where
  "frame_sum salt prev lsn = (\<lambda>(ft, v, p). chain prev (frame_head ft (length p) lsn v salt) p)"

fun encode_frames :: "u64 \<Rightarrow> u64 \<Rightarrow> u64 \<Rightarrow> wframe list \<Rightarrow> bytes" where
  "encode_frames salt prev lsn [] = []"
| "encode_frames salt prev lsn ((ft, v, p) # fs) =
     frame_bytes prev ft lsn v salt p @ encode_frames salt (frame_sum salt prev lsn (ft, v, p)) (lsn + 1) fs"

fun last_sum :: "u64 \<Rightarrow> u64 \<Rightarrow> u64 \<Rightarrow> wframe list \<Rightarrow> u64" where
  "last_sum salt prev lsn [] = prev"
| "last_sum salt prev lsn (f # fs) = last_sum salt (frame_sum salt prev lsn f) (lsn + 1) fs"

fun committed :: "u64 \<Rightarrow> CommittedBatch list \<Rightarrow> wframe list \<Rightarrow> CommittedBatch list" where
  "committed lsn pend [] = []"
| "committed lsn pend ((ft, v, p) # fs) =
    (if ft = FrameOpBatch
     then committed (lsn + 1) (pend @ [\<lparr>cb_Version = v, cb_LSN = lsn, cb_Encoded = p\<rparr>]) fs
     else if ft = FrameCommit then pend @ committed (lsn + 1) [] fs
     else committed (lsn + 1) pend fs)"

text \<open>The frames the writer can produce: a length that fits its field, and a checkpoint
  payload of eight bytes.\<close>

definition frame_ok :: "wframe \<Rightarrow> bool" where
  "frame_ok = (\<lambda>(ft, v, p). length p < 2 ^ 32 \<and> (ft = FrameCheckpoint \<longrightarrow> length p = 8))"

fun replay ::
  "u64 \<Rightarrow> u64 \<Rightarrow> u64 \<Rightarrow> nat \<Rightarrow> wframe list \<Rightarrow> CommittedBatch list \<Rightarrow> RecoverResult \<Rightarrow>
   CommittedBatch list \<times> RecoverResult" where
  "replay salt prev lsn off [] pend res = (pend, res)"
| "replay salt prev lsn off ((ft, v, p) # fs) pend res =
    (let (pend', res') = the (apply_frame ft lsn v p pend res);
         s = frame_sum salt prev lsn (ft, v, p);
         stop = off + frameHeaderSize + length p
     in replay salt s (lsn + 1) stop fs pend'
          (res'\<lparr>rr_DurableLSN := lsn, rr_DurableEndOff := stop, rr_DurableSum := s\<rparr>))"

section \<open>Layout of a frame\<close>

lemma length_frame_head [simp]: "length (frame_head ft n lsn v salt) = 29"
  by (simp add: frame_head_def)

lemma length_frame_bytes [simp]: "length (frame_bytes prev ft lsn v salt p) = frameHeaderSize + length p"
  by (simp add: frame_bytes_def Let_def frameHeaderSize_def)

lemma frame_fields:
  assumes "hp = frame_head ft n lsn v salt @ be_put 8 (cks :: u64)" and "n < 2 ^ 32"
  shows "hp ! 0 = ft" "unat (be_get (get_at 1 4 hp) :: u32) = n" "be_get (get_at 5 8 hp) = lsn"
    "be_get (get_at 13 8 hp) = v" "be_get (get_at 21 8 hp) = salt" "be_get (get_at 29 8 hp) = cks"
    "take 29 hp = frame_head ft n lsn v salt"
  using assms
  by (simp_all add: frame_head_def get_at_def be_get_be_put_full unat_of_nat)

lemma frame_reads:
  assumes "live = pre @ frame_bytes prev ft lsn v salt p @ tail" and "n = length pre"
  shows "get_at n frameHeaderSize live =
           frame_head ft (length p) lsn v salt @ be_put 8 (frame_sum salt prev lsn (ft, v, p))"
    and "get_at (n + frameHeaderSize) (length p) live = p"
  using assms by (simp_all add: get_at_def frame_bytes_def Let_def frame_sum_def frameHeaderSize_def)

lemma length_encode_frames_Cons:
  "length (encode_frames salt prev lsn ((ft, v, p) # fs)) =
     frameHeaderSize + length p
     + length (encode_frames salt (frame_sum salt prev lsn (ft, v, p)) (lsn + 1) fs)"
  by simp

lemma encode_frames_append:
  "encode_frames salt prev lsn (fs @ gs) =
     encode_frames salt prev lsn fs
     @ encode_frames salt (last_sum salt prev lsn fs) (lsn + of_nat (length fs)) gs"
  by (induction fs arbitrary: prev lsn) (auto simp: algebra_simps)

lemma last_sum_append:
  "last_sum salt prev lsn (fs @ gs) =
     last_sum salt (last_sum salt prev lsn fs) (lsn + of_nat (length fs)) gs"
  by (induction fs arbitrary: prev lsn) (auto simp: algebra_simps)

section \<open>Replay\<close>

lemma apply_frame_ok:
  "frame_ok (ft, v, p) \<Longrightarrow> \<exists>pend' res'. apply_frame ft lsn v p pend res = Some (pend', res')"
  by (auto simp: apply_frame_def frame_ok_def)

lemma replay_append:
  "replay salt prev lsn off (fs @ gs) pend res =
    (case replay salt prev lsn off fs pend res of (pend', res') \<Rightarrow>
       replay salt (last_sum salt prev lsn fs) (lsn + of_nat (length fs))
         (off + length (encode_frames salt prev lsn fs)) gs pend' res')"
  by (induction salt prev lsn off fs pend res rule: replay.induct)
    (auto simp: Let_def algebra_simps split: prod.splits)

lemma replay_batches:
  assumes "list_all frame_ok fs"
  shows "rr_Batches (snd (replay salt prev lsn off fs pend res)) = rr_Batches res @ committed lsn pend fs"
  using assms
proof (induction salt prev lsn off fs pend res rule: replay.induct)
  case (2 salt prev lsn off ft v p fs pend res)
  obtain pend' res' where "apply_frame ft lsn v p pend res = Some (pend', res')"
    using apply_frame_ok 2(2) by fastforce
  with 2 show ?case
    by (auto simp: Let_def apply_frame_def frame_types split: if_splits)
qed simp

lemma replay_cursor:
  assumes "list_all frame_ok fs" and "replay salt prev lsn off fs pend res = (pend', res')"
  shows "rr_Salt res' = rr_Salt res" and "rr_TornTail res' = rr_TornTail res"
    and "rr_DurableSum res = prev \<Longrightarrow> rr_DurableSum res' = last_sum salt prev lsn fs"
    and "rr_DurableEndOff res = off \<Longrightarrow>
      rr_DurableEndOff res' = off + length (encode_frames salt prev lsn fs)"
    and "fs \<noteq> [] \<or> rr_DurableLSN res + 1 = lsn \<Longrightarrow> rr_DurableLSN res' + 1 = lsn + of_nat (length fs)"
proof -
  have "rr_Salt res' = rr_Salt res \<and> rr_TornTail res' = rr_TornTail res
    \<and> (rr_DurableSum res = prev \<longrightarrow> rr_DurableSum res' = last_sum salt prev lsn fs)
    \<and> (rr_DurableEndOff res = off \<longrightarrow>
        rr_DurableEndOff res' = off + length (encode_frames salt prev lsn fs))
    \<and> (fs \<noteq> [] \<or> rr_DurableLSN res + 1 = lsn \<longrightarrow> rr_DurableLSN res' + 1 = lsn + of_nat (length fs))"
    using assms
  proof (induction salt prev lsn off fs pend res arbitrary: pend' res' rule: replay.induct)
    case (2 salt prev lsn off ft v p fs pend res)
    obtain q r where ap: "apply_frame ft lsn v p pend res = Some (q, r)"
      using apply_frame_ok 2(2) by fastforce
    then have "rr_Salt r = rr_Salt res" "rr_TornTail r = rr_TornTail res"
      by (auto simp: apply_frame_def split: if_splits)
    with 2 ap show ?case by (simp add: Let_def algebra_simps)
  qed simp
  then show "rr_Salt res' = rr_Salt res" "rr_TornTail res' = rr_TornTail res"
    "rr_DurableSum res = prev \<Longrightarrow> rr_DurableSum res' = last_sum salt prev lsn fs"
    "rr_DurableEndOff res = off \<Longrightarrow>
      rr_DurableEndOff res' = off + length (encode_frames salt prev lsn fs)"
    "fs \<noteq> [] \<or> rr_DurableLSN res + 1 = lsn \<Longrightarrow> rr_DurableLSN res' + 1 = lsn + of_nat (length fs)"
    by blast+
qed

lemma committed_append_open:
  assumes "\<forall>f \<in> set gs. fst f \<noteq> FrameCommit"
  shows "committed lsn pend (fs @ gs) = committed lsn pend fs"
proof -
  have "committed l q gs = []" for l q
    using assms by (induction gs arbitrary: l q) auto
  then show ?thesis by (induction lsn pend fs rule: committed.induct) auto
qed

lemma committed_prefix: "\<exists>more. committed lsn pend (fs @ gs) = committed lsn pend fs @ more"
  by (induction lsn pend fs rule: committed.induct) auto

section \<open>The reader's loop over bytes\<close>

lemma recover_frame:
  assumes live: "live = pre @ frame_bytes prev ft lsn v salt p @ tail" and "off = length pre"
    and "frame_ok (ft, v, p)" and "length hp = frameHeaderSize"
    and ap: "apply_frame ft lsn v p pend res = Some (pend', res')"
  shows "recover_loop (read_bytes live) (length live) salt off prev pend hp res =
    (let s = frame_sum salt prev lsn (ft, v, p); stop = off + frameHeaderSize + length p
     in recover_loop (read_bytes live) (length live) salt stop s pend'
          (get_at off frameHeaderSize live)
          (res'\<lparr>rr_DurableLSN := lsn, rr_DurableEndOff := stop, rr_DurableSum := s\<rparr>))"
proof -
  let ?hp = "get_at off frameHeaderSize live"
  have p: "length p < 2 ^ 32" using assms(3) by (simp add: frame_ok_def)
  have bound: "off + frameHeaderSize + length p \<le> length live" using live assms(2) by simp
  have "hp \<noteq> []" using assms(4) by (auto simp: frameHeaderSize_def)
  then have rd: "read_bytes live hp off = (?hp, frameHeaderSize, None)"
    using bound assms(4) by (simp add: read_bytes_full)
  have rdp: "read_payload (read_bytes live) (length p) (off + frameHeaderSize) = (p, None)"
    using bound frame_reads(2) [OF live assms(2)] by (auto simp: read_payload_def read_bytes_full)
  note fields = frame_fields [OF frame_reads(1) [OF live assms(2)] p]
  have "chain prev (take 29 ?hp) p = frame_sum salt prev lsn (ft, v, p)"
    by (simp add: fields frame_sum_def)
  then show ?thesis
    using bound rd rdp ap
    by (subst recover_loop.simps) (simp add: fields hard_error_def Let_def del: One_nat_def)
qed

lemma recover_frames:
  assumes "live = pre @ encode_frames salt prev lsn fs @ tail" and "off = length pre"
    and "list_all frame_ok fs" and "length hp = frameHeaderSize"
    and "replay salt prev lsn off fs pend res = (pend', res')"
  shows "\<exists>hp'. length hp' = frameHeaderSize \<and>
    recover_loop (read_bytes live) (length live) salt off prev pend hp res =
    recover_loop (read_bytes live) (length live) salt (off + length (encode_frames salt prev lsn fs))
      (last_sum salt prev lsn fs) pend' hp' res'"
  using assms
proof (induction fs arbitrary: pre prev lsn off pend hp res)
  case Nil
  then show ?case by auto
next
  case (Cons f fs)
  obtain ft v p where f: "f = (ft, v, p)" by (cases f)
  let ?s = "frame_sum salt prev lsn f"
  let ?stop = "off + frameHeaderSize + length p"
  obtain q r where ap: "apply_frame ft lsn v p pend res = Some (q, r)"
    using apply_frame_ok Cons.prems(3) f by fastforce
  have live: "live = (pre @ frame_bytes prev ft lsn v salt p) @ encode_frames salt ?s (lsn + 1) fs @ tail"
    using Cons.prems(1) f by simp
  have rest: "replay salt ?s (lsn + 1) ?stop fs q
     (r\<lparr>rr_DurableLSN := lsn, rr_DurableEndOff := ?stop, rr_DurableSum := ?s\<rparr>) = (pend', res')"
    using Cons.prems(5) f ap by (simp add: Let_def)
  have len: "length (get_at off frameHeaderSize live) = frameHeaderSize"
    using live Cons.prems(2) by simp
  obtain hp' where hp': "length hp' = frameHeaderSize"
    and step: "recover_loop (read_bytes live) (length live) salt ?stop ?s q
       (get_at off frameHeaderSize live)
       (r\<lparr>rr_DurableLSN := lsn, rr_DurableEndOff := ?stop, rr_DurableSum := ?s\<rparr>) =
     recover_loop (read_bytes live) (length live) salt
       (?stop + length (encode_frames salt ?s (lsn + 1) fs)) (last_sum salt ?s (lsn + 1) fs) pend' hp' res'"
    using Cons.IH [OF live _ _ len rest] Cons.prems(2,3) by (auto simp: ac_simps)
  have "recover_loop (read_bytes live) (length live) salt off prev pend hp res =
     recover_loop (read_bytes live) (length live) salt ?stop ?s q (get_at off frameHeaderSize live)
       (r\<lparr>rr_DurableLSN := lsn, rr_DurableEndOff := ?stop, rr_DurableSum := ?s\<rparr>)"
    using recover_frame [of live pre prev ft lsn v salt p _ off hp pend res q r] Cons.prems f ap
    by (simp add: Let_def)
  with hp' step show ?case using f by (auto simp: ac_simps)
qed

lemma recover_end: "sz < off + frameHeaderSize \<Longrightarrow> recover_loop ra sz salt off prev pend hp res = Done res None"
  by (subst recover_loop.simps) simp

end
