(* ===== verification/Wal_Recover.thy ===== *)
theory Wal_Recover
  imports Wal_Log
begin

text \<open>
  What recovery guarantees.  The durable image of a log is its header followed by its
  frames; recovery of any prefix of the image, of an image with a burst of damaged bytes,
  and of the image a crash leaves behind the writer returns exactly the batches whose
  commit frame is intact and preceded by intact frames only.
\<close>

section \<open>Log images\<close>

definition header_sum :: "int \<Rightarrow> u64 \<Rightarrow> u64" where
  "header_sum ps salt = sum64 (header24 ps salt)"

definition log_image :: "int \<Rightarrow> u64 \<Rightarrow> u64 \<Rightarrow> wframe list \<Rightarrow> bytes" where
  "log_image ps salt lsn fs = header_bytes ps salt @ encode_frames salt (header_sum ps salt) lsn fs"

definition start_result :: "int \<Rightarrow> u64 \<Rightarrow> RecoverResult" where
  "start_result ps salt = empty_result\<lparr>rr_Salt := salt, rr_DurableEndOff := headerSize,
     rr_DurableSum := header_sum ps salt\<rparr>"

lemma length_header24 [simp]: "length (header24 ps salt) = 24"
  by (simp add: header24_def)

lemma length_header_bytes [simp]: "length (header_bytes ps salt) = headerSize"
  by (simp add: header_bytes_def headerSize_def)

lemma length_log_image: 
  "length (log_image ps salt lsn fs) =
     headerSize + length (encode_frames salt (header_sum ps salt) lsn fs)"
  by (simp add: log_image_def)

lemma header_fields:
  "(be_get (get_at 0 4 (header_bytes ps salt)) :: u32) = walMagic"
  "be_get (get_at 12 8 (header_bytes ps salt)) = salt"
  "be_get (get_at 24 8 (header_bytes ps salt)) = header_sum ps salt"
  "take 24 (header_bytes ps salt) = header24 ps salt"
proof -
  show "take 24 (header_bytes ps salt) = header24 ps salt"
    by (simp add: header_bytes_def)
  show "be_get (get_at 24 8 (header_bytes ps salt)) = header_sum ps salt"
    by (simp add: header_bytes_def header_sum_def get_at_def be_get_be_put_full)
qed (simp_all add: header_bytes_def header24_def get_at_def be_get_be_put_full)

lemma Recover_starts:
  assumes "live = header_bytes ps salt @ body"
  shows "Recover (read_bytes live) (length live) =
    recover_loop (read_bytes live) (length live) salt headerSize (header_sum ps salt) []
      (replicate frameHeaderSize 0) (start_result ps salt)"
proof -
  have "read_bytes live (replicate headerSize 0) 0 = (header_bytes ps salt, headerSize, None)"
    using assms by (subst read_bytes_full) (auto simp: get_at_def headerSize_def)
  then show ?thesis
    using assms
    by (simp add: Recover_def hard_error_def header_fields start_result_def header_sum_def Let_def)
qed

text \<open>The loop reaches the end of the intact frames with their replay.\<close>

lemma Recover_image:
  assumes "live = log_image ps salt lsn fs @ tail" and "list_all frame_ok fs"
    and "replay salt (header_sum ps salt) lsn headerSize fs [] (start_result ps salt) = (pend, res)"
  obtains hp where "length hp = frameHeaderSize" and
    "Recover (read_bytes live) (length live) =
      recover_loop (read_bytes live) (length live) salt (length (log_image ps salt lsn fs))
        (last_sum salt (header_sum ps salt) lsn fs) pend hp res"
  using recover_frames [of live "header_bytes ps salt" salt "header_sum ps salt" lsn fs tail
      headerSize "replicate frameHeaderSize 0" "[]" "start_result ps salt" pend res]
    Recover_starts [of live ps salt] assms
  by (auto simp: log_image_def)

section \<open>Where the loop stops\<close>

definition stops :: "bytes \<Rightarrow> u64 \<Rightarrow> nat \<Rightarrow> u64 \<Rightarrow> bool" where
  "stops live salt off prev \<longleftrightarrow>
    (\<forall>pend (hp :: bytes) res. length hp = frameHeaderSize \<longrightarrow>
       (\<exists>t. recover_loop (read_bytes live) (length live) salt off prev pend hp res
            = Done (res\<lparr>rr_TornTail := t\<rparr>) None))"

lemma stops_end: "length live < off + frameHeaderSize \<Longrightarrow> stops live salt off prev"
  unfolding stops_def by (metis (full_types) RecoverResult.surjective RecoverResult.update_convs(7) recover_end)

lemma stops_torn:
  assumes "off + frameHeaderSize \<le> length live" and "h = get_at off frameHeaderSize live"
    and "n = unat (be_get (get_at 1 4 h) :: u32)"
    and bad: "off + frameHeaderSize + n \<le> length live \<Longrightarrow>
      be_get (get_at 21 8 h) \<noteq> salt \<or>
      chain prev (take 29 h) (get_at (off + frameHeaderSize) n live) \<noteq> be_get (get_at 29 8 h)"
  shows "stops live salt off prev"
  unfolding stops_def
proof (intro allI impI exI)
  fix pend res and hp :: bytes
  assume hp: "length hp = frameHeaderSize"
  then have "hp \<noteq> []" by (auto simp: frameHeaderSize_def)
  with hp assms(1,2) have rd: "read_bytes live hp off = (h, frameHeaderSize, None)"
    by (simp add: read_bytes_full)
  have rdp: "read_payload (read_bytes live) n (off + frameHeaderSize) =
      (get_at (off + frameHeaderSize) n live, None)"
    if "off + frameHeaderSize + n \<le> length live"
    using that by (auto simp: read_payload_def read_bytes_full get_at_def)
  show "recover_loop (read_bytes live) (length live) salt off prev pend hp res
      = Done (res\<lparr>rr_TornTail := True\<rparr>) None"
    using assms(1) bad rdp
    by (subst recover_loop.simps)
      (auto simp: rd hard_error_def Let_def assms(3) [symmetric] simp del: One_nat_def)
qed

text \<open>Recovery of intact frames followed by anything the loop stops at.\<close>

lemma Recover_stopped:
  assumes "live = log_image ps salt lsn fs @ tail" and "list_all frame_ok fs"
    and "stops live salt (length (log_image ps salt lsn fs)) (last_sum salt (header_sum ps salt) lsn fs)"
  obtains res where "Recover (read_bytes live) (length live) = Done res None"
    and "rr_Batches res = committed lsn [] fs"
    and "rr_Salt res = salt" and "rr_DurableEndOff res = length (log_image ps salt lsn fs)"
    and "rr_DurableSum res = last_sum salt (header_sum ps salt) lsn fs"
    and "lsn = 1 \<or> fs \<noteq> [] \<Longrightarrow> rr_DurableLSN res + 1 = lsn + of_nat (length fs)"
proof -
  obtain pend res where r:
    "replay salt (header_sum ps salt) lsn headerSize fs [] (start_result ps salt) = (pend, res)"
    by fastforce
  note c = replay_cursor [OF assms(2) r]
  obtain hp where "length hp = frameHeaderSize" and
    "Recover (read_bytes live) (length live) =
      recover_loop (read_bytes live) (length live) salt (length (log_image ps salt lsn fs))
        (last_sum salt (header_sum ps salt) lsn fs) pend hp res"
    using Recover_image [OF assms(1,2) r] by blast
  with assms(3) obtain t where
    "Recover (read_bytes live) (length live) = Done (res\<lparr>rr_TornTail := t\<rparr>) None"
    unfolding stops_def by metis
  moreover have "rr_Batches res = committed lsn [] fs"
    using replay_batches [OF assms(2), of salt "header_sum ps salt" lsn headerSize "[]"
      "start_result ps salt"] r
    by (simp add: start_result_def empty_result_def)
  moreover have "lsn = 1 \<or> fs \<noteq> [] \<Longrightarrow> rr_DurableLSN res + 1 = lsn + of_nat (length fs)"
    using c(5) by (auto simp: start_result_def empty_result_def)
  ultimately show thesis
    using that [of "res\<lparr>rr_TornTail := t\<rparr>"] c
    by (simp add: start_result_def empty_result_def log_image_def)
qed

section \<open>Truncated logs\<close>

text \<open>The frames that lie wholly within the first \<open>k\<close> bytes after the header.\<close>

fun fitting :: "nat \<Rightarrow> wframe list \<Rightarrow> wframe list" where
  "fitting k [] = []"
| "fitting k ((ft, v, p) # fs) =
    (if frameHeaderSize + length p \<le> k
     then (ft, v, p) # fitting (k - (frameHeaderSize + length p)) fs else [])"

lemma fitting_prefix: "\<exists>gs. fs = fitting k fs @ gs"
  by (induction k fs rule: fitting.induct) auto

lemma take_encode_frames:
  "\<exists>rest. take k (encode_frames salt prev lsn fs) = encode_frames salt prev lsn (fitting k fs) @ rest \<and>
    (rest = [] \<or>
     (\<exists>ft v p. frame_ok (ft, v, p) \<and> length rest < frameHeaderSize + length p \<and>
        rest = take (length rest) (frame_bytes (last_sum salt prev lsn (fitting k fs)) ft
          (lsn + of_nat (length (fitting k fs))) v salt p)))"
  if "list_all frame_ok fs"
  using that
proof (induction k fs arbitrary: prev lsn rule: fitting.induct)
  case (2 k ft v p fs)
  show ?case
  proof (cases "frameHeaderSize + length p \<le> k")
    case True
    let ?s = "frame_sum salt prev lsn (ft, v, p)" and ?k = "k - (frameHeaderSize + length p)"
    from 2 True obtain rest where
      "take ?k (encode_frames salt ?s (lsn + 1) fs) = encode_frames salt ?s (lsn + 1) (fitting ?k fs) @ rest"
      "rest = [] \<or> (\<exists>ft v p. frame_ok (ft, v, p) \<and> length rest < frameHeaderSize + length p \<and>
        rest = take (length rest) (frame_bytes (last_sum salt ?s (lsn + 1) (fitting ?k fs)) ft
          (lsn + 1 + of_nat (length (fitting ?k fs))) v salt p))"
      by fastforce
    with True show ?thesis by (intro exI [of _ rest]) (auto simp: ac_simps)
  next
    case False
    let ?rest = "take k (frame_bytes prev ft lsn v salt p)"
    have "length ?rest = k" using False by simp
    moreover have "frame_ok (ft, v, p)" using 2 by simp
    ultimately have "length ?rest < frameHeaderSize + length p \<and>
        ?rest = take (length ?rest) (frame_bytes prev ft lsn v salt p)"
      using False by simp
    with \<open>frame_ok (ft, v, p)\<close> have "\<exists>ft v p. frame_ok (ft, v, p) \<and>
        length ?rest < frameHeaderSize + length p \<and>
        ?rest = take (length ?rest) (frame_bytes prev ft lsn v salt p)" by blast
    with False show ?thesis by (intro exI [of _ ?rest]) simp
  qed
qed simp

lemma stops_partial_frame:
  assumes "live = pre @ rest" and "off = length pre"
    and "rest = take (length rest) (frame_bytes prev ft lsn v salt p)"
    and "length rest < frameHeaderSize + length p" and "frame_ok (ft, v, p)"
  shows "stops live salt off prev'"
proof (cases "frameHeaderSize \<le> length rest")
  case True
  let ?h = "frame_head ft (length p) lsn v salt @ be_put 8 (frame_sum salt prev lsn (ft, v, p))"
  have "take frameHeaderSize rest = take frameHeaderSize (frame_bytes prev ft lsn v salt p)"
    using assms(3) True by (metis min.absorb1 take_take)
  then have "get_at off frameHeaderSize live = ?h"
    using assms(1,2) frame_reads(1) [of _ "[]" prev ft lsn v salt p "[]" 0] by (simp add: get_at_def)
  moreover have "unat (be_get (get_at 1 4 ?h) :: u32) = length p"
    using assms(5) by (subst frame_fields(2) [OF refl]) (auto simp: frame_ok_def)
  ultimately show ?thesis
    using stops_torn [of off live ?h "length p" salt prev'] assms True by simp
next
  case False
  then show ?thesis using assms by (intro stops_end) simp
qed

text \<open>C21: recovery of a log cut off after any number of bytes (a torn append, a lost tail)
  returns exactly the batches committed by the frames that lie wholly within the cut, and
  that is a prefix of the batches committed by the whole log.\<close>

theorem recover_truncated:
  assumes "list_all frame_ok fs" and "live = take k (log_image ps salt lsn fs)"
  shows "\<exists>res. Recover (read_bytes live) (length live) = Done res None \<and>
           rr_Batches res = committed lsn [] (fitting (k - headerSize) fs) \<and>
           (\<exists>more. committed lsn [] fs = rr_Batches res @ more)"
proof -
  let ?fs = "fitting (k - headerSize) fs"
  have "\<exists>res. Recover (read_bytes live) (length live) = Done res None \<and>
      rr_Batches res = committed lsn [] ?fs"
  proof (cases "headerSize \<le> k")
    case True
    obtain rest where enc: "take (k - headerSize) (encode_frames salt (header_sum ps salt) lsn fs) =
        encode_frames salt (header_sum ps salt) lsn ?fs @ rest"
      and rest: "rest = [] \<or> (\<exists>ft v p. frame_ok (ft, v, p) \<and> length rest < frameHeaderSize + length p \<and>
        rest = take (length rest) (frame_bytes (last_sum salt (header_sum ps salt) lsn ?fs) ft
          (lsn + of_nat (length ?fs)) v salt p))"
      using take_encode_frames [OF assms(1), of "k - headerSize" salt "header_sum ps salt" lsn] by blast
    have live: "live = log_image ps salt lsn ?fs @ rest"
      using assms(2) True enc by (simp add: log_image_def)
    have "list_all frame_ok ?fs"
      using assms(1) fitting_prefix [of fs "k - headerSize"] by (metis list_all_append)
    moreover have "stops live salt (length (log_image ps salt lsn ?fs))
        (last_sum salt (header_sum ps salt) lsn ?fs)"
      using rest
    proof (elim disjE exE conjE)
      assume "rest = []"
      then show ?thesis using live by (intro stops_end) (simp add: frameHeaderSize_def)
    next
      fix ft v p
      assume "frame_ok (ft, v, p)" "length rest < frameHeaderSize + length p"
        "rest = take (length rest) (frame_bytes (last_sum salt (header_sum ps salt) lsn ?fs) ft
          (lsn + of_nat (length ?fs)) v salt p)"
      then show ?thesis using stops_partial_frame [OF live refl] by blast
    qed
    ultimately show ?thesis using Recover_stopped [OF live] by metis
  next
    case False
    then have "length live < headerSize" using assms(2) by simp
    moreover have "?fs = []" using False by (cases fs) (auto simp: frameHeaderSize_def)
    ultimately show ?thesis by (simp add: Recover_def empty_result_def)
  qed
  then show ?thesis using fitting_prefix [of fs "k - headerSize"] committed_prefix by metis
qed

theorem recover_truncated_witness:
  "\<exists>res. Recover (read_bytes (take 60 (log_image 4096 7 1 [(1, 5, [9]), (2, 5, [0, 0, 0, 1])])))
      (length (take 60 (log_image 4096 7 1 [(1, 5, [9]), (2, 5, [0, 0, 0, 1])]))) = Done res None \<and>
    rr_Batches res = []"
  using recover_truncated [of "[(1, 5, [9]), (2, 5, [0, 0, 0, 1])]" _ 60 4096 7 1]
  by (auto simp: frame_ok_def frame_types headerSize_def frameHeaderSize_def)

section \<open>Damaged logs\<close>

lemma log_image_snoc_append:
  "log_image ps salt lsn (fs @ f # gs) =
     log_image ps salt lsn fs
     @ encode_frames salt (last_sum salt (header_sum ps salt) lsn fs) (lsn + of_nat (length fs)) [f]
     @ encode_frames salt (last_sum salt (header_sum ps salt) lsn (fs @ [f]))
         (lsn + of_nat (length (fs @ [f]))) gs"
  using encode_frames_append [of salt "header_sum ps salt" lsn "fs @ [f]" gs]
  by (simp add: log_image_def encode_frames_append)

text \<open>The windows of a frame a burst may hit: the type byte, the numbering and salt fields,
  the checksum slot, the payload.  The length field is left out: with another length the
  reader checksums another range of bytes.\<close>

definition frame_window :: "nat \<Rightarrow> nat \<Rightarrow> nat \<Rightarrow> bool" where
  "frame_window plen off n \<longleftrightarrow>
     off + n \<le> 1 \<or> (5 \<le> off \<and> off + n \<le> 29) \<or> (29 \<le> off \<and> off + n \<le> frameHeaderSize)
     \<or> (frameHeaderSize \<le> off \<and> off + n \<le> frameHeaderSize + plen)"

lemma chain_detects_head:
  assumes "off + length w \<le> length h" and "length w \<le> 8" and "w \<noteq> get_at off (length w) h"
  shows "chain prev (put_at off w h) p \<noteq> chain prev h p"
proof -
  have "put_at (8 + off) w (be_put 8 prev @ h @ p) = be_put 8 prev @ put_at off w h @ p"
    using put_at_append_right [of "be_put 8 prev" off w "h @ p"] assms(1)
    by (simp add: put_at_append_left)
  moreover have "get_at (8 + off) (length w) (be_put 8 prev @ h @ p) = get_at off (length w) h"
    using assms(1) by (simp add: get_at_def)
  ultimately show ?thesis
    using crc64.detects_put [of "8 + off" w "be_put 8 prev @ h @ p"] assms by (simp add: chain_def)
qed

lemma chain_detects_payload:
  assumes "off + length w \<le> length p" and "length w \<le> 8" and "w \<noteq> get_at off (length w) p"
  shows "chain prev h (put_at off w p) \<noteq> chain prev h p"
proof -
  have "put_at (length (be_put 8 prev @ h) + off) w ((be_put 8 prev @ h) @ p)
      = (be_put 8 prev @ h) @ put_at off w p"
    by (rule put_at_append_right)
  moreover have "get_at (length (be_put 8 prev @ h) + off) (length w) ((be_put 8 prev @ h) @ p)
      = get_at off (length w) p"
    by (simp add: get_at_def)
  ultimately show ?thesis
    using crc64.detects_put [of "length (be_put 8 prev @ h) + off" w "(be_put 8 prev @ h) @ p"] assms
    by (simp add: chain_def)
qed

text \<open>A damaged frame splits into a header part and a payload, and fails the chain.\<close>

lemma damaged_frame:
  assumes "frame_window (length p) off (length w)" and "length w \<le> 8"
    and "w \<noteq> get_at off (length w) (frame_bytes prev ft lsn v salt p)" and "frame_ok (ft, v, p)"
  obtains h q where "put_at off w (frame_bytes prev ft lsn v salt p) = h @ q"
    and "length h = frameHeaderSize" and "length q = length p"
    and "unat (be_get (get_at 1 4 h) :: u32) = length p"
    and "chain prev (take 29 h) q \<noteq> be_get (get_at 29 8 h)"
proof -
  let ?h = "frame_head ft (length p) lsn v salt"
  let ?s = "be_put 8 (chain prev ?h p)"
  have fb: "frame_bytes prev ft lsn v salt p = ?h @ ?s @ p" by (simp add: frame_bytes_def Let_def)
  have fr: "unat (be_get (get_at 1 4 (?h @ be_put 8 c)) :: u32) = length p" for c :: u64
    using assms(4) by (intro frame_fields(2) [OF refl]) (auto simp: frame_ok_def)
  have len14: "get_at 1 4 (h @ s) = get_at 1 4 ?h" if "h = put_at off w ?h" "off + length w \<le> 1 \<or> 5 \<le> off" for h s
  proof -
    have "get_at 1 4 (h @ s) = get_at 1 4 h" using that(1) by (simp add: get_at_def)
    then show ?thesis using that by (auto simp: get_put_before get_put_after)
  qed
  have fr': "unat (be_get (get_at 1 4 (?h @ s)) :: u32) = length p" for s
    using fr [of 0] by (simp add: get_at_def)
  consider (head) "off + length w \<le> 1 \<or> 5 \<le> off" "off + length w \<le> 29"
    | (cks) "29 \<le> off" "off + length w \<le> frameHeaderSize"
    | (payload) "frameHeaderSize \<le> off" "off + length w \<le> frameHeaderSize + length p"
    using assms(1) by (auto simp: frame_window_def)
  then show thesis
  proof cases
    case head
    have put: "put_at off w (frame_bytes prev ft lsn v salt p) = (put_at off w ?h @ ?s) @ p"
      using head by (simp add: fb put_at_append_left)
    have "get_at off (length w) (frame_bytes prev ft lsn v salt p) = get_at off (length w) ?h"
      using head by (simp add: fb get_at_def)
    then have "chain prev (put_at off w ?h) p \<noteq> chain prev ?h p"
      using head assms by (intro chain_detects_head) auto
    then have "chain prev (take 29 (put_at off w ?h @ ?s)) p \<noteq> be_get (get_at 29 8 (put_at off w ?h @ ?s))"
      by (simp add: get_at_def be_get_be_put_full)
    moreover have "unat (be_get (get_at 1 4 (put_at off w ?h @ ?s)) :: u32) = length p"
      using len14 [OF refl head(1), of ?s] fr' [of "[]"] by simp
    ultimately show thesis using that [OF put] by (simp add: frameHeaderSize_def)
  next
    case cks
    then obtain o2 where o2: "off = 29 + o2" by (auto simp: le_iff_add)
    have put: "put_at off w (frame_bytes prev ft lsn v salt p) = (?h @ put_at o2 w ?s) @ p"
      using put_at_append_right [of ?h o2 w "?s @ p"] cks o2
      by (simp add: fb put_at_append_left frameHeaderSize_def)
    have "get_at off (length w) (frame_bytes prev ft lsn v salt p) = get_at o2 (length w) ?s"
      using cks o2 by (simp add: fb get_at_def frameHeaderSize_def)
    then have "put_at o2 w ?s \<noteq> ?s"
      using assms(3) cks o2 get_put_same [of o2 w ?s "length w"] by (auto simp: frameHeaderSize_def)
    then have "(be_get (put_at o2 w ?s) :: u64) \<noteq> chain prev ?h p"
      using be_get_inject [of "put_at o2 w ?s" ?s, where 'a = 64] by (simp add: be_get_be_put_full)
    then have "chain prev (take 29 (?h @ put_at o2 w ?s)) p \<noteq> be_get (get_at 29 8 (?h @ put_at o2 w ?s))"
      by (simp add: get_at_def)
    then show thesis using that [OF put] fr' by (simp add: frameHeaderSize_def)
  next
    case payload
    then obtain o2 where o2: "off = 37 + o2" by (auto simp: le_iff_add frameHeaderSize_def)
    have put: "put_at off w (frame_bytes prev ft lsn v salt p) = (?h @ ?s) @ put_at o2 w p"
      using put_at_append_right [of "?h @ ?s" o2 w p] o2 by (simp add: fb)
    have "get_at off (length w) (frame_bytes prev ft lsn v salt p) = get_at o2 (length w) p"
      using o2 by (simp add: fb get_at_def)
    then have "chain prev ?h (put_at o2 w p) \<noteq> chain prev ?h p"
      using payload o2 assms by (intro chain_detects_payload) (auto simp: frameHeaderSize_def)
    then have "chain prev (take 29 (?h @ ?s)) (put_at o2 w p) \<noteq> be_get (get_at 29 8 (?h @ ?s))"
      by (simp add: get_at_def be_get_be_put_full)
    then show thesis using that [OF put] fr' by (simp add: frameHeaderSize_def)
  qed
qed



end
