(* ===== verification/Wal_Writer.thy ===== *)
theory Wal_Writer
  imports Wal_Recover
begin

text \<open>
  The writer against its specification.  The abstract log holds the committed batches and
  the open ones; logging adds to the open batches, a commit closes them.  At the
  \<^verbatim>\<open>SyncFull\<close> and \<^verbatim>\<open>SyncExtra\<close> levels the byte-level log simulates it: what recovery returns
  after a crash at any moment is the abstract log's committed batches.
\<close>

section \<open>Specification\<close>

record log_spec =
  ls_next :: u64
  ls_open :: "CommittedBatch list"
  ls_committed :: "CommittedBatch list"

datatype wal_op = OpLog u64 bytes | OpCommit u64 | OpFlush

fun spec_op :: "wal_op \<Rightarrow> log_spec \<Rightarrow> log_spec" where
  "spec_op (OpLog v p) s =
     s\<lparr>ls_next := ls_next s + 1,
       ls_open := ls_open s @ [\<lparr>cb_Version = v, cb_LSN = ls_next s, cb_Encoded = p\<rparr>]\<rparr>"
| "spec_op (OpCommit v) s =
     s\<lparr>ls_next := ls_next s + 1, ls_open := [], ls_committed := ls_committed s @ ls_open s\<rparr>"
| "spec_op OpFlush s = s"

definition spec_init :: log_spec where
  "spec_init = \<lparr>ls_next = 1, ls_open = [], ls_committed = []\<rparr>"

fun do_op :: "wal_op \<Rightarrow> WAL \<Rightarrow> WAL" where
  "do_op (OpLog v p) w = fst (LogBatch w v p)"
| "do_op (OpCommit v) w = fst (Commit w v)"
| "do_op OpFlush w = fst (Flush w)"

fun op_ok :: "wal_op \<Rightarrow> bool" where
  "op_ok (OpLog v p) \<longleftrightarrow> length p < 2 ^ 32"
| "op_ok _ \<longleftrightarrow> True"

text \<open>What a recovery after a crash returns, None for a panic or an error.\<close>

definition recover_file :: "Mem \<Rightarrow> memFile \<Rightarrow> CommittedBatch list option" where
  "recover_file m f =
    (case Recover (ReadAt m f) (Size m f) of
       Done res None \<Rightarrow> Some (rr_Batches res) | _ \<Rightarrow> None)"

definition crash_recover :: "WAL \<Rightarrow> CommittedBatch list option" where
  "crash_recover w = recover_file (Crash (w_fs w)) (w_file w)"

section \<open>Representation\<close>

fun uncommitted :: "u64 \<Rightarrow> CommittedBatch list \<Rightarrow> wframe list \<Rightarrow> CommittedBatch list" where
  "uncommitted lsn pend [] = pend"
| "uncommitted lsn pend ((ft, v, p) # fs) =
    (if ft = FrameOpBatch
     then uncommitted (lsn + 1) (pend @ [\<lparr>cb_Version = v, cb_LSN = lsn, cb_Encoded = p\<rparr>]) fs
     else if ft = FrameCommit then uncommitted (lsn + 1) [] fs
     else uncommitted (lsn + 1) pend fs)"

lemma committed_append:
  "committed lsn pend (fs @ gs) =
     committed lsn pend fs @ committed (lsn + of_nat (length fs)) (uncommitted lsn pend fs) gs"
  by (induction lsn pend fs rule: committed.induct) (auto simp: algebra_simps)

lemma uncommitted_append:
  "uncommitted lsn pend (fs @ gs) = uncommitted (lsn + of_nat (length fs)) (uncommitted lsn pend fs) gs"
  by (induction lsn pend fs rule: committed.induct) (auto simp: algebra_simps)

text \<open>The file holds exactly the frames \<open>fs\<close> and the writer stands at their end.\<close>

definition wal_at :: "int \<Rightarrow> u64 \<Rightarrow> wframe list \<Rightarrow> WAL \<Rightarrow> bool" where
  "wal_at ps lsn fs w \<longleftrightarrow>
     list_all frame_ok fs \<and> mem_ok (w_file w) (w_fs w) \<and>
     live_of (w_fs w) (w_file w) = log_image ps (w_salt w) lsn fs \<and>
     w_tailOff w = length (log_image ps (w_salt w) lsn fs) \<and>
     w_lastSum w = last_sum (w_salt w) (header_sum ps (w_salt w)) lsn fs \<and>
     w_lsn w = lsn + of_nat (length fs)"

text \<open>Of those, all but a suffix without commit frames are durable.\<close>

definition wal_durable :: "int \<Rightarrow> u64 \<Rightarrow> wframe list \<Rightarrow> WAL \<Rightarrow> bool" where
  "wal_durable ps lsn fs w \<longleftrightarrow>
     (\<exists>fd gs. fs = fd @ gs \<and> (\<forall>f \<in> set gs. fst f \<noteq> FrameCommit) \<and>
        durable_of (w_fs w) (w_file w) = log_image ps (w_salt w) lsn fd)"

definition wal_rel :: "log_spec \<Rightarrow> WAL \<Rightarrow> bool" where
  "wal_rel s w \<longleftrightarrow>
     (\<exists>ps fs. wal_at ps 1 fs w \<and> wal_durable ps 1 fs w \<and>
        w_syncMode w \<in> {SyncFull, SyncExtra} \<and> ls_next s = w_lsn w \<and>
        ls_open s = uncommitted 1 [] fs \<and> ls_committed s = committed 1 [] fs)"

lemma log_image_snoc:
  "log_image ps salt lsn (fs @ [(ft, v, p)]) = log_image ps salt lsn fs @
     frame_bytes (last_sum salt (header_sum ps salt) lsn fs) ft (lsn + of_nat (length fs)) v salt p"
  by (simp add: log_image_def encode_frames_append)

lemma appendFrame_at:
  assumes at: "wal_at ps lsn fs w" and "frame_ok (ft, v, p)"
  obtains w' where "appendFrame w ft v p = (w', Inr ())" and "wal_at ps lsn (fs @ [(ft, v, p)]) w'"
    and "durable_of (w_fs w') (w_file w') = durable_of (w_fs w) (w_file w)"
    and "w_salt w' = w_salt w" and "w_syncMode w' = w_syncMode w" and "w_lsn w' = w_lsn w + 1"
proof -
  let ?frame = "frame_bytes (w_lastSum w) ft (w_lsn w) v (w_salt w) p"
  let ?fs = "fst (WriteAt (w_fs w) (w_file w) ?frame (w_tailOff w))"
  let ?w = "w\<lparr>w_fs := ?fs, w_tailOff := w_tailOff w + length ?frame,
     w_lastSum := frame_sum (w_salt w) (w_lastSum w) (w_lsn w) (ft, v, p),
     w_lsn := w_lsn w + 1, w_grew := True\<rparr>"
  have "appendFrame w ft v p = (?w, Inr ())"
    by (simp add: appendFrame_def Let_def WriteAt_def frame_sum_def)
  moreover have "wal_at ps lsn (fs @ [(ft, v, p)]) ?w"
    using at assms(2)
    by (auto simp: wal_at_def mf.wr_content mf.wr_ok log_image_snoc last_sum_append write_bytes_append)
  moreover have "durable_of (w_fs ?w) (w_file ?w) = durable_of (w_fs w) (w_file w)"
    by (simp add: mf.wr_durable)
  ultimately show thesis using that [of ?w] by simp
qed

lemma file_sync_at:
  assumes "wal_at ps lsn fs w"
  obtains w' where "file_sync w = (w', Inr ())" and "wal_at ps lsn fs w'"
    and "durable_of (w_fs w') (w_file w') = log_image ps (w_salt w') lsn fs"
    and "w_salt w' = w_salt w" and "w_syncMode w' = w_syncMode w" and "w_lsn w' = w_lsn w"
proof -
  let ?w = "w\<lparr>w_fs := fst (Sync (w_fs w) (w_file w))\<rparr>"
  have ok: "mem_ok (w_file w) (w_fs w)" using assms by (simp add: wal_at_def)
  then have "file_sync w = (?w, Inr ())" by (simp add: file_sync_def mem_ok_def Sync_ok)
  moreover have "wal_at ps lsn fs ?w"
    using assms ok by (simp add: wal_at_def mf.sync_content mf.sync_ok)
  moreover have "durable_of (w_fs ?w) (w_file ?w) = log_image ps (w_salt ?w) lsn fs"
    using assms ok by (simp add: wal_at_def mf.sync_durable)
  ultimately show thesis using that [of ?w] by simp
qed

lemma wal_at_counters [simp]:
  "wal_at ps lsn fs (w\<lparr>w_batchN := n\<rparr>) = wal_at ps lsn fs w"
  "wal_at ps lsn fs (w\<lparr>w_syncs := k\<rparr>) = wal_at ps lsn fs w"
  "wal_at ps lsn fs (w\<lparr>w_grew := b\<rparr>) = wal_at ps lsn fs w"
  by (simp_all add: wal_at_def)

lemma wal_sync_at:
  assumes "wal_at ps lsn fs w" and "w_syncMode w \<in> {SyncFull, SyncExtra}"
  obtains w' where "wal_sync w = (w', Inr ())" and "wal_at ps lsn fs w'"
    and "durable_of (w_fs w') (w_file w') = log_image ps (w_salt w') lsn fs"
    and "w_salt w' = w_salt w" and "w_syncMode w' = w_syncMode w" and "w_lsn w' = w_lsn w"
proof (cases "w_syncMode w")
  case SyncFull
  then show thesis
    using file_sync_at [of ps lsn fs "w\<lparr>w_syncs := w_syncs w + 1\<rparr>"] assms(1) that
    by (auto simp: wal_sync_def)
next
  case SyncExtra
  then show thesis
    using file_sync_at [of ps lsn fs "w\<lparr>w_syncs := w_syncs w + 1, w_grew := False\<rparr>"] assms(1) that
    by (auto simp: wal_sync_def)
qed (use assms(2) in auto)

lemma Flush_at:
  assumes "wal_at ps lsn fs w"
  obtains w' where "Flush w = (w', Inr ())" and "wal_at ps lsn fs w'"
    and "durable_of (w_fs w') (w_file w') = log_image ps (w_salt w') lsn fs"
    and "w_salt w' = w_salt w" and "w_syncMode w' = w_syncMode w" and "w_lsn w' = w_lsn w"
  using file_sync_at [of ps lsn fs "w\<lparr>w_syncs := w_syncs w + 1, w_grew := False\<rparr>"] assms that
  by (auto simp: Flush_def)

lemma wal_durable_all:
  "durable_of (w_fs w) (w_file w) = log_image ps (w_salt w) lsn fs \<Longrightarrow> wal_durable ps lsn fs w"
  unfolding wal_durable_def by (intro exI [of _ fs] exI [of _ "[]"]) simp

lemma LogBatch_rel:
  assumes "wal_rel s w" and "length p < 2 ^ 32"
  obtains w' where "LogBatch w v p = (w', Inr ())" and "wal_rel (spec_op (OpLog v p) s) w'"
proof -
  obtain ps fs where at: "wal_at ps 1 fs w" and du: "wal_durable ps 1 fs w"
    and m: "w_syncMode w \<in> {SyncFull, SyncExtra}"
    and s: "ls_next s = w_lsn w" "ls_open s = uncommitted 1 [] fs" "ls_committed s = committed 1 [] fs"
    using assms(1) by (auto simp: wal_rel_def)
  have ok: "frame_ok (FrameOpBatch, v, p)" using assms(2) by (simp add: frame_ok_def frame_types)
  obtain w' where w': "appendFrame w FrameOpBatch v p = (w', Inr ())"
    "wal_at ps 1 (fs @ [(FrameOpBatch, v, p)]) w'"
    "durable_of (w_fs w') (w_file w') = durable_of (w_fs w) (w_file w)"
    "w_salt w' = w_salt w" "w_syncMode w' = w_syncMode w" "w_lsn w' = w_lsn w + 1"
    using appendFrame_at [OF at ok] by metis
  obtain fd gs where "fs = fd @ gs" "\<forall>f \<in> set gs. fst f \<noteq> FrameCommit"
    "durable_of (w_fs w) (w_file w) = log_image ps (w_salt w) 1 fd"
    using du unfolding wal_durable_def by blast
  then have "wal_durable ps 1 (fs @ [(FrameOpBatch, v, p)]) (w'\<lparr>w_batchN := w_batchN w' + 1\<rparr>)"
    unfolding wal_durable_def using w'
    by (intro exI [of _ fd] exI [of _ "gs @ [(FrameOpBatch, v, p)]"]) (auto simp: frame_types)
  then have "wal_rel (spec_op (OpLog v p) s) (w'\<lparr>w_batchN := w_batchN w' + 1\<rparr>)"
    unfolding wal_rel_def using w' m s at
    by (intro exI [of _ ps] exI [of _ "fs @ [(FrameOpBatch, v, p)]"])
      (simp add: committed_append uncommitted_append wal_at_def)
  then show thesis using that w'(1) by (simp add: LogBatch_def)
qed

lemma Commit_rel:
  assumes "wal_rel s w"
  obtains w' where "Commit w v = (w', Inr (ls_next s))" and "wal_rel (spec_op (OpCommit v) s) w'"
    and "durable_of (w_fs w') (w_file w') = live_of (w_fs w') (w_file w')"
proof -
  obtain ps fs where at: "wal_at ps 1 fs w"
    and m: "w_syncMode w \<in> {SyncFull, SyncExtra}"
    and s: "ls_next s = w_lsn w" "ls_open s = uncommitted 1 [] fs" "ls_committed s = committed 1 [] fs"
    using assms(1) by (auto simp: wal_rel_def)
  let ?f = "(FrameCommit, v, be_put 4 (w_batchN w))"
  have ok: "frame_ok ?f" by (simp add: frame_ok_def frame_types)
  obtain w1 where w1: "appendFrame w FrameCommit v (be_put 4 (w_batchN w)) = (w1, Inr ())"
    "wal_at ps 1 (fs @ [?f]) w1" "w_syncMode w1 = w_syncMode w" "w_lsn w1 = w_lsn w + 1"
    using appendFrame_at [OF at ok] by metis
  obtain w2 where w2: "wal_sync (w1\<lparr>w_batchN := 0\<rparr>) = (w2, Inr ())" "wal_at ps 1 (fs @ [?f]) w2"
    "durable_of (w_fs w2) (w_file w2) = log_image ps (w_salt w2) 1 (fs @ [?f])"
    "w_syncMode w2 = w_syncMode w" "w_lsn w2 = w_lsn w + 1"
    by (rule wal_sync_at [of ps 1 "fs @ [?f]" "w1\<lparr>w_batchN := 0\<rparr>"]) (use w1 m in simp_all)
  have "wal_rel (spec_op (OpCommit v) s) w2"
    unfolding wal_rel_def using w2 m s at wal_durable_all [OF w2(3)]
    by (intro exI [of _ ps] exI [of _ "fs @ [?f]"])
      (simp add: committed_append uncommitted_append wal_at_def frame_types)
  moreover have "durable_of (w_fs w2) (w_file w2) = live_of (w_fs w2) (w_file w2)"
    using w2 by (simp add: wal_at_def)
  ultimately show thesis using that w1(1) w2(1) s(1) by (simp add: Commit_def Let_def)
qed

lemma Flush_rel:
  assumes "wal_rel s w"
  obtains w' where "Flush w = (w', Inr ())" and "wal_rel s w'"
    and "durable_of (w_fs w') (w_file w') = live_of (w_fs w') (w_file w')"
proof -
  obtain ps fs where at: "wal_at ps 1 fs w"
    and m: "w_syncMode w \<in> {SyncFull, SyncExtra}"
    and s: "ls_next s = w_lsn w" "ls_open s = uncommitted 1 [] fs" "ls_committed s = committed 1 [] fs"
    using assms(1) by (auto simp: wal_rel_def)
  obtain w' where w': "Flush w = (w', Inr ())" "wal_at ps 1 fs w'"
    "durable_of (w_fs w') (w_file w') = log_image ps (w_salt w') 1 fs"
    "w_syncMode w' = w_syncMode w" "w_lsn w' = w_lsn w"
    by (rule Flush_at [OF at])
  have "wal_rel s w'"
    unfolding wal_rel_def using w' m s wal_durable_all [OF w'(3)]
    by (intro exI [of _ ps] exI [of _ fs]) simp
  moreover have "durable_of (w_fs w') (w_file w') = live_of (w_fs w') (w_file w')"
    using w' by (simp add: wal_at_def)
  ultimately show thesis using that w'(1) by simp
qed

section \<open>The simulation\<close>

lemma Recover_exact:
  assumes "live_of m f = log_image ps salt lsn fs" and "list_all frame_ok fs"
  obtains res where "Recover (ReadAt m f) (Size m f) = Done res None"
    and "rr_Batches res = committed lsn [] fs" and "rr_Salt res = salt"
    and "rr_DurableEndOff res = length (log_image ps salt lsn fs)"
    and "rr_DurableSum res = last_sum salt (header_sum ps salt) lsn fs"
    and "lsn = 1 \<or> fs \<noteq> [] \<Longrightarrow> rr_DurableLSN res + 1 = lsn + of_nat (length fs)"
proof -
  have ra: "ReadAt m f = read_bytes (live_of m f)" by (intro ext) (simp add: ReadAt_def)
  have stop: "stops (live_of m f) salt (length (log_image ps salt lsn fs))
      (last_sum salt (header_sum ps salt) lsn fs)"
    using assms(1) by (intro stops_end) (simp add: frameHeaderSize_def)
  have live: "live_of m f = log_image ps salt lsn fs @ []" using assms(1) by simp
  show thesis
    by (rule Recover_stopped [OF live assms(2) stop], rule that) (simp_all add: ra Size_def)
qed

lemma crash_recover_rel:
  assumes "wal_rel s w"
  shows "crash_recover w = Some (ls_committed s)"
proof -
  obtain ps fs where at: "wal_at ps 1 fs w" and du: "wal_durable ps 1 fs w"
    and s: "ls_committed s = committed 1 [] fs"
    using assms(1) by (auto simp: wal_rel_def)
  obtain fd gs where fd: "fs = fd @ gs" "\<forall>f \<in> set gs. fst f \<noteq> FrameCommit"
    "durable_of (w_fs w) (w_file w) = log_image ps (w_salt w) 1 fd"
    using du unfolding wal_durable_def by blast
  have "live_of (Crash (w_fs w)) (w_file w) = log_image ps (w_salt w) 1 fd"
    using at fd(3) by (simp add: wal_at_def mf.crash_content)
  moreover have "list_all frame_ok fd" using at fd(1) by (simp add: wal_at_def)
  ultimately obtain res where
    "Recover (ReadAt (Crash (w_fs w)) (w_file w)) (Size (Crash (w_fs w)) (w_file w)) = Done res None"
    "rr_Batches res = committed 1 [] fd"
    using Recover_exact by metis
  then show ?thesis
    using s fd committed_append_open [OF fd(2)] by (simp add: crash_recover_def recover_file_def)
qed

interpretation wal_sim: forward_simulation wal_rel op_ok spec_op do_op
  "\<lambda>s. Some (ls_committed s)" crash_recover
proof
  fix s w x
  assume rel: "wal_rel s w" and ok: "op_ok x"
  show "wal_rel (spec_op x s) (do_op x w)"
  proof (cases x)
    case (OpLog v p)
    show ?thesis by (rule LogBatch_rel [OF rel, of p v]) (use OpLog ok in auto)
  next
    case (OpCommit v)
    show ?thesis by (rule Commit_rel [OF rel, of v]) (use OpCommit in auto)
  next
    case OpFlush
    show ?thesis by (rule Flush_rel [OF rel]) (use OpFlush in auto)
  qed
qed (rule crash_recover_rel)

section \<open>Create and Open\<close>

lemma Mem_Open_fresh:
  assumes "fs_files m path = None" and "of_Create flags" and "fs_faultAfter m = 0"
  obtains m1 f where "Mem_Open m path flags = (m1, Inr f)" and "f = \<lparr>mf_path = path, mf_data = fs_next m\<rparr>"
    and "mem_ok f m1" and "live_of m1 f = []"
  using assms by (simp add: Mem_Open_def Let_def mem_ok_def live_of_def)

lemma Create_rel:
  assumes "fs_files m path = None" and "fs_faultAfter m = 0"
    and "wo_Sync opts \<in> {SyncFull, SyncExtra}"
  obtains w where "Create m path opts = (w_fs w, Inr w)" and "wal_rel spec_init w"
    and "w_file w = \<lparr>mf_path = path, mf_data = fs_next m\<rparr>"
proof -
  let ?ps = "wo_PageSize opts" and ?salt = "wo_Salt opts"
  obtain m1 f where op: "Mem_Open m path (OpenReadWrite\<lparr>of_Create := True\<rparr>) = (m1, Inr f)"
    and f: "f = \<lparr>mf_path = path, mf_data = fs_next m\<rparr>" and ok: "mem_ok f m1" and live: "live_of m1 f = []"
    using Mem_Open_fresh [of m path "OpenReadWrite\<lparr>of_Create := True\<rparr>"] assms by auto
  define m2 where "m2 = fst (WriteAt m1 f (header_bytes ?ps ?salt) 0)"
  have m2: "mem_ok f m2" "live_of m2 f = header_bytes ?ps ?salt"
    "WriteAt m1 f (header_bytes ?ps ?salt) 0 = (m2, Inr headerSize)"
    using write_bytes_append [of "[]" "header_bytes ?ps ?salt"]
    by (simp_all add: m2_def mf.wr_ok [OF ok] mf.wr_content live) (simp add: WriteAt_def)
  define w0 where "w0 = \<lparr>w_fs = m2, w_file = f, w_path = path,
     w_pageSize = ?ps, w_syncMode = wo_Sync opts, w_salt = ?salt, w_lsn = 1,
     w_lastSum = header_sum ?ps ?salt, w_tailOff = headerSize, w_grew = False, w_batchN = 0, w_syncs = 0\<rparr>"
  have "wal_at ?ps 1 [] w0" by (simp add: wal_at_def w0_def m2 log_image_def)
  then obtain w where w: "file_sync w0 = (w, Inr ())" "wal_at ?ps 1 [] w"
    "durable_of (w_fs w) (w_file w) = log_image ?ps (w_salt w) 1 []"
    "w_syncMode w = w_syncMode w0" "w_lsn w = w_lsn w0"
    by (rule file_sync_at)
  have fw: "w_file w = f" using w(1) by (auto simp: file_sync_def w0_def split: prod.splits)
  have "Create m path opts = (w_fs w, Inr w)"
    using w(1) by (simp add: Create_def op Let_def writeHeader_def m2 headerChecksum_def header_sum_def
        w0_def)
  moreover have "wal_rel spec_init w"
    unfolding wal_rel_def using w assms(3) wal_durable_all [OF w(3)]
    by (intro exI [of _ ?ps] exI [of _ "[]"]) (simp add: spec_init_def w0_def)
  ultimately show thesis using that fw f by blast
qed

lemma Open_at:
  assumes "fs_files m path = Some a" and "f = \<lparr>mf_path = path, mf_data = a\<rparr>"
    and "fs_faultAfter m = 0" and "live_of m f = log_image ps salt lsn fs" and "list_all frame_ok fs"
    and "lsn = 1 \<or> fs \<noteq> []"
  obtains w res where "Open m path opts = (m, OpenOk w res)" and "wal_at ps lsn fs w"
    and "rr_Batches res = committed lsn [] fs" and "w_fs w = m" and "w_file w = f"
    and "w_salt w = salt" and "w_syncMode w = wo_Sync opts"
proof -
  obtain res where res: "Recover (ReadAt m f) (Size m f) = Done res None"
    "rr_Batches res = committed lsn [] fs" "rr_Salt res = salt"
    "rr_DurableEndOff res = length (log_image ps salt lsn fs)"
    "rr_DurableSum res = last_sum salt (header_sum ps salt) lsn fs"
    "rr_DurableLSN res + 1 = lsn + of_nat (length fs)"
    by (rule Recover_exact [OF assms(4,5)]) (use assms(6) in auto)
  let ?w = "\<lparr>w_fs = m, w_file = f, w_path = path, w_pageSize = wo_PageSize opts,
     w_syncMode = wo_Sync opts, w_salt = rr_Salt res, w_lsn = rr_DurableLSN res + 1,
     w_lastSum = rr_DurableSum res, w_tailOff = rr_DurableEndOff res, w_grew = False, w_batchN = 0,
     w_syncs = 0\<rparr>"
  have "Open m path opts = (m, OpenOk ?w res)"
    using res(1) assms(1,2) by (simp add: Open_def Mem_Open_def OpenReadWrite_def)
  moreover have "wal_at ps lsn fs ?w"
    using res assms by (simp add: wal_at_def mem_ok_def)
  ultimately show thesis using that [of ?w res] res by simp
qed

section \<open>Properties\<close>

text \<open>C1: a log created on a fresh path at the full sync levels refines its specification:
  after any sequence of logged batches, commits and flushes, a crash followed by recovery
  returns exactly the committed batches, in order, with their versions and LSNs, and the
  open ones are gone.\<close>

theorem crash_recovery:
  assumes "fs_files m path = None" and "fs_faultAfter m = 0"
    and "wo_Sync opts \<in> {SyncFull, SyncExtra}" and "list_all op_ok ops"
  shows "\<exists>m' w. Create m path opts = (m', Inr w) \<and>
    crash_recover (fold do_op ops w) = Some (ls_committed (fold spec_op ops spec_init))"
proof -
  obtain w where "Create m path opts = (w_fs w, Inr w)" "wal_rel spec_init w"
    using Create_rel [OF assms(1-3)] by metis
  then show ?thesis using wal_sim.run_obs [of spec_init w ops] assms(4) by auto
qed

theorem crash_recovery_witness:
  "\<exists>m' w. Create NewMem ''w'' \<lparr>wo_PageSize = 4096, wo_Sync = SyncFull, wo_Salt = 7\<rparr> = (m', Inr w) \<and>
    crash_recover (fold do_op [OpLog 5 [1], OpCommit 5, OpLog 6 [2]] w) =
      Some [\<lparr>cb_Version = 5, cb_LSN = 1, cb_Encoded = [1]\<rparr>]"
  using crash_recovery [of NewMem "''w''" "\<lparr>wo_PageSize = 4096, wo_Sync = SyncFull, wo_Salt = 7\<rparr>"
      "[OpLog 5 [1], OpCommit 5, OpLog 6 [2]]"]
  by (simp add: NewMem_def spec_init_def)

lemma file_kept [simp]:
  "w_file (fst (appendFrame w ft v p)) = w_file w"
  "w_file (fst (file_sync w)) = w_file w"
  "w_file (fst (wal_sync w)) = w_file w"
proof -
  show sync: "w_file (fst (file_sync w)) = w_file w" for w
    by (simp add: file_sync_def split: prod.split)
  show "w_file (fst (appendFrame w ft v p)) = w_file w"
    by (simp add: appendFrame_def WriteAt_def Let_def)
  show "w_file (fst (wal_sync w)) = w_file w"
    by (simp add: wal_sync_def sync split: SyncLevel.split)
qed

lemma do_op_file: "w_file (do_op x w) = w_file w"
proof (cases x)
  case (OpLog v p)
  obtain w1 r1 where a: "appendFrame w FrameOpBatch v p = (w1, r1)" by fastforce
  then have "w_file w1 = w_file w" using file_kept(1) by (metis fst_conv)
  then show ?thesis using OpLog a by (simp add: LogBatch_def split: sum.split)
next
  case (OpCommit v)
  obtain w1 r1 where a: "appendFrame w FrameCommit v (be_put 4 (w_batchN w)) = (w1, r1)" by fastforce
  obtain w2 r2 where b: "wal_sync (w1\<lparr>w_batchN := 0\<rparr>) = (w2, r2)" by fastforce
  have "w_file w1 = w_file w" using file_kept(1) a by (metis fst_conv)
  moreover have "w_file w2 = w_file w1" using file_kept(3) [of "w1\<lparr>w_batchN := 0\<rparr>"] b by simp
  ultimately show ?thesis
    using OpCommit a b by (simp add: Commit_def split: sum.split)
next
  case OpFlush
  then show ?thesis by (simp add: Flush_def)
qed

lemma fold_files: "w_file (fold do_op ops w) = w_file w"
  by (induction ops arbitrary: w) (simp_all add: do_op_file)

lemma Open_rel:
  assumes "wal_rel s w" and du: "durable_of (w_fs w) (w_file w) = live_of (w_fs w) (w_file w)"
    and "path = mf_path (w_file w)"
  obtains w2 res where "Open (Crash (w_fs w)) path opts = (Crash (w_fs w), OpenOk w2 res)"
    and "rr_Batches res = ls_committed s" and "w_file w2 = w_file w"
    and "wo_Sync opts \<in> {SyncFull, SyncExtra} \<Longrightarrow> wal_rel s w2"
proof -
  let ?f = "w_file w" and ?m = "Crash (w_fs w)"
  obtain ps fs where at: "wal_at ps 1 fs w"
    and s: "ls_next s = w_lsn w" "ls_open s = uncommitted 1 [] fs" "ls_committed s = committed 1 [] fs"
    using assms(1) by (auto simp: wal_rel_def)
  have nm: "fs_files ?m path = Some (mf_data ?f)" "fs_faultAfter ?m = 0"
    using at assms(3) by (simp_all add: wal_at_def mem_ok_def Crash_def)
  have f: "?f = \<lparr>mf_path = path, mf_data = mf_data ?f\<rparr>" using assms(3) by simp
  have live: "live_of ?m ?f = log_image ps (w_salt w) 1 fs"
    using at du by (simp add: wal_at_def mf.crash_content)
  obtain w2 res where w2: "Open ?m path opts = (?m, OpenOk w2 res)" "wal_at ps 1 fs w2"
    "rr_Batches res = committed 1 [] fs" "w_fs w2 = ?m" "w_file w2 = ?f"
    "w_salt w2 = w_salt w" "w_syncMode w2 = wo_Sync opts"
    by (rule Open_at [OF nm(1) f nm(2) live]) (use at in \<open>auto simp: wal_at_def\<close>)
  have "durable_of ?m ?f = durable_of (w_fs w) ?f" by (simp add: durable_of_def Crash_def)
  then have "wal_durable ps 1 fs w2"
    using w2 du at by (intro wal_durable_all) (simp add: wal_at_def)
  then have "wal_rel s w2" if "wo_Sync opts \<in> {SyncFull, SyncExtra}"
    unfolding wal_rel_def using w2 s at that
    by (intro exI [of _ ps] exI [of _ fs]) (simp add: wal_at_def)
  with w2 s(3) show thesis using that by metis
qed

text \<open>C22: a log survives a crash right after a commit: reopening it recovers the committed
  batches and resumes, and everything committed through the reopened log is recovered
  together with them, as if the crash had not happened.\<close>

theorem reopen_resumes:
  assumes "fs_files m path = None" and "fs_faultAfter m = 0"
    and "wo_Sync opts \<in> {SyncFull, SyncExtra}" and "list_all op_ok (ops1 @ ops2)"
    and "Create m path opts = (m', Inr w)" and "w1 = fold do_op (ops1 @ [OpCommit v]) w"
  shows "\<exists>w2 res. Open (Crash (w_fs w1)) path opts = (Crash (w_fs w1), OpenOk w2 res) \<and>
    rr_Batches res = ls_committed (fold spec_op (ops1 @ [OpCommit v]) spec_init) \<and>
    crash_recover (fold do_op ops2 w2) =
      Some (ls_committed (fold spec_op (ops1 @ [OpCommit v] @ ops2) spec_init))"
proof -
  let ?s0 = "fold spec_op ops1 spec_init" and ?w0 = "fold do_op ops1 w"
  let ?s1 = "spec_op (OpCommit v) ?s0"
  have rel: "wal_rel spec_init w" and fil: "w_file w = \<lparr>mf_path = path, mf_data = fs_next m\<rparr>"
    by (rule Create_rel [OF assms(1-3)]; use assms(5) in simp)+
  then have "wal_rel ?s0 ?w0" using wal_sim.run [of spec_init w ops1] assms(4) by simp
  then have rel1: "wal_rel ?s1 w1"
    and du: "durable_of (w_fs w1) (w_file w1) = live_of (w_fs w1) (w_file w1)"
    by (rule Commit_rel [of ?s0 ?w0 v]; use assms(6) in simp)+
  have f1: "path = mf_path (w_file w1)" using assms(6) fil by (simp only: fold_files memFile.simps)
  obtain w2 res where w2: "Open (Crash (w_fs w1)) path opts = (Crash (w_fs w1), OpenOk w2 res)"
    "rr_Batches res = ls_committed ?s1" "wo_Sync opts \<in> {SyncFull, SyncExtra} \<Longrightarrow> wal_rel ?s1 w2"
    by (rule Open_rel [OF rel1 du f1, where opts = opts]) (rule that)
  then have "crash_recover (fold do_op ops2 w2) = Some (ls_committed (fold spec_op ops2 ?s1))"
    using wal_sim.run_obs [of ?s1 w2 ops2] assms(3,4) by (simp del: spec_op.simps)
  with w2 show ?thesis
    by (intro exI [of _ w2] exI [of _ res]) (simp del: spec_op.simps)
qed

theorem reopen_resumes_witness:
  "\<exists>w m' w1 w2 res. Create NewMem ''w'' \<lparr>wo_PageSize = 4096, wo_Sync = SyncFull, wo_Salt = 7\<rparr> = (m', Inr w) \<and>
    w1 = fold do_op [OpLog 5 [1], OpCommit 5] w \<and>
    Open (Crash (w_fs w1)) ''w'' \<lparr>wo_PageSize = 4096, wo_Sync = SyncFull, wo_Salt = 7\<rparr>
      = (Crash (w_fs w1), OpenOk w2 res) \<and>
    crash_recover (fold do_op [OpLog 6 [2], OpCommit 6] w2) =
      Some [\<lparr>cb_Version = 5, cb_LSN = 1, cb_Encoded = [1]\<rparr>, \<lparr>cb_Version = 6, cb_LSN = 3, cb_Encoded = [2]\<rparr>]"
proof -
  let ?o = "\<lparr>wo_PageSize = 4096, wo_Sync = SyncFull, wo_Salt = 7\<rparr>"
  have h: "fs_files NewMem ''w'' = None" "fs_faultAfter NewMem = 0" "wo_Sync ?o \<in> {SyncFull, SyncExtra}"
    by (simp_all add: NewMem_def)
  obtain w where w: "Create NewMem ''w'' ?o = (w_fs w, Inr w)"
    by (rule Create_rel [OF h])
  have "list_all op_ok ([OpLog 5 [1]] @ [OpLog 6 [2], OpCommit 6])" by simp
  from reopen_resumes [OF h this w refl, of 5] w show ?thesis by (auto simp: spec_init_def)
qed

section \<open>Checkpoints\<close>

lemma stale_frame_stops:
  assumes "live = pre @ frame_bytes prev ft lsn v salt p @ tail" and "off = length pre"
    and "frame_ok (ft, v, p)" and "salt \<noteq> salt'"
  shows "stops live salt' off prev'"
proof (rule stops_torn [of off live "get_at off frameHeaderSize live" "length p"])
  note h = frame_reads(1) [OF assms(1,2)]
  have p: "length p < 2 ^ 32" using assms(3) by (simp add: frame_ok_def)
  note fields = frame_fields [OF h p]
  show "off + frameHeaderSize \<le> length live" using assms(1,2) by simp
  show "length p = unat (be_get (get_at 1 4 (get_at off frameHeaderSize live)) :: u32)"
    by (simp only: fields)
  show "be_get (get_at 21 8 (get_at off frameHeaderSize live)) \<noteq> salt' \<or>
    chain prev' (take 29 (get_at off frameHeaderSize live)) (get_at (off + frameHeaderSize) (length p) live)
      \<noteq> be_get (get_at 29 8 (get_at off frameHeaderSize live))"
    by (simp only: fields assms(4) simp_thms)
qed simp

lemma writeHeader_over:
  "write_bytes (log_image ps salt lsn fs) (header_bytes ps' salt') 0 =
     header_bytes ps' salt' @ encode_frames salt (header_sum ps salt) lsn fs"
  by (simp add: write_bytes_within log_image_def put_at_def)



section \<open>Divergences\<close>

text \<open>A writer positioned at offset zero writes frames where the header belongs.\<close>

definition headless :: "WAL \<Rightarrow> bool" where
  "headless w \<longleftrightarrow>
    (let live = live_of (w_fs w) (w_file w) in
     if w_tailOff w = 0 then length live < headerSize else live \<noteq> [] \<and> live ! 0 \<noteq> 0x76)"

lemma headless_recovers_nothing:
  assumes "headless w"
  shows "recover_file (w_fs w) (w_file w) = Some []"
proof (cases "length (live_of (w_fs w) (w_file w)) < headerSize")
  case True
  then show ?thesis by (simp add: recover_file_def Recover_def Size_def empty_result_def)
next
  case False
  let ?live = "live_of (w_fs w) (w_file w)" and ?magic = "[0x76, 0x63, 0x6c, 0x67] :: bytes"
  have first: "?live ! 0 \<noteq> 0x76" using assms False by (auto simp: headless_def Let_def split: if_splits)
  have rd: "ReadAt (w_fs w) (w_file w) (replicate headerSize 0) 0 = (take headerSize ?live, headerSize, None)"
    using False by (simp add: ReadAt_def read_bytes_full get_at_def headerSize_def)
  have "get_at 0 4 (take headerSize ?live) ! 0 \<noteq> ?magic ! 0"
    using first False by (simp add: get_at_def headerSize_def)
  then have "get_at 0 4 (take headerSize ?live) \<noteq> ?magic" by metis
  moreover have "(be_get ?magic :: u32) = walMagic" by (simp add: be_get_def walMagic_def)
  moreover have "length (get_at 0 4 (take headerSize ?live)) = 4"
    using False by (simp add: get_at_def headerSize_def)
  ultimately have "(be_get (get_at 0 4 (take headerSize ?live)) :: u32) \<noteq> walMagic"
    using be_get_inject [of "get_at 0 4 (take headerSize ?live)" ?magic, where 'a = 32] by simp
  then show ?thesis
    using False rd
    by (simp add: recover_file_def Recover_def Size_def hard_error_def empty_result_def Let_def)
qed

lemma headless_appendFrame:
  assumes "headless w" and "ft \<noteq> 0x76"
  shows "headless (fst (appendFrame w ft v p))"
proof -
  let ?live = "live_of (w_fs w) (w_file w)"
  let ?frame = "frame_bytes (w_lastSum w) ft (w_lsn w) v (w_salt w) p"
  have "write_bytes ?live ?frame (w_tailOff w) ! 0 \<noteq> 0x76"
  proof (cases "w_tailOff w = 0")
    case True
    have "get_at 0 (length ?frame) (write_bytes ?live ?frame 0) ! 0 = ?frame ! 0"
      by (simp add: get_at_write_same)
    then show ?thesis
      using True assms(2) by (simp add: get_at_def frameHeaderSize_def)
        (simp add: frame_bytes_def frame_head_def Let_def)
  next
    case False
    then have "?live \<noteq> []" "?live ! 0 \<noteq> 0x76" using assms(1) by (auto simp: headless_def Let_def)
    moreover have "take 1 (write_bytes ?live ?frame (w_tailOff w)) ! 0 = take 1 ?live ! 0"
      using False \<open>?live \<noteq> []\<close> by (subst take_write_bytes) (auto simp: Suc_le_eq)
    ultimately show ?thesis by simp
  qed
  moreover have "write_bytes ?live ?frame (w_tailOff w) \<noteq> []"
    by (metis length_frame_bytes length_write_bytes list.size(3) frameHeaderSize_def max.bounded_iff
        add_is_0 le_zero_eq order_refl zero_neq_numeral one_add_one numeral_plus_one)
  ultimately show ?thesis
    by (simp add: appendFrame_def WriteAt_def headless_def Let_def frameHeaderSize_def)
qed

lemma headless_sync [simp]: "headless (fst (file_sync w)) = headless w"
  by (simp add: file_sync_def headless_def mf.sync_content split: prod.split)
    (metis fst_conv mf.sync_content)

lemma headless_counters [simp]:
  "headless (w\<lparr>w_batchN := n\<rparr>) = headless w" "headless (w\<lparr>w_syncs := k\<rparr>) = headless w"
  "headless (w\<lparr>w_grew := b\<rparr>) = headless w"
  by (simp_all add: headless_def)

lemma headless_wal_sync [simp]: "headless (fst (wal_sync w)) = headless w"
  by (simp add: wal_sync_def split: SyncLevel.split)

lemma headless_do_op: "headless w \<Longrightarrow> headless (do_op x w)"
proof (cases x)
  case (OpLog v p)
  assume "headless w"
  then have "headless (fst (appendFrame w FrameOpBatch v p))"
    by (simp add: headless_appendFrame frame_types)
  then show ?thesis using OpLog
    by (cases "appendFrame w FrameOpBatch v p") (auto simp: LogBatch_def split: sum.split)
next
  case (OpCommit v)
  assume "headless w"
  then have "headless (fst (appendFrame w FrameCommit v (be_put 4 (w_batchN w))))"
    by (simp add: headless_appendFrame frame_types)
  moreover obtain w1 r where a: "appendFrame w FrameCommit v (be_put 4 (w_batchN w)) = (w1, r)" by fastforce
  moreover obtain w2 r2 where b: "wal_sync (w1\<lparr>w_batchN := 0\<rparr>) = (w2, r2)" by fastforce
  moreover have "headless w2 = headless w1" using headless_wal_sync [of "w1\<lparr>w_batchN := 0\<rparr>"] b by simp
  ultimately show ?thesis using OpCommit by (simp add: Commit_def split: sum.split)
next
  case OpFlush
  assume "headless w"
  then show ?thesis using OpFlush by (simp add: Flush_def)
qed



text \<open>C33: a batch that is durable but not committed when the log is reopened is dropped by that
  recovery, yet the next commit through the reopened log commits it too, because \<^verbatim>\<open>Open\<close>
  resumes after the uncommitted frame instead of after the last commit frame.\<close>

theorem uncommitted_batch_revived:
  assumes "wal_rel s w" and "length p < 2 ^ 32" and "length q < 2 ^ 32"
    and "wo_Sync opts \<in> {SyncFull, SyncExtra}"
    and "w1 = fold do_op [OpLog v p, OpFlush] w"
  shows "\<exists>w2 res. Open (Crash (w_fs w1)) (mf_path (w_file w)) opts = (Crash (w_fs w1), OpenOk w2 res) \<and>
    rr_Batches res = ls_committed s \<and>
    crash_recover (fold do_op [OpLog v' q, OpCommit v'] w2) =
      Some (ls_committed s @ ls_open s @
        [\<lparr>cb_Version = v, cb_LSN = ls_next s, cb_Encoded = p\<rparr>,
         \<lparr>cb_Version = v', cb_LSN = ls_next s + 1, cb_Encoded = q\<rparr>])"
proof -
  let ?s = "spec_op (OpLog v p) s" and ?w = "do_op (OpLog v p) w"
  have "wal_rel ?s ?w" using wal_sim.step [OF assms(1), of "OpLog v p"] assms(2) by simp
  then have rel: "wal_rel ?s w1"
    and du: "durable_of (w_fs w1) (w_file w1) = live_of (w_fs w1) (w_file w1)"
    by (rule Flush_rel [of ?s ?w]; use assms(5) in simp)+
  have f: "mf_path (w_file w) = mf_path (w_file w1)" using assms(5) by (simp only: fold_files)
  obtain w2 res where w2:
    "Open (Crash (w_fs w1)) (mf_path (w_file w)) opts = (Crash (w_fs w1), OpenOk w2 res)"
    "rr_Batches res = ls_committed ?s" "wo_Sync opts \<in> {SyncFull, SyncExtra} \<Longrightarrow> wal_rel ?s w2"
    by (rule Open_rel [OF rel du f, where opts = opts]) (rule that)
  then have "crash_recover (fold do_op [OpLog v' q, OpCommit v'] w2) =
      Some (ls_committed (fold spec_op [OpLog v' q, OpCommit v'] ?s))"
    using assms(3,4) by (intro wal_sim.run_obs) simp_all
  with w2 show ?thesis by (intro exI [of _ w2] exI [of _ res]) simp
qed

theorem uncommitted_batch_revived_witness:
  "\<exists>w w1 w2 res. w1 = fold do_op [OpLog 5 [1], OpFlush] w \<and>
    Open (Crash (w_fs w1)) (mf_path (w_file w)) \<lparr>wo_PageSize = 4096, wo_Sync = SyncFull, wo_Salt = 7\<rparr>
      = (Crash (w_fs w1), OpenOk w2 res) \<and> rr_Batches res = [] \<and>
    crash_recover (fold do_op [OpLog 6 [2], OpCommit 6] w2) =
      Some [\<lparr>cb_Version = 5, cb_LSN = 1, cb_Encoded = [1]\<rparr>, \<lparr>cb_Version = 6, cb_LSN = 2, cb_Encoded = [2]\<rparr>]"
proof -
  let ?o = "\<lparr>wo_PageSize = 4096, wo_Sync = SyncFull, wo_Salt = 7\<rparr>"
  have h: "fs_files NewMem ''w'' = None" "fs_faultAfter NewMem = 0" "wo_Sync ?o \<in> {SyncFull, SyncExtra}"
    by (simp_all add: NewMem_def)
  obtain w where w: "wal_rel spec_init w" by (rule Create_rel [OF h])
  from uncommitted_batch_revived [OF w, of "[1]" "[2]" ?o _ 5 6] show ?thesis
    by (auto simp: spec_init_def)
qed

end
