(* ===== verification/Mvcc.thy ===== *)
theory Mvcc
  imports Prelude
begin

text \<open>
  Multi-version concurrency control: the commit clock and snapshots of
  \<^verbatim>\<open>src/mvcc/mvcc.go\<close> and the version chains of \<^verbatim>\<open>src/mvcc/delta.go\<close>.  A chain is a list of
  versions, newest first; a version with sequence 0 is in flight.  The steps other
  transactions may take beside a snapshot form a step relation, along which every read
  of the snapshot is stable.
\<close>

type_synonym CommitSeq = u64
type_synonym TxnID = u64

section \<open>Clock and snapshots\<close>

record Clock =
  ck_seq :: u64
  ck_txn :: u64

definition NewClock :: "CommitSeq \<Rightarrow> Clock" where
  "NewClock start = \<lparr>ck_seq = start, ck_txn = 0\<rparr>"

definition NextSeq :: "Clock \<Rightarrow> Clock \<times> CommitSeq" where
  "NextSeq c = (let s = ck_seq c + 1 in (c\<lparr>ck_seq := s\<rparr>, s))"

definition Current :: "Clock \<Rightarrow> CommitSeq" where
  "Current c = ck_seq c"

definition NextTxn :: "Clock \<Rightarrow> Clock \<times> TxnID" where
  "NextTxn c = (let t = ck_txn c + 1 in (c\<lparr>ck_txn := t\<rparr>, t))"

record Snapshot =
  sn_ReadSeq :: CommitSeq
  sn_TxnID :: TxnID
  sn_InFlight :: "TxnID list"

definition IsVisible :: "Snapshot \<Rightarrow> CommitSeq \<Rightarrow> TxnID \<Rightarrow> bool" where
  "IsVisible s vSeq vTxn =
    (if vTxn = sn_TxnID s then True
     else if vTxn \<in> set (sn_InFlight s) then False
     else vSeq \<noteq> 0 \<and> vSeq \<le> sn_ReadSeq s)"

section \<open>Version tables\<close>

record 'v versionEntry =
  ve_seq :: CommitSeq
  ve_txn :: TxnID
  ve_val :: 'v
  ve_tomb :: bool

record ('k, 'v) VersionTable =
  vt_chains :: "'k \<Rightarrow> 'v versionEntry list option"
  vt_staged :: "TxnID \<Rightarrow> 'k list option"

definition NewVersionTable :: "('k, 'v) VersionTable" where
  "NewVersionTable = \<lparr>vt_chains = Map.empty, vt_staged = Map.empty\<rparr>"

text \<open>Indexing a Go map yields the zero value, here the empty list, for an absent key.\<close>

definition chain_at :: "('k, 'v) VersionTable \<Rightarrow> 'k \<Rightarrow> 'v versionEntry list" where
  "chain_at t key = (case vt_chains t key of None \<Rightarrow> [] | Some c \<Rightarrow> c)"

definition staged_by :: "('k, 'v) VersionTable \<Rightarrow> TxnID \<Rightarrow> 'k list" where
  "staged_by t txn = (case vt_staged t txn of None \<Rightarrow> [] | Some ks \<Rightarrow> ks)"

definition Stage :: "('k, 'v) VersionTable \<Rightarrow> 'k \<Rightarrow> TxnID \<Rightarrow> 'v \<Rightarrow> bool \<Rightarrow> ('k, 'v) VersionTable" where
  "Stage t key txn val tombstone =
    (let e = \<lparr>ve_seq = 0, ve_txn = txn, ve_val = val, ve_tomb = tombstone\<rparr> in
     t\<lparr>vt_chains := (vt_chains t)(key \<mapsto> e # chain_at t key),
       vt_staged := (vt_staged t)(txn \<mapsto> staged_by t txn @ [key])\<rparr>)"

fun visible_in :: "Snapshot \<Rightarrow> 'v versionEntry list \<Rightarrow> 'v versionEntry option" where
  "visible_in s [] = None"
| "visible_in s (e # es) = (if IsVisible s (ve_seq e) (ve_txn e) then Some e else visible_in s es)"

definition Visible :: "('k, 'v) VersionTable \<Rightarrow> 'k \<Rightarrow> Snapshot \<Rightarrow> 'v option" where
  "Visible t key s =
    (case visible_in s (chain_at t key) of
       None \<Rightarrow> None | Some e \<Rightarrow> if ve_tomb e then None else Some (ve_val e))"

definition VisibleEntry :: "('k, 'v) VersionTable \<Rightarrow> 'k \<Rightarrow> Snapshot \<Rightarrow> ('v \<times> bool) option" where
  "VisibleEntry t key s = map_option (\<lambda>e. (ve_val e, ve_tomb e)) (visible_in s (chain_at t key))"

definition stamp :: "TxnID \<Rightarrow> CommitSeq \<Rightarrow> 'v versionEntry \<Rightarrow> 'v versionEntry" where
  "stamp txn seq e = (if ve_txn e = txn \<and> ve_seq e = 0 then e\<lparr>ve_seq := seq\<rparr> else e)"

definition commit_key :: "TxnID \<Rightarrow> CommitSeq \<Rightarrow> 'k \<Rightarrow>
    ('k \<Rightarrow> 'v versionEntry list option) \<Rightarrow> 'k \<Rightarrow> 'v versionEntry list option" where
  "commit_key txn seq key cs =
    cs(key := map_option (map (stamp txn seq)) (cs key))"

definition Commit :: "('k, 'v) VersionTable \<Rightarrow> TxnID \<Rightarrow> CommitSeq \<Rightarrow> ('k, 'v) VersionTable" where
  "Commit t txn seq =
    t\<lparr>vt_chains := fold (commit_key txn seq) (staged_by t txn) (vt_chains t),
      vt_staged := (vt_staged t)(txn := None)\<rparr>"

definition settled :: "TxnID \<Rightarrow> 'v versionEntry \<Rightarrow> bool" where
  "settled txn e \<longleftrightarrow> \<not> (ve_txn e = txn \<and> ve_seq e = 0)"

definition abort_chain :: "TxnID \<Rightarrow> 'v versionEntry list option \<Rightarrow> 'v versionEntry list option" where
  "abort_chain txn c =
    (let out = filter (settled txn) (case c of None \<Rightarrow> [] | Some es \<Rightarrow> es)
     in if out = [] then None else Some out)"

definition abort_key :: "TxnID \<Rightarrow> 'k \<Rightarrow>
    ('k \<Rightarrow> 'v versionEntry list option) \<Rightarrow> 'k \<Rightarrow> 'v versionEntry list option" where
  "abort_key txn key cs = cs(key := abort_chain txn (cs key))"

definition Abort :: "('k, 'v) VersionTable \<Rightarrow> TxnID \<Rightarrow> ('k, 'v) VersionTable" where
  "Abort t txn =
    t\<lparr>vt_chains := fold (abort_key txn) (staged_by t txn) (vt_chains t),
      vt_staged := (vt_staged t)(txn := None)\<rparr>"

fun gc_cut :: "CommitSeq \<Rightarrow> 'v versionEntry list \<Rightarrow> nat option" where
  "gc_cut w [] = None"
| "gc_cut w (e # es) = (if ve_seq e \<noteq> 0 \<and> ve_seq e \<le> w then Some 0 else map_option Suc (gc_cut w es))"

definition gc_chain :: "CommitSeq \<Rightarrow> 'v versionEntry list \<Rightarrow> 'v versionEntry list option" where
  "gc_chain w chain =
    (case gc_cut w chain of
       None \<Rightarrow> Some chain
     | Some i \<Rightarrow>
         if ve_tomb (chain ! i) \<and> i = 0 then None else Some (take (i + 1) chain))"

definition GC :: "('k, 'v) VersionTable \<Rightarrow> CommitSeq \<Rightarrow> ('k, 'v) VersionTable" where
  "GC t w = t\<lparr>vt_chains := (\<lambda>key. case vt_chains t key of None \<Rightarrow> None | Some c \<Rightarrow> gc_chain w c)\<rparr>"

definition Len :: "('k, 'v) VersionTable \<Rightarrow> nat" where
  "Len t = card (dom (vt_chains t))"

section \<open>Chains after each operation\<close>

named_theorems mvcc_simps \<open>version chains after an operation\<close>

lemma chain_at_Stage [mvcc_simps]:
  "chain_at (Stage t key txn val tomb) k =
    (if k = key then \<lparr>ve_seq = 0, ve_txn = txn, ve_val = val, ve_tomb = tomb\<rparr> # chain_at t k
     else chain_at t k)"
  by (simp add: Stage_def chain_at_def Let_def)

lemma staged_by_Stage [mvcc_simps]:
  "staged_by (Stage t key txn val tomb) x = staged_by t x @ (if x = txn then [key] else [])"
  by (simp add: Stage_def staged_by_def Let_def)

lemma stamp_idem [simp]: "seq \<noteq> 0 \<Longrightarrow> stamp txn seq (stamp txn seq e) = stamp txn seq e"
  by (simp add: stamp_def)

lemma fold_commit_key:
  assumes "seq \<noteq> 0"
  shows "fold (commit_key txn seq) ks cs k =
    (if k \<in> set ks then map_option (map (stamp txn seq)) (cs k) else cs k)"
  by (induction ks arbitrary: cs)
    (auto simp: commit_key_def option.map_comp o_def assms)

lemma chain_at_Commit [mvcc_simps]:
  "seq \<noteq> 0 \<Longrightarrow> chain_at (Commit t txn seq) k =
    (if k \<in> set (staged_by t txn) then map (stamp txn seq) (chain_at t k) else chain_at t k)"
  by (simp add: chain_at_def Commit_def fold_commit_key split: option.split)

lemma staged_by_Commit [mvcc_simps]:
  "staged_by (Commit t txn seq) x = (if x = txn then [] else staged_by t x)"
  by (simp add: staged_by_def Commit_def)

lemma abort_chain_idem: "abort_chain txn (abort_chain txn c) = abort_chain txn c"
  by (simp add: abort_chain_def Let_def)

lemma fold_abort_key:
  "fold (abort_key txn) ks cs k = (if k \<in> set ks then abort_chain txn (cs k) else cs k)"
  by (induction ks arbitrary: cs) (simp_all add: abort_key_def abort_chain_idem)

lemma chain_at_Abort [mvcc_simps]:
  "chain_at (Abort t txn) k =
    (if k \<in> set (staged_by t txn) then filter (settled txn) (chain_at t k) else chain_at t k)"
  by (simp add: chain_at_def Abort_def fold_abort_key abort_chain_def Let_def split: option.split)

lemma staged_by_Abort [mvcc_simps]:
  "staged_by (Abort t txn) x = (if x = txn then [] else staged_by t x)"
  by (simp add: staged_by_def Abort_def)

lemma chain_at_GC [mvcc_simps]:
  "chain_at (GC t w) k = (case gc_chain w (chain_at t k) of None \<Rightarrow> [] | Some c \<Rightarrow> c)"
  by (simp add: chain_at_def GC_def gc_chain_def split: option.split)

lemma staged_by_GC [mvcc_simps]: "staged_by (GC t w) x = staged_by t x"
  by (simp add: staged_by_def GC_def)

lemma gc_cut_Some:
  assumes "gc_cut w es = Some i"
  shows "i < length es" and "ve_seq (es ! i) \<noteq> 0" and "ve_seq (es ! i) \<le> w"
  using assms by (induction es arbitrary: i) (auto split: if_splits)

lemma set_gc_chain: "gc_chain w c = Some c' \<Longrightarrow> set c' \<subseteq> set c"
  by (auto simp: gc_chain_def split: option.splits if_splits dest: in_set_takeD)

lemma set_chain_at_GC: "set (chain_at (GC t w) k) \<subseteq> set (chain_at t k)"
  using set_gc_chain by (cases "gc_chain w (chain_at t k)") (fastforce simp: chain_at_GC)+

section \<open>Reads of a chain\<close>

abbreviation (input) sees :: "Snapshot \<Rightarrow> 'v versionEntry \<Rightarrow> bool" where
  "sees s e \<equiv> IsVisible s (ve_seq e) (ve_txn e)"

definition read_entry :: "'v versionEntry option \<Rightarrow> 'v option" where
  "read_entry r = (case r of None \<Rightarrow> None | Some e \<Rightarrow> if ve_tomb e then None else Some (ve_val e))"

lemma Visible_read: "Visible t key s = read_entry (visible_in s (chain_at t key))"
  by (simp add: Visible_def read_entry_def)

lemma visible_in_filter:
  "(\<And>e. e \<in> set es \<Longrightarrow> sees s e \<Longrightarrow> P e) \<Longrightarrow> visible_in s (filter P es) = visible_in s es"
  by (induction es) auto

lemma visible_in_map:
  "(\<And>e. e \<in> set es \<Longrightarrow> sees s (f e) = sees s e \<and> (sees s e \<longrightarrow> f e = e)) \<Longrightarrow>
   visible_in s (map f es) = visible_in s es"
  by (induction es) auto

lemma visible_in_take:
  "i < length es \<Longrightarrow> sees s (es ! i) \<Longrightarrow> visible_in s (take (Suc i) es) = visible_in s es"
  by (induction es arbitrary: i) (auto simp: nth_Cons split: nat.splits)

lemma visible_in_Some: "visible_in s es = Some e \<Longrightarrow> e \<in> set es \<and> sees s e"
  by (induction es) (auto split: if_splits)

text \<open>Collection cuts a chain at the newest version every reader at or above the watermark sees.\<close>

lemma read_gc_chain:
  assumes "w \<le> sn_ReadSeq s"
    and "\<And>e. e \<in> set c \<Longrightarrow> ve_txn e \<in> set (sn_InFlight s) \<Longrightarrow> ve_seq e = 0 \<or> sn_ReadSeq s < ve_seq e"
  shows "read_entry (visible_in s (case gc_chain w c of None \<Rightarrow> [] | Some c' \<Rightarrow> c'))
       = read_entry (visible_in s c)"
proof (cases "gc_cut w c")
  case None
  then show ?thesis by (simp add: gc_chain_def)
next
  case (Some i)
  note cut = gc_cut_Some [OF Some]
  have "ve_seq (c ! i) \<le> sn_ReadSeq s" using cut(3) assms(1) by order
  moreover have "c ! i \<in> set c" using cut(1) by simp
  ultimately have vis: "sees s (c ! i)"
    using assms(2) [of "c ! i"] cut(2) by (auto simp: IsVisible_def)
  show ?thesis
  proof (cases "ve_tomb (c ! i) \<and> i = 0")
    case True
    then have "visible_in s c = Some (c ! 0)" using vis cut(1) by (cases c) auto
    with True Some show ?thesis by (auto simp: gc_chain_def read_entry_def)
  next
    case False
    then show ?thesis using Some visible_in_take [OF cut(1) vis] by (auto simp: gc_chain_def)
  qed
qed

section \<open>Steps beside a snapshot\<close>

text \<open>
  What may happen while a snapshot is open: other transactions stage, commit with a fresh
  sequence above its read point, abort; collection runs with a watermark not above the
  read point.
\<close>

inductive foreign_step :: "Snapshot \<Rightarrow> ('k, 'v) VersionTable \<Rightarrow> ('k, 'v) VersionTable \<Rightarrow> bool"
  for s where
  fs_stage: "txn \<noteq> sn_TxnID s \<Longrightarrow> foreign_step s t (Stage t key txn val tomb)"
| fs_commit: "txn \<noteq> sn_TxnID s \<Longrightarrow> sn_ReadSeq s < seq \<Longrightarrow> foreign_step s t (Commit t txn seq)"
| fs_abort: "txn \<noteq> sn_TxnID s \<Longrightarrow> foreign_step s t (Abort t txn)"
| fs_gc: "w \<le> sn_ReadSeq s \<Longrightarrow> foreign_step s t (GC t w)"

inductive_cases foreign_stepE: "foreign_step s t t'"

definition snapshot_ok :: "Snapshot \<Rightarrow> ('k, 'v) VersionTable \<Rightarrow> bool" where
  "snapshot_ok s t \<longleftrightarrow>
    (\<forall>k. \<forall>e \<in> set (chain_at t k). ve_txn e \<in> set (sn_InFlight s) \<longrightarrow>
       ve_seq e = 0 \<or> sn_ReadSeq s < ve_seq e)"

lemma fresh_seq: "sn_ReadSeq s < seq \<Longrightarrow> seq \<noteq> 0"
  by auto

lemma snapshot_ok_step:
  assumes "foreign_step s t t'" and "snapshot_ok s t"
  shows "snapshot_ok s t'"
  using assms(1)
proof cases
  case (fs_stage txn key val tomb)
  then show ?thesis using assms(2) by (auto simp: snapshot_ok_def mvcc_simps)
next
  case (fs_commit txn seq)
  then show ?thesis
    using assms(2) fresh_seq [OF fs_commit(3)] by (auto simp: snapshot_ok_def mvcc_simps stamp_def)
next
  case (fs_abort txn)
  then show ?thesis using assms(2) by (auto simp: snapshot_ok_def mvcc_simps)
next
  case (fs_gc w)
  then show ?thesis using assms(2) set_chain_at_GC [of t w] unfolding snapshot_ok_def by blast
qed

lemma Visible_step:
  assumes "foreign_step s t t'" and "snapshot_ok s t"
  shows "Visible t' k s = Visible t k s"
  using assms(1)
proof cases
  case (fs_stage txn key val tomb)
  then show ?thesis by (simp add: Visible_read mvcc_simps IsVisible_def)
next
  case (fs_commit txn seq)
  have "visible_in s (map (stamp txn seq) (chain_at t k)) = visible_in s (chain_at t k)"
    using fs_commit by (intro visible_in_map) (auto simp: stamp_def IsVisible_def)
  then show ?thesis using fs_commit fresh_seq [OF fs_commit(3)] by (simp add: Visible_read mvcc_simps)
next
  case (fs_abort txn)
  have "visible_in s (filter (settled txn) (chain_at t k)) = visible_in s (chain_at t k)"
    using fs_abort by (intro visible_in_filter) (auto simp: settled_def IsVisible_def split: if_splits)
  then show ?thesis using fs_abort by (simp add: Visible_read mvcc_simps)
next
  case (fs_gc w)
  then show ?thesis
    using assms(2) by (simp add: Visible_read mvcc_simps read_gc_chain snapshot_ok_def)
qed

text \<open>C7: snapshot isolation: whatever other transactions stage, commit above the read point or
  abort, and however collection runs at watermarks not above the read point, in any order,
  every read of an open snapshot keeps its answer.\<close>

theorem snapshot_stable:
  assumes "(foreign_step s)\<^sup>*\<^sup>* t t'" and "snapshot_ok s t"
  shows "Visible t' k s = Visible t k s"
proof -
  have "snapshot_ok s t' \<and> (\<forall>k. Visible t' k s = Visible t k s)"
    using assms by (induction rule: rtranclp_induct) (auto simp: Visible_step dest: snapshot_ok_step)
  then show ?thesis by simp
qed

theorem snapshot_stable_witness:
  "let s = \<lparr>sn_ReadSeq = 5, sn_TxnID = 9, sn_InFlight = [2]\<rparr>;
       t = Commit (Stage NewVersionTable (7 :: nat) 1 ''old'' False) 1 4;
       t' = GC (Commit (Stage t 7 2 ''new'' False) 2 6) 5
   in Visible t' 7 s = Some ''old''"
proof -
  let ?s = "\<lparr>sn_ReadSeq = 5, sn_TxnID = 9, sn_InFlight = [2]\<rparr>"
  let ?t = "Commit (Stage NewVersionTable (7 :: nat) 1 ''old'' False) 1 4"
  let ?t1 = "Stage ?t 7 2 ''new'' False" and ?t2 = "Commit (Stage ?t 7 2 ''new'' False) 2 6"
  have "foreign_step ?s ?t ?t1" "foreign_step ?s ?t1 ?t2" "foreign_step ?s ?t2 (GC ?t2 5)"
    by (rule fs_stage fs_commit fs_gc; simp)+
  then have steps: "(foreign_step ?s)\<^sup>*\<^sup>* ?t (GC ?t2 5)"
    by (intro rtranclp.rtrancl_into_rtrancl [OF rtranclp.rtrancl_into_rtrancl
          [OF rtranclp.rtrancl_into_rtrancl [OF rtranclp.rtrancl_refl]]])
  have ch: "chain_at ?t k = (if k = 7 then [\<lparr>ve_seq = 4, ve_txn = 1, ve_val = ''old'', ve_tomb = False\<rparr>] else [])" for k
    by (simp add: mvcc_simps stamp_def) (simp add: chain_at_def staged_by_def NewVersionTable_def)
  then have "snapshot_ok ?s ?t" by (simp add: snapshot_ok_def)
  then have "Visible (GC ?t2 5) 7 ?s = Visible ?t 7 ?s" by (rule snapshot_stable [OF steps])
  moreover have "Visible ?t 7 ?s = Some ''old''" by (simp add: Visible_def ch IsVisible_def)
  ultimately show ?thesis by (simp only: Let_def)
qed

end
