(* ===== verification/Mvcc_Store.thy ===== *)
theory Mvcc_Store
  imports Mvcc
begin

text \<open>
  The typed chains of \<^verbatim>\<open>src/mvcc/typed.go\<close>: vectors, metadata cells and the id map.  The contract
  they share is the locale \<open>version_store\<close>; the transaction laws (a writer reads its own
  writes, a commit publishes them all at once, an abort leaves nothing) are proved once
  inside it and hold of each facade by interpretation.
\<close>

section \<open>Transactions on one table\<close>

text \<open>A transaction is unused if no version carries its id, and active if all its versions are
  in flight and recorded as staged.\<close>

definition unused :: "('k, 'v) VersionTable \<Rightarrow> TxnID \<Rightarrow> bool" where
  "unused t txn \<longleftrightarrow> (\<forall>k. \<forall>e \<in> set (chain_at t k). ve_txn e \<noteq> txn)"

definition active :: "('k, 'v) VersionTable \<Rightarrow> TxnID \<Rightarrow> bool" where
  "active t txn \<longleftrightarrow>
    (\<forall>k. \<forall>e \<in> set (chain_at t k). ve_txn e = txn \<longrightarrow> ve_seq e = 0 \<and> k \<in> set (staged_by t txn))"

definition foreign_to :: "Snapshot \<Rightarrow> TxnID \<Rightarrow> bool" where
  "foreign_to s txn \<longleftrightarrow> sn_TxnID s \<noteq> txn \<and> txn \<notin> set (sn_InFlight s)"

lemma unused_active: "unused t txn \<Longrightarrow> active t txn"
  by (auto simp: unused_def active_def)

lemma active_Stage: "active t txn \<Longrightarrow> active (Stage t k txn v b) txn"
  by (auto simp: active_def mvcc_simps)

lemma unused_Stage: "unused t r \<Longrightarrow> r \<noteq> txn \<Longrightarrow> unused (Stage t k txn v b) r"
  by (auto simp: unused_def mvcc_simps)

lemma visible_in_cong:
  "(\<And>e. e \<in> set es \<Longrightarrow> sees s e = sees s' e) \<Longrightarrow> visible_in s es = visible_in s' es"
  by (induction es) auto

lemma Visible_Stage_own:
  "sn_TxnID s = txn \<Longrightarrow> Visible (Stage t k txn v b) k' s =
     (if k' = k then if b then None else Some v else Visible t k' s)"
  by (simp add: Visible_def mvcc_simps IsVisible_def)

lemma Visible_Stage_other:
  "sn_TxnID s \<noteq> txn \<Longrightarrow> Visible (Stage t k txn v b) k' s = Visible t k' s"
  by (simp add: Visible_def mvcc_simps IsVisible_def)

lemma Visible_Commit_below:
  assumes "sn_TxnID s \<noteq> txn" and "sn_ReadSeq s < seq" and "active t txn"
  shows "Visible (Commit t txn seq) k s = Visible t k s"
proof -
  have "seq \<noteq> 0" using assms(2) by auto
  moreover have "visible_in s (map (stamp txn seq) (chain_at t k)) = visible_in s (chain_at t k)"
    using assms(1,2) by (intro visible_in_map) (auto simp: stamp_def IsVisible_def)
  ultimately show ?thesis by (simp add: Visible_read mvcc_simps)
qed

text \<open>A reader at or above the commit sequence reads what the committer read of itself.\<close>

lemma visible_in_stamped:
  assumes "\<And>e. e \<in> set es \<Longrightarrow> (ve_txn e = txn \<longrightarrow> ve_seq e = 0) \<and> ve_txn e \<noteq> sn_TxnID s"
    and "txn \<notin> set (sn_InFlight s)" and "seq \<noteq> 0" and "seq \<le> sn_ReadSeq s"
  shows "read_entry (visible_in s (map (stamp txn seq) es))
       = read_entry (visible_in (s\<lparr>sn_TxnID := txn\<rparr>) es)"
  using assms(1)
proof (induction es)
  case (Cons e es)
  have e: "ve_txn e = txn \<longrightarrow> ve_seq e = 0" "ve_txn e \<noteq> sn_TxnID s" using Cons.prems by auto
  have "sees s (stamp txn seq e) = sees (s\<lparr>sn_TxnID := txn\<rparr>) e"
    using e assms(2-4) by (auto simp: stamp_def IsVisible_def)
  moreover have "read_entry (Some (stamp txn seq e)) = read_entry (Some e)"
    by (simp add: stamp_def read_entry_def)
  ultimately show ?case using Cons by simp
qed simp

lemma Visible_Commit_above:
  assumes "foreign_to s txn" and "unused t (sn_TxnID s)" and "active t txn"
    and "seq \<noteq> 0" and "seq \<le> sn_ReadSeq s"
  shows "Visible (Commit t txn seq) k s = Visible t k (s\<lparr>sn_TxnID := txn\<rparr>)"
proof -
  have *: "read_entry (visible_in s (map (stamp txn seq) (chain_at t k)))
      = read_entry (visible_in (s\<lparr>sn_TxnID := txn\<rparr>) (chain_at t k))"
    using assms by (intro visible_in_stamped) (auto simp: active_def unused_def foreign_to_def)
  have "map (stamp txn seq) (chain_at t k) = chain_at t k" if "k \<notin> set (staged_by t txn)"
    using that assms(3) by (intro map_idI) (auto simp: active_def stamp_def)
  with * show ?thesis using assms(4) by (auto simp: Visible_read mvcc_simps)
qed

lemma Visible_unused_owner:
  "unused t txn \<Longrightarrow> unused t (sn_TxnID s) \<Longrightarrow> Visible t k (s\<lparr>sn_TxnID := txn\<rparr>) = Visible t k s"
  unfolding Visible_read
  by (intro arg_cong [where f = read_entry] visible_in_cong) (auto simp: unused_def IsVisible_def)

lemma chain_at_Abort_active:
  "active t txn \<Longrightarrow> chain_at (Abort t txn) k = filter (settled txn) (chain_at t k)"
proof -
  assume "active t txn"
  then have "filter (settled txn) (chain_at t k) = chain_at t k" if "k \<notin> set (staged_by t txn)"
    using that by (intro filter_True) (auto simp: active_def settled_def)
  then show ?thesis by (auto simp: mvcc_simps)
qed

lemma Visible_Abort_unused: "unused t txn \<Longrightarrow> Visible (Abort t txn) k s = Visible t k s"
proof -
  assume u: "unused t txn"
  then have "filter (settled txn) (chain_at t k) = chain_at t k"
    by (intro filter_True) (auto simp: unused_def settled_def)
  then show ?thesis
    by (simp add: Visible_read chain_at_Abort_active [OF unused_active [OF u]])
qed

lemma Visible_Abort_Stage:
  "active t txn \<Longrightarrow> Visible (Abort (Stage t k txn v b) txn) k' s = Visible (Abort t txn) k' s"
  by (simp add: Visible_read chain_at_Abort_active active_Stage chain_at_Stage settled_def)

section \<open>The contract of a versioned store\<close>

locale version_store =
  fixes get :: "'t \<Rightarrow> 'k \<Rightarrow> Snapshot \<Rightarrow> 'v option"
    and put :: "'k \<times> 'v option \<Rightarrow> TxnID \<Rightarrow> 't \<Rightarrow> 't"
    and commit :: "'t \<Rightarrow> TxnID \<Rightarrow> CommitSeq \<Rightarrow> 't"
    and abort :: "'t \<Rightarrow> TxnID \<Rightarrow> 't"
    and fresh :: "'t \<Rightarrow> TxnID \<Rightarrow> bool"
    and running :: "'t \<Rightarrow> TxnID \<Rightarrow> bool"
  assumes fresh_running: "fresh t txn \<Longrightarrow> running t txn"
    and write_running: "running t txn \<Longrightarrow> running (put w txn t) txn"
    and write_fresh: "fresh t r \<Longrightarrow> r \<noteq> txn \<Longrightarrow> fresh (put w txn t) r"
    and read_own: "sn_TxnID s = txn \<Longrightarrow> get (put (k, v) txn t) k' s = (if k' = k then v else get t k' s)"
    and read_other: "sn_TxnID s \<noteq> txn \<Longrightarrow> get (put w txn t) k' s = get t k' s"
    and commit_below: "running t txn \<Longrightarrow> sn_TxnID s \<noteq> txn \<Longrightarrow> sn_ReadSeq s < seq \<Longrightarrow>
      get (commit t txn seq) k s = get t k s"
    and commit_above: "running t txn \<Longrightarrow> foreign_to s txn \<Longrightarrow> fresh t (sn_TxnID s) \<Longrightarrow> seq \<noteq> 0 \<Longrightarrow>
      seq \<le> sn_ReadSeq s \<Longrightarrow> get (commit t txn seq) k s = get t k (s\<lparr>sn_TxnID := txn\<rparr>)"
    and fresh_owner: "fresh t txn \<Longrightarrow> fresh t (sn_TxnID s) \<Longrightarrow> get t k (s\<lparr>sn_TxnID := txn\<rparr>) = get t k s"
    and abort_fresh: "fresh t txn \<Longrightarrow> get (abort t txn) k s = get t k s"
    and abort_write: "running t txn \<Longrightarrow> get (abort (put w txn t) txn) k s = get (abort t txn) k s"
begin

lemma script_running: "running t txn \<Longrightarrow> running (fold (\<lambda>w. put w txn) ws t) txn"
  by (induction ws arbitrary: t) (auto intro: write_running)

lemma script_fresh: "fresh t r \<Longrightarrow> r \<noteq> txn \<Longrightarrow> fresh (fold (\<lambda>w. put w txn) ws t) r"
  by (induction ws arbitrary: t) (auto intro: write_fresh)

lemma script_own:
  "sn_TxnID s = txn \<Longrightarrow> get (fold (\<lambda>w. put w txn) ws t) k s =
     (case map_of (rev ws) k of Some v \<Rightarrow> v | None \<Rightarrow> get t k s)"
proof (induction ws arbitrary: t)
  case (Cons w ws)
  then show ?case
    by (cases w) (auto simp: read_own map_add_def split: option.split)
qed simp

lemma script_other: "sn_TxnID s \<noteq> txn \<Longrightarrow> get (fold (\<lambda>w. put w txn) ws t) k s = get t k s"
  by (induction ws arbitrary: t) (auto simp: read_other)

lemma script_commit:
  assumes "fresh t txn" and "fresh t (sn_TxnID s)" and "foreign_to s txn" and "seq \<noteq> 0"
  shows "get (commit (fold (\<lambda>w. put w txn) ws t) txn seq) k s =
    (if seq \<le> sn_ReadSeq s then case map_of (rev ws) k of Some v \<Rightarrow> v | None \<Rightarrow> get t k s
     else get t k s)"
proof -
  let ?t = "fold (\<lambda>w. put w txn) ws t"
  have run: "running ?t txn" using assms(1) by (intro script_running fresh_running)
  have ne: "sn_TxnID s \<noteq> txn" using assms(3) by (simp add: foreign_to_def)
  have fr: "fresh ?t (sn_TxnID s)" using assms(2) ne by (rule script_fresh)
  show ?thesis
  proof (cases "seq \<le> sn_ReadSeq s")
    case True
    then have "get (commit ?t txn seq) k s = get ?t k (s\<lparr>sn_TxnID := txn\<rparr>)"
      using commit_above run assms(3,4) fr by blast
    also have "\<dots> = (case map_of (rev ws) k of Some v \<Rightarrow> v | None \<Rightarrow> get t k (s\<lparr>sn_TxnID := txn\<rparr>))"
      by (simp add: script_own)
    also have "get t k (s\<lparr>sn_TxnID := txn\<rparr>) = get t k s" using assms(1,2) by (rule fresh_owner)
    finally show ?thesis using True by simp
  next
    case False
    then show ?thesis
      using commit_below [OF run ne, of seq k] script_other [OF ne, of ws t k] by (auto simp: not_le)
  qed
qed

lemma script_abort:
  assumes "fresh t txn"
  shows "get (abort (fold (\<lambda>w. put w txn) ws t) txn) k s = get t k s"
proof -
  have "get (abort (fold (\<lambda>w. put w txn) ws u) txn) k s = get (abort u txn) k s"
    if "running u txn" for u
    using that by (induction ws arbitrary: u) (auto simp: write_running abort_write)
  then show ?thesis using assms by (simp add: fresh_running abort_fresh)
qed

end

text \<open>A write of a table: a value, or a tombstone carrying the zero value \<open>z\<close>.\<close>

definition table_write :: "'v \<Rightarrow> 'k \<times> 'v option \<Rightarrow> TxnID \<Rightarrow> ('k, 'v) VersionTable \<Rightarrow> ('k, 'v) VersionTable" where
  "table_write z = (\<lambda>(k, v) txn t. case v of Some x \<Rightarrow> Stage t k txn x False | None \<Rightarrow> Stage t k txn z True)"

lemma table_write_cases:
  obtains (val) k x where "w = (k, Some x)" and "table_write z w txn t = Stage t k txn x False"
  | (tomb) k where "w = (k, None)" and "table_write z w txn t = Stage t k txn z True"
  by (cases w; cases "snd w") (auto simp: table_write_def)

interpretation tab: version_store Visible "table_write z" Commit Abort unused active for z
proof
  fix t :: "('a, 'b) VersionTable" and txn r seq s k k' and w :: "'a \<times> 'b option" and v
  show "active t txn \<Longrightarrow> active (table_write z w txn t) txn"
    by (cases rule: table_write_cases [of w z txn t]) (auto intro: active_Stage)
  show "unused t r \<Longrightarrow> r \<noteq> txn \<Longrightarrow> unused (table_write z w txn t) r"
    by (cases rule: table_write_cases [of w z txn t]) (auto intro: unused_Stage)
  show "sn_TxnID s = txn \<Longrightarrow>
      Visible (table_write z (k, v) txn t) k' s = (if k' = k then v else Visible t k' s)"
    by (cases v) (auto simp: table_write_def Visible_Stage_own)
  show "sn_TxnID s \<noteq> txn \<Longrightarrow> Visible (table_write z w txn t) k' s = Visible t k' s"
    by (cases rule: table_write_cases [of w z txn t]) (auto simp: Visible_Stage_other)
  show "active t txn \<Longrightarrow> Visible (Abort (table_write z w txn t) txn) k s = Visible (Abort t txn) k s"
    by (cases rule: table_write_cases [of w z txn t]) (auto simp: Visible_Abort_Stage)
qed (auto intro: unused_active Visible_Commit_below Visible_Commit_above Visible_unused_owner
    Visible_Abort_unused)

section \<open>Typed chains\<close>

type_synonym PointID = u64
type_synonym Position = u32

definition Unassigned :: u32 where "Unassigned = NOT 0"

text \<open>Vectors are lists of \<^verbatim>\<open>float32\<close> bit patterns; the nil slice is the empty list.\<close>

type_synonym VectorDelta = "(u32, u32 list) VersionTable"

definition VectorDelta_Put :: "VectorDelta \<Rightarrow> u32 \<Rightarrow> TxnID \<Rightarrow> u32 list \<Rightarrow> VectorDelta" where
  "VectorDelta_Put d pos txn data = Stage d pos txn data False"

definition VectorDelta_Delete :: "VectorDelta \<Rightarrow> u32 \<Rightarrow> TxnID \<Rightarrow> VectorDelta" where
  "VectorDelta_Delete d pos txn = Stage d pos txn [] True"

definition VectorDelta_Visible :: "VectorDelta \<Rightarrow> u32 \<Rightarrow> Snapshot \<Rightarrow> u32 list option" where
  "VectorDelta_Visible d pos s = Visible d pos s"

record MetaKey =
  mk_ColumnID :: u16
  mk_Position :: u32

text \<open>A cell holds a value of any type or nil (None).\<close>

type_synonym 'a MetaDelta = "(MetaKey, 'a option) VersionTable"

definition MetaDelta_Put :: "'a MetaDelta \<Rightarrow> u16 \<Rightarrow> u32 \<Rightarrow> TxnID \<Rightarrow> 'a option \<Rightarrow> 'a MetaDelta" where
  "MetaDelta_Put d col pos txn val = Stage d \<lparr>mk_ColumnID = col, mk_Position = pos\<rparr> txn val False"

definition MetaDelta_Delete :: "'a MetaDelta \<Rightarrow> u16 \<Rightarrow> u32 \<Rightarrow> TxnID \<Rightarrow> 'a MetaDelta" where
  "MetaDelta_Delete d col pos txn = Stage d \<lparr>mk_ColumnID = col, mk_Position = pos\<rparr> txn None True"

definition MetaDelta_Visible :: "'a MetaDelta \<Rightarrow> u16 \<Rightarrow> u32 \<Rightarrow> Snapshot \<Rightarrow> 'a option option" where
  "MetaDelta_Visible d col pos s =
    (case VisibleEntry d \<lparr>mk_ColumnID = col, mk_Position = pos\<rparr> s of
       None \<Rightarrow> None | Some (v, tomb) \<Rightarrow> if tomb then None else Some v)"

record IDMap =
  im_forward :: "(PointID, u32) VersionTable"
  im_reverse :: "(u32, PointID) VersionTable"

definition NewIDMap :: IDMap where
  "NewIDMap = \<lparr>im_forward = NewVersionTable, im_reverse = NewVersionTable\<rparr>"

definition IDMap_Assign :: "IDMap \<Rightarrow> PointID \<Rightarrow> u32 \<Rightarrow> TxnID \<Rightarrow> IDMap" where
  "IDMap_Assign m pid pos txn =
    m\<lparr>im_forward := Stage (im_forward m) pid txn pos False,
      im_reverse := Stage (im_reverse m) pos txn pid False\<rparr>"

definition IDMap_Delete :: "IDMap \<Rightarrow> PointID \<Rightarrow> u32 \<Rightarrow> TxnID \<Rightarrow> IDMap" where
  "IDMap_Delete m pid pos txn =
    m\<lparr>im_forward := Stage (im_forward m) pid txn Unassigned True,
      im_reverse := Stage (im_reverse m) pos txn pid True\<rparr>"

definition IDMap_Lookup :: "IDMap \<Rightarrow> PointID \<Rightarrow> Snapshot \<Rightarrow> u32 option" where
  "IDMap_Lookup m pid s = Visible (im_forward m) pid s"

definition IDMap_Reverse :: "IDMap \<Rightarrow> u32 \<Rightarrow> Snapshot \<Rightarrow> PointID option" where
  "IDMap_Reverse m pos s = Visible (im_reverse m) pos s"

definition IDMap_Commit :: "IDMap \<Rightarrow> TxnID \<Rightarrow> CommitSeq \<Rightarrow> IDMap" where
  "IDMap_Commit m txn seq =
    m\<lparr>im_forward := Commit (im_forward m) txn seq, im_reverse := Commit (im_reverse m) txn seq\<rparr>"

definition IDMap_Abort :: "IDMap \<Rightarrow> TxnID \<Rightarrow> IDMap" where
  "IDMap_Abort m txn = m\<lparr>im_forward := Abort (im_forward m) txn, im_reverse := Abort (im_reverse m) txn\<rparr>"

definition IDMap_GC :: "IDMap \<Rightarrow> CommitSeq \<Rightarrow> IDMap" where
  "IDMap_GC m w = m\<lparr>im_forward := GC (im_forward m) w, im_reverse := GC (im_reverse m) w\<rparr>"

text \<open>The metadata chain answers like the table: found and not a tombstone.\<close>

definition meta_read :: "'a MetaDelta \<Rightarrow> u16 \<times> u32 \<Rightarrow> Snapshot \<Rightarrow> 'a option option" where
  "meta_read d = (\<lambda>(col, pos). MetaDelta_Visible d col pos)"

definition meta_write :: "(u16 \<times> u32) \<times> 'a option option \<Rightarrow> TxnID \<Rightarrow> 'a MetaDelta \<Rightarrow> 'a MetaDelta" where
  "meta_write = (\<lambda>((col, pos), v) txn d.
     case v of Some x \<Rightarrow> MetaDelta_Put d col pos txn x | None \<Rightarrow> MetaDelta_Delete d col pos txn)"

lemma meta_read_table: "meta_read d (col, pos) = Visible d \<lparr>mk_ColumnID = col, mk_Position = pos\<rparr>"
  by (intro ext)
    (simp add: meta_read_def MetaDelta_Visible_def VisibleEntry_def Visible_def split: option.split)

lemma meta_write_table:
  "meta_write ((col, pos), v) = table_write None (\<lparr>mk_ColumnID = col, mk_Position = pos\<rparr>, v)"
  by (intro ext)
    (simp add: meta_write_def table_write_def MetaDelta_Put_def MetaDelta_Delete_def split: option.split)

interpretation meta: version_store meta_read meta_write Commit Abort unused active
  by unfold_locales
    (auto simp: meta_read_table meta_write_table split_paired_all tab.fresh_running tab.write_running
      tab.write_fresh tab.read_own tab.read_other tab.commit_below tab.commit_above tab.fresh_owner
      tab.abort_fresh tab.abort_write)

definition vec_write :: "u32 \<times> u32 list option \<Rightarrow> TxnID \<Rightarrow> VectorDelta \<Rightarrow> VectorDelta" where
  "vec_write = (\<lambda>(pos, v) txn d.
     case v of Some x \<Rightarrow> VectorDelta_Put d pos txn x | None \<Rightarrow> VectorDelta_Delete d pos txn)"

lemma vec_write_table: "vec_write = table_write []"
  by (intro ext)
    (simp add: vec_write_def table_write_def VectorDelta_Put_def VectorDelta_Delete_def
      split: option.split prod.split)

interpretation vec: version_store VectorDelta_Visible vec_write Commit Abort unused active
  unfolding vec_write_table VectorDelta_Visible_def [abs_def] by (rule tab.version_store_axioms)

section \<open>Properties\<close>

text \<open>C23: a transaction on the vector chain is atomic: while it runs it reads its own latest
  writes; after its commit a reader below the commit sequence sees none of them and a
  reader at or above it sees them all, the last write of each position winning; after an
  abort every reader, the writer included, reads what it read before.\<close>

theorem vector_txn_atomic:
  assumes "unused d txn" and "unused d (sn_TxnID s)" and "foreign_to s txn" and "seq \<noteq> 0"
    and "d' = fold (\<lambda>w. vec_write w txn) ws d"
  shows "VectorDelta_Visible d' pos (s\<lparr>sn_TxnID := txn\<rparr>) =
      (case map_of (rev ws) pos of Some v \<Rightarrow> v | None \<Rightarrow> VectorDelta_Visible d pos s) \<and>
    VectorDelta_Visible (Commit d' txn seq) pos s =
      (if seq \<le> sn_ReadSeq s
       then case map_of (rev ws) pos of Some v \<Rightarrow> v | None \<Rightarrow> VectorDelta_Visible d pos s
       else VectorDelta_Visible d pos s) \<and>
    VectorDelta_Visible (Abort d' txn) pos r = VectorDelta_Visible d pos r"
  using vec.script_own [of "s\<lparr>sn_TxnID := txn\<rparr>" txn ws d pos]
    vec.script_commit [OF assms(1-4), of ws pos] vec.script_abort [OF assms(1), of ws pos r]
    vec.fresh_owner [OF assms(1,2), of pos]
  by (simp add: assms(5) split: option.split)

theorem vector_txn_atomic_witness:
  "let d = fold (\<lambda>w. vec_write w 3) [(1, Some [5]), (2, None), (1, Some [6])] NewVersionTable
   in VectorDelta_Visible (Commit d 3 8) 1 \<lparr>sn_ReadSeq = 8, sn_TxnID = 4, sn_InFlight = []\<rparr> = Some [6]
    \<and> VectorDelta_Visible (Commit d 3 8) 1 \<lparr>sn_ReadSeq = 7, sn_TxnID = 4, sn_InFlight = []\<rparr> = None"
proof -
  let ?ws = "[(1, Some [5]), (2, None), (1, Some [6])] :: (u32 \<times> u32 list option) list"
  have "unused (NewVersionTable :: VectorDelta) txn" for txn
    by (simp add: unused_def chain_at_def NewVersionTable_def)
  moreover have "VectorDelta_Visible NewVersionTable 1 s = None" for s
    by (simp add: VectorDelta_Visible_def Visible_def chain_at_def NewVersionTable_def)
  ultimately show ?thesis
    using vector_txn_atomic [of NewVersionTable 3 "\<lparr>sn_ReadSeq = 8, sn_TxnID = 4, sn_InFlight = []\<rparr>" 8 _ ?ws 1]
      vector_txn_atomic [of NewVersionTable 3 "\<lparr>sn_ReadSeq = 7, sn_TxnID = 4, sn_InFlight = []\<rparr>" 8 _ ?ws 1]
    by (simp add: foreign_to_def Let_def)
qed

text \<open>The id map is a bijection for a snapshot if its two sides agree.\<close>

definition id_agree :: "IDMap \<Rightarrow> Snapshot \<Rightarrow> bool" where
  "id_agree m s \<longleftrightarrow> (\<forall>pid pos. IDMap_Lookup m pid s = Some pos \<longleftrightarrow> IDMap_Reverse m pos s = Some pid)"

text \<open>The writer assigns ids and positions that are free in its own view, and deletes pairs
  that are assigned there.\<close>

inductive id_step :: "Snapshot \<Rightarrow> IDMap \<Rightarrow> IDMap \<Rightarrow> bool" for w where
  id_assign: "IDMap_Lookup m pid w = None \<Longrightarrow> IDMap_Reverse m pos w = None \<Longrightarrow>
    id_step w m (IDMap_Assign m pid pos (sn_TxnID w))"
| id_delete: "IDMap_Lookup m pid w = Some pos \<Longrightarrow>
    id_step w m (IDMap_Delete m pid pos (sn_TxnID w))"

lemma id_step_agree: "id_step w m m' \<Longrightarrow> id_agree m w \<Longrightarrow> id_agree m' w"
proof (induction rule: id_step.induct)
  case (id_assign m pid pos)
  then have "Visible (im_reverse m) p w \<noteq> Some pid" "Visible (im_forward m) i w \<noteq> Some pos" for p i
    by (metis id_agree_def IDMap_Lookup_def IDMap_Reverse_def option.distinct(1))+
  with id_assign show ?case
    by (auto simp: id_agree_def IDMap_Assign_def IDMap_Lookup_def IDMap_Reverse_def Visible_Stage_own)
next
  case (id_delete m pid pos)
  then have "Visible (im_reverse m) p w = Some pid \<longleftrightarrow> p = pos"
    "Visible (im_forward m) i w = Some pos \<longleftrightarrow> i = pid" for p i
    by (metis id_agree_def IDMap_Lookup_def IDMap_Reverse_def option.inject)+
  with id_delete show ?case
    by (auto simp: id_agree_def IDMap_Delete_def IDMap_Lookup_def IDMap_Reverse_def Visible_Stage_own)
qed

definition all_seqs :: "(CommitSeq \<Rightarrow> bool) \<Rightarrow> ('k, 'v) VersionTable \<Rightarrow> bool" where
  "all_seqs P t \<longleftrightarrow> (\<forall>k. \<forall>e \<in> set (chain_at t k). P (ve_seq e))"

text \<open>The single-writer discipline: all committed versions are within the writer's read point,
  the writer is active and the reader's id is not in use.\<close>

definition id_ready :: "Snapshot \<Rightarrow> Snapshot \<Rightarrow> IDMap \<Rightarrow> bool" where
  "id_ready w s m \<longleftrightarrow>
     active (im_forward m) (sn_TxnID w) \<and> active (im_reverse m) (sn_TxnID w) \<and>
     unused (im_forward m) (sn_TxnID s) \<and> unused (im_reverse m) (sn_TxnID s) \<and>
     all_seqs (\<lambda>q. q \<le> sn_ReadSeq w) (im_forward m) \<and> all_seqs (\<lambda>q. q \<le> sn_ReadSeq w) (im_reverse m)"

lemma id_step_ready:
  "id_step w m m' \<Longrightarrow> sn_TxnID s \<noteq> sn_TxnID w \<Longrightarrow> id_ready w s m \<Longrightarrow> id_ready w s m'"
  by (induction rule: id_step.induct)
    (auto simp: id_ready_def IDMap_Assign_def IDMap_Delete_def active_Stage unused_Stage all_seqs_def
      chain_at_Stage)

lemma id_step_old_reader:
  "id_step w m m' \<Longrightarrow> sn_TxnID s \<noteq> sn_TxnID w \<Longrightarrow>
     IDMap_Lookup m' pid s = IDMap_Lookup m pid s \<and> IDMap_Reverse m' pos s = IDMap_Reverse m pos s"
  by (induction rule: id_step.induct)
    (auto simp: IDMap_Assign_def IDMap_Delete_def IDMap_Lookup_def IDMap_Reverse_def Visible_Stage_other)

lemma Visible_as_writer:
  assumes "all_seqs (\<lambda>q. q \<le> sn_ReadSeq w) t" and "sn_ReadSeq w \<le> sn_ReadSeq s"
    and "sn_InFlight w = []" and "sn_InFlight s = []"
  shows "Visible t k (s\<lparr>sn_TxnID := sn_TxnID w\<rparr>) = Visible t k w"
  unfolding Visible_read
  using assms by (intro arg_cong [where f = read_entry] visible_in_cong) (force simp: all_seqs_def IsVisible_def)

text \<open>C24: the id map stays a bijection: if its two sides agree, a writer that assigns ids and
  positions free in its view and deletes assigned pairs, in any order, and then commits,
  leaves them in agreement for itself and for every reader, old or new.\<close>

theorem idmap_bijection:
  assumes "(id_step w)\<^sup>*\<^sup>* m m'" and "id_ready w s m" and "id_agree m w" and "id_agree m s"
    and "sn_TxnID s \<noteq> sn_TxnID w" and "sn_InFlight w = []" and "sn_InFlight s = []"
    and "sn_ReadSeq w < seq"
  shows "id_agree m' w \<and> id_agree (IDMap_Commit m' (sn_TxnID w) seq) s"
proof -
  have r: "id_ready w s m' \<and> id_agree m' w \<and> id_agree m' s"
    using assms(1-4)
  proof (induction rule: rtranclp_induct)
    case (step y z)
    then show ?case
      using id_step_ready [OF step.hyps(2) assms(5)] id_step_agree [OF step.hyps(2)]
        id_step_old_reader [OF step.hyps(2) assms(5)] by (simp add: id_agree_def)
  qed simp
  have "foreign_to s (sn_TxnID w)" using assms(5,7) by (simp add: foreign_to_def)
  then have "id_agree (IDMap_Commit m' (sn_TxnID w) seq) s"
  proof (cases "sn_ReadSeq s < seq")
    case True
    then show ?thesis
      using r assms(5) by (simp add: id_agree_def id_ready_def IDMap_Commit_def IDMap_Lookup_def
          IDMap_Reverse_def Visible_Commit_below)
  next
    case False
    then have le: "seq \<le> sn_ReadSeq s" "sn_ReadSeq w \<le> sn_ReadSeq s" "seq \<noteq> 0" using assms(8) by auto
    with r \<open>foreign_to s (sn_TxnID w)\<close> assms(6,7) show ?thesis
      by (simp add: id_agree_def id_ready_def IDMap_Commit_def IDMap_Lookup_def
          IDMap_Reverse_def Visible_Commit_above Visible_as_writer)
  qed
  with r show ?thesis by simp
qed

theorem idmap_bijection_witness:
  "let w = \<lparr>sn_ReadSeq = 0, sn_TxnID = 1, sn_InFlight = []\<rparr>;
       s = \<lparr>sn_ReadSeq = 1, sn_TxnID = 2, sn_InFlight = []\<rparr>
   in id_agree (IDMap_Commit (IDMap_Assign NewIDMap 77 0 1) 1 1) s"
proof -
  let ?w = "\<lparr>sn_ReadSeq = 0, sn_TxnID = 1, sn_InFlight = []\<rparr>"
  let ?s = "\<lparr>sn_ReadSeq = 1, sn_TxnID = 2, sn_InFlight = []\<rparr>"
  have empty: "IDMap_Lookup NewIDMap pid s = None" "IDMap_Reverse NewIDMap pos s = None" for pid pos s
    by (simp_all add: IDMap_Lookup_def IDMap_Reverse_def Visible_def chain_at_def NewIDMap_def
        NewVersionTable_def)
  have "id_step ?w NewIDMap (IDMap_Assign NewIDMap 77 0 (sn_TxnID ?w))"
    by (rule id_assign) (rule empty)+
  then have "(id_step ?w)\<^sup>*\<^sup>* NewIDMap (IDMap_Assign NewIDMap 77 0 1)" by auto
  moreover have "id_ready ?w ?s NewIDMap"
    by (simp add: id_ready_def active_def unused_def all_seqs_def chain_at_def NewIDMap_def
        NewVersionTable_def)
  moreover have "id_agree NewIDMap x" for x by (simp add: id_agree_def empty)
  ultimately show ?thesis using idmap_bijection [of ?w NewIDMap _ ?s 1] by simp
qed

end
