(* ===== verification/Mvcc_Conflict.thy ===== *)
theory Mvcc_Conflict
  imports Mvcc_Store "HOL-Library.AList"
begin

text \<open>
  The concurrent-writer path of \<^verbatim>\<open>src/mvcc\<close>: the watermark oracle of \<^verbatim>\<open>oracle.go\<close>, write sets and
  the ring of committed write sets of \<^verbatim>\<open>conflict.go\<close>, and the writer lock of \<^verbatim>\<open>writerlock.go\<close>.
  The oracle's map is an association list, because the code iterates it.
\<close>

section \<open>Watermark oracle\<close>

record WatermarkOracle =
  wo_live :: "(TxnID \<times> CommitSeq) list"
  wo_current :: Clock

definition NewWatermarkOracle :: "Clock \<Rightarrow> WatermarkOracle" where
  "NewWatermarkOracle clk = \<lparr>wo_live = [], wo_current = clk\<rparr>"

definition Register :: "WatermarkOracle \<Rightarrow> TxnID \<Rightarrow> CommitSeq \<Rightarrow> WatermarkOracle" where
  "Register w txnID readSeq = w\<lparr>wo_live := AList.update txnID readSeq (wo_live w)\<rparr>"

definition Deregister :: "WatermarkOracle \<Rightarrow> TxnID \<Rightarrow> WatermarkOracle" where
  "Deregister w txnID = w\<lparr>wo_live := AList.delete txnID (wo_live w)\<rparr>"

definition min_seq :: "CommitSeq \<Rightarrow> (TxnID \<times> CommitSeq) list \<Rightarrow> CommitSeq" where
  "min_seq m live = foldl (\<lambda>m (_, r). if r < m then r else m) m live"

definition Watermark :: "WatermarkOracle \<Rightarrow> CommitSeq" where
  "Watermark w =
    (let m = min_seq (- 1) (wo_live w) in if m = - 1 then Current (wo_current w) else m)"

lemma min_seq_simps [simp]:
  "min_seq m [] = m" "min_seq m ((t, r) # live) = min_seq (min r m) live"
  by (auto simp: min_seq_def min_def not_less intro!: arg_cong [where f = "\<lambda>m. foldl _ m live"])

lemma min_seq_le: "min_seq m live \<le> m"
proof (induction live arbitrary: m)
  case (Cons x live)
  show ?case by (cases x) (use Cons.IH [of "min (snd x) m"] in auto)
qed simp

lemma min_seq_bound: "(t, r) \<in> set live \<Longrightarrow> min_seq m live \<le> r"
proof (induction live arbitrary: m)
  case (Cons x live)
  then show ?case
    by (cases x) (use min_seq_le [of "min r m" live] in auto)
qed simp

lemma min_seq_mem: "min_seq m live = m \<or> min_seq m live \<in> snd ` set live"
proof (induction live arbitrary: m)
  case (Cons x live)
  then show ?case by (cases x) (use Cons.IH [of "min (snd x) m"] in \<open>auto simp: min_def split: if_splits\<close>)
qed simp

lemma Watermark_bound:
  assumes "(t, r) \<in> set (wo_live w)" and "r \<noteq> - 1"
  shows "Watermark w = min_seq (- 1) (wo_live w)" and "Watermark w \<le> r"
    and "Watermark w \<in> snd ` set (wo_live w)"
proof -
  have le: "min_seq (- 1) (wo_live w) \<le> r" using assms(1) by (rule min_seq_bound)
  then have ne: "min_seq (- 1) (wo_live w) \<noteq> - 1"
    using assms(2) by (metis word_order.extremum_unique)
  then show wm: "Watermark w = min_seq (- 1) (wo_live w)" by (simp add: Watermark_def)
  show "Watermark w \<le> r" using wm le by simp
  show "Watermark w \<in> snd ` set (wo_live w)" using wm ne min_seq_mem [of "- 1" "wo_live w"] by simp
qed

text \<open>The watermark is the lowest read point of the live snapshots: it bounds each of them,
  and it is one of them or, when none is live below the top sequence, the clock's current
  sequence.\<close>

lemma watermark_least:
  assumes "(txn, r) \<in> set (wo_live w)" and "r \<noteq> - 1"
  shows "Watermark w \<le> r \<and> Watermark w \<in> snd ` set (wo_live w)"
  using Watermark_bound [OF assms] by simp

lemma watermark_least_instance:
  "Watermark (Register (Register (NewWatermarkOracle (NewClock 9)) 1 7) 2 5) \<le> 7"
  using watermark_least [of 1 7 "Register (Register (NewWatermarkOracle (NewClock 9)) 1 7) 2 5"]
  by (simp add: Register_def NewWatermarkOracle_def)

text \<open>C25: collection at the oracle's watermark is invisible: it changes no read of any registered
  snapshot.\<close>

theorem gc_at_watermark:
  assumes "(sn_TxnID s, sn_ReadSeq s) \<in> set (wo_live w)" and "sn_ReadSeq s \<noteq> - 1"
    and "snapshot_ok s t"
  shows "Visible (GC t (Watermark w)) k s = Visible t k s"
  using Visible_step [OF fs_gc assms(3)] Watermark_bound(2) [OF assms(1,2)] by blast

theorem gc_at_watermark_witness:
  "let s = \<lparr>sn_ReadSeq = 4, sn_TxnID = 2, sn_InFlight = []\<rparr>;
       w = Register (NewWatermarkOracle (NewClock 9)) 2 4;
       t = Commit (Stage (Commit (Stage NewVersionTable 0 1 ''a'' False) 1 4) (0 :: nat) 3 ''b'' False) 3 6
   in Visible (GC t (Watermark w)) 0 s = Some ''a''"
proof -
  let ?s = "\<lparr>sn_ReadSeq = 4, sn_TxnID = 2, sn_InFlight = []\<rparr>"
  let ?w = "Register (NewWatermarkOracle (NewClock 9)) 2 4"
  let ?t = "Commit (Stage (Commit (Stage NewVersionTable 0 1 ''a'' False) 1 4) (0 :: nat) 3 ''b'' False) 3 6"
  have "Visible (GC ?t (Watermark ?w)) 0 ?s = Visible ?t 0 ?s"
    by (rule gc_at_watermark) (simp_all add: Register_def NewWatermarkOracle_def snapshot_ok_def)
  moreover have "Visible ?t 0 ?s = Some ''a''"
    by (simp add: Visible_def mvcc_simps stamp_def IsVisible_def)
  ultimately show ?thesis by (simp only: Let_def)
qed

section \<open>Write sets and the committed ring\<close>

record WriteSet =
  ws_ModifiedPointIDs :: "PointID set"
  ws_InsertedPositions :: "u32 list"

definition NewWriteSet :: WriteSet where
  "NewWriteSet = \<lparr>ws_ModifiedPointIDs = {}, ws_InsertedPositions = []\<rparr>"

definition MarkModified :: "WriteSet \<Rightarrow> PointID \<Rightarrow> WriteSet" where
  "MarkModified ws pid = ws\<lparr>ws_ModifiedPointIDs := insert pid (ws_ModifiedPointIDs ws)\<rparr>"

definition MarkInserted :: "WriteSet \<Rightarrow> u32 \<Rightarrow> WriteSet" where
  "MarkInserted ws pos = ws\<lparr>ws_InsertedPositions := ws_InsertedPositions ws @ [pos]\<rparr>"

definition ConflictsWith :: "WriteSet \<Rightarrow> WriteSet \<Rightarrow> bool" where
  "ConflictsWith ws other =
    (let (a, b) = (if card (ws_ModifiedPointIDs other) < card (ws_ModifiedPointIDs ws)
                   then (other, ws) else (ws, other))
     in \<exists>pid \<in> ws_ModifiedPointIDs a. pid \<in> ws_ModifiedPointIDs b)"

lemma ConflictsWith_iff:
  "ConflictsWith ws other \<longleftrightarrow> ws_ModifiedPointIDs ws \<inter> ws_ModifiedPointIDs other \<noteq> {}"
  by (auto simp: ConflictsWith_def)

record committedWrite =
  cw_txn :: TxnID
  cw_seq :: CommitSeq
  cw_writeSet :: WriteSet

type_synonym CommittedRing = "committedWrite list"

datatype mvcc_error = ErrWriteConflict TxnID | ErrSnapshotExpired

definition Record :: "CommittedRing \<Rightarrow> TxnID \<Rightarrow> CommitSeq \<Rightarrow> WriteSet \<Rightarrow> CommittedRing" where
  "Record r txn seq ws = r @ [\<lparr>cw_txn = txn, cw_seq = seq, cw_writeSet = ws\<rparr>]"

fun validate_loop :: "CommitSeq \<Rightarrow> WriteSet \<Rightarrow> committedWrite list \<Rightarrow> mvcc_error + unit" where
  "validate_loop readSeq ws [] = Inr ()"
| "validate_loop readSeq ws (c # cs) =
    (if cw_seq c \<le> readSeq then validate_loop readSeq ws cs
     else if ConflictsWith ws (cw_writeSet c) then Inl (ErrWriteConflict (cw_txn c))
     else validate_loop readSeq ws cs)"

definition Validate :: "CommittedRing \<Rightarrow> CommitSeq \<Rightarrow> WriteSet \<Rightarrow> mvcc_error + unit" where
  "Validate r readSeq ws =
    (if r \<noteq> [] \<and> readSeq + 1 < cw_seq (r ! 0) then Inl ErrSnapshotExpired
     else validate_loop readSeq ws r)"

definition Prune :: "CommittedRing \<Rightarrow> CommitSeq \<Rightarrow> CommittedRing" where
  "Prune r watermark = dropWhile (\<lambda>c. cw_seq c < watermark) r"

text \<open>The commit history: the clock numbers commits consecutively from \<open>start + 1\<close>.\<close>

definition numbered :: "nat \<Rightarrow> committedWrite list \<Rightarrow> bool" where
  "numbered start h \<longleftrightarrow>
    start + length h + 1 < 2 ^ 64 \<and> (\<forall>i < length h. unat (cw_seq (h ! i)) = start + 1 + i)"

lemma validate_loop_skip:
  "(\<And>c. c \<in> set pre \<Longrightarrow> cw_seq c \<le> readSeq) \<Longrightarrow> validate_loop readSeq ws (pre @ cs) = validate_loop readSeq ws cs"
  by (induction pre) auto

lemma validate_loop_ok:
  "validate_loop readSeq ws cs = Inr () \<longleftrightarrow>
    (\<forall>c \<in> set cs. readSeq < cw_seq c \<longrightarrow> \<not> ConflictsWith ws (cw_writeSet c))"
  by (induction cs) auto

lemma Prune_split:
  obtains pre where "h = pre @ Prune h w" and "\<forall>c \<in> set pre. cw_seq c < w"
  using takeWhile_dropWhile_id [of "\<lambda>c. cw_seq c < w" h] set_takeWhileD that
  by (metis Prune_def)

lemma Validate_pruned_head:
  assumes "numbered start h" and "start \<le> unat readSeq" and "w \<le> readSeq" and "Prune h w \<noteq> []"
    and "readSeq \<noteq> - 1"
  shows "cw_seq (Prune h w ! 0) \<le> readSeq + 1"
proof -
  obtain pre where h: "h = pre @ Prune h w" and pre: "\<forall>c \<in> set pre. cw_seq c < w"
    by (rule Prune_split)
  have len: "length pre < length h" using h assms(4) by (metis length_append length_greater_0_conv less_add_same_cancel1)
  have nth: "Prune h w ! 0 = h ! length pre" using h assms(4) by (metis nth_append_length_plus add.right_neutral)
  have seq: "unat (cw_seq (h ! length pre)) = start + 1 + length pre"
    using assms(1) len by (simp add: numbered_def)
  have "unat (cw_seq (h ! length pre)) \<le> unat readSeq + 1"
  proof (cases "length pre")
    case 0
    then show ?thesis using seq assms(2) by simp
  next
    case (Suc i)
    then have "h ! i \<in> set pre" using h by (metis lessI nth_append nth_mem)
    then have "unat (cw_seq (h ! i)) < unat w" using pre by (simp add: word_less_nat_alt)
    moreover have "unat (cw_seq (h ! i)) = start + 1 + i"
      using assms(1) len Suc by (simp add: numbered_def)
    ultimately show ?thesis using seq Suc assms(3) by (simp add: word_le_nat_alt)
  qed
  moreover have "unat (1 + readSeq) = Suc (unat readSeq)"
    using assms(5) by (intro unatSuc) (metis add.commute add_eq_0_iff2 minus_equation_iff)
  ultimately show ?thesis by (simp add: nth word_le_nat_alt add.commute)
qed

text \<open>C8: first committer wins: for a snapshot at or above the watermark the ring was pruned
  with, validation succeeds exactly if no transaction committed after the snapshot, in the
  whole history, modified a point this one modified; for any snapshot that needs a dropped
  write set, as long as some write set is retained, it reports an expired snapshot.\<close>

theorem first_committer_wins:
  assumes "numbered start h" and "start \<le> unat readSeq" and "readSeq \<noteq> - 1"
  shows "(w \<le> readSeq \<longrightarrow>
      (Validate (Prune h w) readSeq ws = Inr () \<longleftrightarrow>
       (\<forall>c \<in> set h. readSeq < cw_seq c \<longrightarrow>
          ws_ModifiedPointIDs ws \<inter> ws_ModifiedPointIDs (cw_writeSet c) = {}))) \<and>
    (\<forall>c \<in> set h - set (Prune h w). readSeq < cw_seq c \<longrightarrow> Prune h w \<noteq> [] \<longrightarrow>
       Validate (Prune h w) readSeq ws = Inl ErrSnapshotExpired)"
proof -
  obtain pre where h: "h = pre @ Prune h w" and pre: "\<forall>c \<in> set pre. cw_seq c < w"
    by (rule Prune_split)
  have "Validate (Prune h w) readSeq ws = Inr () \<longleftrightarrow>
       (\<forall>c \<in> set h. readSeq < cw_seq c \<longrightarrow>
          ws_ModifiedPointIDs ws \<inter> ws_ModifiedPointIDs (cw_writeSet c) = {})"
    if w: "w \<le> readSeq"
  proof -
    have "Validate (Prune h w) readSeq ws = validate_loop readSeq ws (Prune h w)"
      using Validate_pruned_head [OF assms(1,2) w _ assms(3)] by (auto simp: Validate_def not_less)
    also have "\<dots> = validate_loop readSeq ws (pre @ Prune h w)"
      using pre w by (subst validate_loop_skip) (auto dest: order_less_le_trans)
    also have "pre @ Prune h w = h" using h by simp
    finally show ?thesis by (simp add: validate_loop_ok ConflictsWith_iff)
  qed
  moreover have "Validate (Prune h w) readSeq ws = Inl ErrSnapshotExpired"
    if c: "c \<in> set h" "c \<notin> set (Prune h w)" "readSeq < cw_seq c" and ne: "Prune h w \<noteq> []" for c
  proof -
    have "c \<in> set pre" using c h by (metis Un_iff set_append)
    then obtain i where i: "i < length pre" "c = pre ! i" by (metis in_set_conv_nth)
    have len: "length pre < length h" using h ne by (metis length_append length_greater_0_conv less_add_same_cancel1)
    have "unat (cw_seq c) = start + 1 + i"
      using assms(1) i len h by (metis numbered_def nth_append order_less_trans)
    moreover have "unat (cw_seq (h ! length pre)) = start + 1 + length pre"
      using assms(1) len by (simp add: numbered_def)
    moreover have "Prune h w ! 0 = h ! length pre"
      using h ne by (metis nth_append_length_plus add.right_neutral)
    moreover have "unat (1 + readSeq) = Suc (unat readSeq)"
      using assms(3) by (intro unatSuc) (metis add.commute add_eq_0_iff2 minus_equation_iff)
    ultimately have "readSeq + 1 < cw_seq (Prune h w ! 0)"
      using c(3) i by (simp add: word_less_nat_alt add.commute)
    then show ?thesis using ne by (simp add: Validate_def)
  qed
  ultimately show ?thesis by blast
qed

theorem first_committer_wins_witness:
  "let a = MarkModified NewWriteSet 10; b = MarkModified NewWriteSet 20;
       h = Record (Record [] 1 1 a) 2 2 b
   in Validate (Prune h 1) 1 a = Inr () \<and> Validate (Prune h 1) 1 b \<noteq> Inr ()"
proof -
  let ?a = "MarkModified NewWriteSet 10" and ?b = "MarkModified NewWriteSet 20"
  let ?h = "Record (Record [] 1 1 ?a) 2 2 ?b"
  have "numbered 0 ?h" by (auto simp: numbered_def Record_def less_Suc_eq nth_Cons split: nat.split)
  moreover have "ws_ModifiedPointIDs ?a = {10}" "ws_ModifiedPointIDs ?b = {20}"
    by (simp_all add: MarkModified_def NewWriteSet_def)
  ultimately show ?thesis
    using first_committer_wins [of 0 ?h 1 1 ?a] first_committer_wins [of 0 ?h 1 1 ?b]
    by (simp add: Record_def Let_def)
qed

text \<open>Once pruning has emptied the ring, validation accepts every write set, also that of a
  snapshot older than the dropped commits it conflicts with: an emptied ring keeps no trace
  of what it dropped.\<close>

lemma empty_ring_accepts:
  assumes "\<forall>c \<in> set h. cw_seq c < w"
  shows "Validate (Prune h w) readSeq ws = Inr ()"
proof -
  have "Prune h w = []" using assms by (simp add: Prune_def dropWhile_eq_Nil_conv)
  then show ?thesis by (simp add: Validate_def)
qed

lemma empty_ring_accepts_instance:
  "let a = MarkModified NewWriteSet 10; h = Record [] 1 5 a
   in ConflictsWith a (cw_writeSet (h ! 0)) \<and> (3 :: u64) < cw_seq (h ! 0) \<and>
      Validate (Prune h 6) 3 a = Inr ()"
  using empty_ring_accepts [of "Record [] 1 5 (MarkModified NewWriteSet 10)" 6 3 "MarkModified NewWriteSet 10"]
  by (simp add: Record_def ConflictsWith_iff MarkModified_def Let_def)

section \<open>Writer lock\<close>

text \<open>A channel of capacity one: held or free.  \<open>Acquire\<close> on a held lock with a live context
  blocks, which is None.\<close>

datatype lock_result = Acquired | Cancelled

definition Acquire :: "bool \<Rightarrow> bool \<Rightarrow> (bool \<times> lock_result) option" where
  "Acquire held ctx_done =
    (if \<not> held then Some (True, Acquired) else if ctx_done then Some (held, Cancelled) else None)"

definition TryAcquire :: "bool \<Rightarrow> bool \<times> bool" where
  "TryAcquire held = (if \<not> held then (True, True) else (held, False))"

definition Release :: "bool \<Rightarrow> bool" where
  "Release held = False"

end
