(* ===== verification/Pager.thy ===== *)
theory Pager
  imports Format_Header Format_Page Vfs_Mem
begin

text \<open>
  The buffer pool of \<^verbatim>\<open>src/pager\<close>.  A frame is named by its slot in the pool, the index maps
  resident page numbers to slots, and every operation returns None where the source would
  panic (an encoder given a buffer too short), and otherwise the new pager with \<open>Inl\<close> the
  error or \<open>Inr\<close> the result.
\<close>

section \<open>State\<close>

datatype pager_error = IoErr io_error | FormatErr format_error | NullPage | PoolExhausted

datatype Intent = Read | Write

record Frame =
  fr_pgno :: u32
  fr_data :: bytes
  fr_pins :: int
  fr_dirty :: bool
  fr_ref :: bool

record PagerOptions =
  po_PageSize :: int
  po_CacheFrames :: int
  po_Checksum :: byte
  po_Flags :: byte

definition defaultCacheFrames :: nat where "defaultCacheFrames = 2000"

record Pager =
  pg_fs :: Mem
  pg_file :: memFile
  pg_path :: string
  pg_pageSize :: nat
  pg_header :: Header
  pg_index :: "u32 \<Rightarrow> nat option"
  pg_pool :: "Frame list"
  pg_hand :: nat
  pg_dbSize :: u32
  pg_free :: "u32 list"

definition newPager :: "Mem \<Rightarrow> memFile \<Rightarrow> string \<Rightarrow> nat \<Rightarrow> int \<Rightarrow> Header \<Rightarrow> Pager" where
  "newPager fs f path pageSize cacheFrames h =
    (let n = (if cacheFrames \<le> 0 then defaultCacheFrames else nat cacheFrames) in
     \<lparr>pg_fs = fs, pg_file = f, pg_path = path, pg_pageSize = pageSize, pg_header = h,
      pg_index = Map.empty,
      pg_pool = replicate n \<lparr>fr_pgno = 0, fr_data = replicate pageSize 0, fr_pins = 0,
                             fr_dirty = False, fr_ref = False\<rparr>,
      pg_hand = 0, pg_dbSize = 0, pg_free = []\<rparr>)"

definition page_off :: "Pager \<Rightarrow> u32 \<Rightarrow> nat" where
  "page_off p pgno = unat (pgno - 1) * pg_pageSize p"

text \<open>In-place changes of one frame.\<close>

definition upd_frame :: "nat \<Rightarrow> (Frame \<Rightarrow> Frame) \<Rightarrow> Pager \<Rightarrow> Pager" where
  "upd_frame i g p = p\<lparr>pg_pool := (pg_pool p)[i := g (pg_pool p ! i)]\<rparr>"

section \<open>Eviction\<close>

definition writeBack :: "Pager \<Rightarrow> nat \<Rightarrow> (Pager \<times> (pager_error + unit)) option" where
  "writeBack p i =
    (let fr = pg_pool p ! i in
     case (if fr_pgno fr \<noteq> 1 then WritePageChecksum (fr_data fr) (hdr_Checksum (pg_header p))
           else Some (fr_data fr)) of
       None \<Rightarrow> None
     | Some data \<Rightarrow>
         let p1 = upd_frame i (\<lambda>fr. fr\<lparr>fr_data := data\<rparr>) p in
         (case WriteAt (pg_fs p1) (pg_file p1) data (page_off p1 (fr_pgno fr)) of
            (fs, Inl err) \<Rightarrow> Some (p1\<lparr>pg_fs := fs\<rparr>, Inl (IoErr err))
          | (fs, Inr _) \<Rightarrow>
              Some (upd_frame i (\<lambda>fr. fr\<lparr>fr_dirty := False\<rparr>) (p1\<lparr>pg_fs := fs\<rparr>), Inr ())))"

fun find_slot :: "(Frame \<Rightarrow> bool) \<Rightarrow> nat \<Rightarrow> Frame list \<Rightarrow> nat option" where
  "find_slot P i [] = None"
| "find_slot P i (fr # frs) = (if P fr then Some i else find_slot P (Suc i) frs)"

definition take_frame :: "nat \<Rightarrow> Pager \<Rightarrow> Pager" where
  "take_frame i p =
     upd_frame i (\<lambda>fr. fr\<lparr>fr_pgno := 0, fr_dirty := False\<rparr>)
       (p\<lparr>pg_index := (pg_index p)(fr_pgno (pg_pool p ! i) := None)\<rparr>)"

text \<open>The CLOCK sweep with its count of iterations left.\<close>

fun clock_sweep :: "nat \<Rightarrow> Pager \<Rightarrow> (Pager \<times> nat option) option" where
  "clock_sweep 0 p = Some (p, None)"
| "clock_sweep (Suc k) p =
    (let i = pg_hand p;
         fr = pg_pool p ! i;
         p1 = p\<lparr>pg_hand := (pg_hand p + 1) mod length (pg_pool p)\<rparr>
     in if fr_pins fr \<noteq> 0 then clock_sweep k p1
        else if fr_ref fr then clock_sweep k (upd_frame i (\<lambda>fr. fr\<lparr>fr_ref := False\<rparr>) p1)
        else if fr_dirty fr then
          (case writeBack p1 i of
             None \<Rightarrow> None
           | Some (p2, Inl err) \<Rightarrow> clock_sweep k p2
           | Some (p2, Inr _) \<Rightarrow> Some (take_frame i p2, Some i))
        else Some (take_frame i p1, Some i))"

definition evict :: "Pager \<Rightarrow> (Pager \<times> nat option) option" where
  "evict p =
    (case find_slot (\<lambda>fr. fr_pgno fr = 0 \<and> fr_pins fr = 0) 0 (pg_pool p) of
       Some i \<Rightarrow> Some (p, Some i)
     | None \<Rightarrow> clock_sweep (2 * length (pg_pool p)) p)"

definition admit :: "Pager \<Rightarrow> u32 \<Rightarrow> (Pager \<times> (pager_error + nat)) option" where
  "admit p pgno =
    (case evict p of
       None \<Rightarrow> None
     | Some (p1, None) \<Rightarrow> Some (p1, Inl PoolExhausted)
     | Some (p1, Some i) \<Rightarrow>
         Some ((upd_frame i (\<lambda>fr. fr\<lparr>fr_pgno := pgno, fr_dirty := False, fr_ref := False\<rparr>) p1)
               \<lparr>pg_index := (pg_index p1)(pgno \<mapsto> i)\<rparr>, Inr i))"

section \<open>Page operations\<close>

definition pin :: "Frame \<Rightarrow> Frame" where
  "pin fr = fr\<lparr>fr_pins := fr_pins fr + 1, fr_ref := True\<rparr>"

definition Get :: "Pager \<Rightarrow> u32 \<Rightarrow> Intent \<Rightarrow> (Pager \<times> (pager_error + nat)) option" where
  "Get p pgno intent =
    (if pgno = 0 then Some (p, Inl NullPage)
     else case pg_index p pgno of
       Some i \<Rightarrow> Some (upd_frame i pin p, Inr i)
     | None \<Rightarrow>
         (case admit p pgno of
            None \<Rightarrow> None
          | Some (p1, Inl err) \<Rightarrow> Some (p1, Inl err)
          | Some (p1, Inr i) \<Rightarrow>
              let old = fr_data (pg_pool p1 ! i);
                  data = (case ReadAt (pg_fs p1) (pg_file p1) old (page_off p1 pgno) of
                            (d, _, None) \<Rightarrow> d
                          | (d, _, Some _) \<Rightarrow> replicate (length old) 0)
              in Some (upd_frame i (\<lambda>fr. pin (fr\<lparr>fr_data := data\<rparr>)) p1, Inr i)))"

definition Unpin :: "Pager \<Rightarrow> nat \<Rightarrow> bool \<Rightarrow> Pager" where
  "Unpin p i dirty =
     upd_frame i (\<lambda>fr. fr\<lparr>fr_dirty := (if dirty then True else fr_dirty fr), fr_pins := fr_pins fr - 1\<rparr>) p"

definition Allocate :: "Pager \<Rightarrow> (Pager \<times> (pager_error + u32 \<times> nat)) option" where
  "Allocate p =
    (let (pgno, p1) =
       (if pg_free p \<noteq> [] then (last (pg_free p), p\<lparr>pg_free := butlast (pg_free p)\<rparr>)
        else (pg_dbSize p + 1, p\<lparr>pg_dbSize := pg_dbSize p + 1\<rparr>))
     in case admit p1 pgno of
          None \<Rightarrow> None
        | Some (p2, Inl err) \<Rightarrow> Some (p2, Inl err)
        | Some (p2, Inr i) \<Rightarrow>
            Some (upd_frame i (\<lambda>fr. pin (fr\<lparr>fr_data := replicate (length (fr_data fr)) 0,
                                             fr_dirty := True\<rparr>)) p2, Inr (pgno, i)))"

definition Free :: "Pager \<Rightarrow> u32 \<Rightarrow> Pager" where
  "Free p pgno =
    (let p1 = (case pg_index p pgno of
                 None \<Rightarrow> p
               | Some i \<Rightarrow> (upd_frame i (\<lambda>fr. fr\<lparr>fr_pgno := 0, fr_dirty := False, fr_ref := False\<rparr>) p)
                           \<lparr>pg_index := (pg_index p)(pgno := None)\<rparr>)
     in p1\<lparr>pg_free := pg_free p1 @ [pgno]\<rparr>)"

section \<open>The persisted freelist\<close>

text \<open>The loop that picks trunk pages from the end of the freelist until the remaining leaves fit:
  \<^verbatim>\<open>need\<close> is the ceiling of \<^verbatim>\<open>leaves / cap\<close>.\<close>

function pick_trunks :: "u32 list \<Rightarrow> nat \<Rightarrow> u32 list \<Rightarrow> u32 list" where
  "pick_trunks free cp trunks =
    (let nTrunks = length trunks;
         leaves = length free - nTrunks;
         need = (leaves + cp - 1) div cp
     in if need \<le> nTrunks then trunks
        else pick_trunks free cp (trunks @ [free ! (length free - 1 - nTrunks)]))"
  by pat_completeness auto
termination
proof (relation "measure (\<lambda>(free, cp, trunks). length free - length trunks)", goal_cases)
  case (2 free cp trunks nTrunks leaves need)
  then have "leaves \<noteq> 0" by (cases cp) auto
  with 2 show ?case by simp
qed simp

declare pick_trunks.simps [simp del]

fun write_trunks ::
  "nat \<Rightarrow> u32 list \<Rightarrow> u32 list \<Rightarrow> u32 \<Rightarrow> bytes \<Rightarrow> Pager \<Rightarrow> (Pager \<times> (pager_error + u32)) option" where
  "write_trunks cp leaves [] next buf p = Some (p, Inr next)"
| "write_trunks cp leaves (t # ts) next buf p =
    (case EncodeTrunk buf \<lparr>tp_Next = next, tp_Leafs = take cp leaves\<rparr> of
       None \<Rightarrow> None
     | Some buf1 \<Rightarrow>
         (case WritePageChecksum buf1 (hdr_Checksum (pg_header p)) of
            None \<Rightarrow> None
          | Some buf2 \<Rightarrow>
              (case WriteAt (pg_fs p) (pg_file p) buf2 (page_off p t) of
                 (fs, Inl err) \<Rightarrow> Some (p\<lparr>pg_fs := fs\<rparr>, Inl (IoErr err))
               | (fs, Inr _) \<Rightarrow> write_trunks cp (drop cp leaves) ts t buf2 (p\<lparr>pg_fs := fs\<rparr>))))"

definition persistFreelist :: "Pager \<Rightarrow> (Pager \<times> (pager_error + unit)) option" where
  "persistFreelist p =
    (let cp = nat (TrunkCapacity (int (pg_pageSize p)) (hdr_ReservedPerPage (pg_header p)));
         free = pg_free p in
     if free = [] \<or> cp = 0
     then Some (p\<lparr>pg_header := (pg_header p)\<lparr>hdr_FreelistTrunk := 0, hdr_FreelistCount := 0\<rparr>\<rparr>, Inr ())
     else let nTrunks = length (pick_trunks free cp []);
              leaves = take (length free - nTrunks) free;
              trunkPages = drop (length free - nTrunks) free
          in case write_trunks cp leaves trunkPages 0 (replicate (pg_pageSize p) 0) p of
               None \<Rightarrow> None
             | Some (p1, Inl err) \<Rightarrow> Some (p1, Inl err)
             | Some (p1, Inr next) \<Rightarrow>
                 Some (p1\<lparr>pg_header := (pg_header p1)\<lparr>hdr_FreelistTrunk := next,
                            hdr_FreelistCount := of_nat (length free)\<rparr>\<rparr>, Inr ()))"

text \<open>Following the trunk chain of a file: not returning (a cyclic chain) is None, a panic is
  \<open>Some None\<close>.\<close>

partial_function (option) load_chain ::
  "Pager \<Rightarrow> u32 \<Rightarrow> u32 list \<Rightarrow> (pager_error + u32 list) option option" where
  "load_chain p trunk acc =
    (if trunk = 0 then Some (Some (Inr acc))
     else case ReadAt (pg_fs p) (pg_file p) (replicate (pg_pageSize p) 0) (page_off p trunk) of
            (buf, _, Some err) \<Rightarrow> Some (Some (Inl (IoErr err)))
          | (buf, _, None) \<Rightarrow>
              (case DecodeTrunk buf of
                 None \<Rightarrow> Some None
               | Some tp \<Rightarrow> load_chain p (tp_Next tp) (acc @ tp_Leafs tp @ [trunk])))"

definition loadFreelist :: "Pager \<Rightarrow> (pager_error + Pager) option option" where
  "loadFreelist p =
    map_option (map_option (map_sum id (\<lambda>free. p\<lparr>pg_free := free\<rparr>)))
      (load_chain p (hdr_FreelistTrunk (pg_header p)) (pg_free p))"

section \<open>Checkpoint\<close>

fun flush_frames :: "nat list \<Rightarrow> Pager \<Rightarrow> (Pager \<times> (pager_error + unit)) option" where
  "flush_frames [] p = Some (p, Inr ())"
| "flush_frames (i # is) p =
    (let fr = pg_pool p ! i in
     if fr_pgno fr \<noteq> 0 \<and> fr_dirty fr \<and> fr_pgno fr \<noteq> 1 then
       (case writeBack p i of
          None \<Rightarrow> None
        | Some (p1, Inl err) \<Rightarrow> Some (p1, Inl err)
        | Some (p1, Inr _) \<Rightarrow> flush_frames is p1)
     else flush_frames is p)"

definition bump_header :: "Pager \<Rightarrow> Header" where
  "bump_header p =
    (let h = pg_header p; c = hdr_ChangeCounter h + 1 in
     h\<lparr>hdr_PageCount := pg_dbSize p, hdr_ChangeCounter := c, hdr_VersionValidFor := c\<rparr>)"

definition write_header_page :: "Pager \<Rightarrow> (Pager \<times> (pager_error + unit)) option" where
  "write_header_page p =
    (let page1 = (case pg_index p 1 of
                    Some i \<Rightarrow> put_at 0 (fr_data (pg_pool p ! i)) (replicate (pg_pageSize p) 0)
                  | None \<Rightarrow> fst (ReadAt (pg_fs p) (pg_file p) (replicate (pg_pageSize p) 0) 0))
     in case Header_Encode (bump_header p) page1 of
          None \<Rightarrow> None
        | Some (h, page1) \<Rightarrow>
            let p1 = p\<lparr>pg_header := h\<rparr>;
                p2 = (case pg_index p1 1 of
                        Some i \<Rightarrow> upd_frame i (\<lambda>fr. fr\<lparr>fr_data := put_at 0 page1 (fr_data fr),
                                                      fr_dirty := False\<rparr>) p1
                      | None \<Rightarrow> p1)
            in case WriteAt (pg_fs p2) (pg_file p2) page1 0 of
                 (fs, Inl err) \<Rightarrow> Some (p2\<lparr>pg_fs := fs\<rparr>, Inl (IoErr err))
               | (fs, Inr _) \<Rightarrow>
                   (case Sync fs (pg_file p2) of
                      (fs', Inl err) \<Rightarrow> Some (p2\<lparr>pg_fs := fs'\<rparr>, Inl (IoErr err))
                    | (fs', Inr _) \<Rightarrow> Some (p2\<lparr>pg_fs := fs'\<rparr>, Inr ())))"

definition Checkpoint :: "Pager \<Rightarrow> u64 \<Rightarrow> (Pager \<times> (pager_error + unit)) option" where
  "Checkpoint p checkpointLSN =
    (case flush_frames [0..<length (pg_pool p)] p of
       None \<Rightarrow> None
     | Some (p1, Inl err) \<Rightarrow> Some (p1, Inl err)
     | Some (p1, Inr _) \<Rightarrow>
         (case persistFreelist p1 of
            None \<Rightarrow> None
          | Some (p2, Inl err) \<Rightarrow> Some (p2, Inl err)
          | Some (p2, Inr _) \<Rightarrow> write_header_page p2))"

definition SetTxnHighWater :: "Pager \<Rightarrow> u64 \<Rightarrow> Pager" where
  "SetTxnHighWater p v =
    (if hdr_TxnHighWater (pg_header p) < v
     then p\<lparr>pg_header := (pg_header p)\<lparr>hdr_TxnHighWater := v\<rparr>\<rparr> else p)"

definition SetCatalogRoot :: "Pager \<Rightarrow> u32 \<Rightarrow> Pager" where
  "SetCatalogRoot p pgno = p\<lparr>pg_header := (pg_header p)\<lparr>hdr_CatalogRoot := pgno\<rparr>\<rparr>"

section \<open>Create and Open\<close>

definition Create :: "Mem \<Rightarrow> string \<Rightarrow> PagerOptions \<Rightarrow> (Mem \<times> (pager_error + Pager)) option" where
  "Create fs path opts =
    (let ps = (if po_PageSize opts = 0 then DefaultPageSize else po_PageSize opts) in
     if \<not> ValidPageSize ps then Some (fs, Inl (FormatErr ErrBadPageSize))
     else case Mem_Open fs path (OpenReadWrite\<lparr>of_Create := True\<rparr>) of
       (fs1, Inl err) \<Rightarrow> Some (fs1, Inl (IoErr err))
     | (fs1, Inr f) \<Rightarrow>
         let h = (NewHeader ps (po_Checksum opts))\<lparr>hdr_Flags := po_Flags opts\<rparr> in
         (case Header_Encode h (replicate (nat ps) 0) of
            None \<Rightarrow> None
          | Some (h1, page1) \<Rightarrow>
              let p = (newPager fs1 f path (nat ps) (po_CacheFrames opts) h1)\<lparr>pg_dbSize := 1\<rparr> in
              (case WriteAt fs1 f page1 0 of
                 (fs2, Inl err) \<Rightarrow> Some (fs2, Inl (IoErr err))
               | (fs2, Inr _) \<Rightarrow>
                   (case Sync fs2 f of
                      (fs3, Inl err) \<Rightarrow> Some (fs3, Inl (IoErr err))
                    | (fs3, Inr _) \<Rightarrow> Some (fs3, Inr (p\<lparr>pg_fs := fs3\<rparr>))))))"

text \<open>None: the trunk chain does not end.  \<open>Some None\<close>: a panic.\<close>

definition Open :: "Mem \<Rightarrow> string \<Rightarrow> PagerOptions \<Rightarrow> (pager_error + Pager) option option" where
  "Open fs path opts =
    (case Mem_Open fs path OpenReadWrite of
       (fs1, Inl err) \<Rightarrow> Some (Some (Inl (IoErr err)))
     | (fs1, Inr f) \<Rightarrow>
         (case ReadAt fs1 f (replicate HeaderSize 0) 0 of
            (hbuf, _, Some err) \<Rightarrow> Some (Some (Inl (IoErr err)))
          | (hbuf, _, None) \<Rightarrow>
              (case DecodeHeader hbuf of
                 Inl err \<Rightarrow> Some (Some (Inl (FormatErr err)))
               | Inr h \<Rightarrow>
                   let ps = nat (hdr_PageSize h);
                       n = (of_nat (Size fs1 f div ps) :: u32);
                       p = (newPager fs1 f path ps (po_CacheFrames opts) h)
                             \<lparr>pg_dbSize := (if n = 0 then 1 else n)\<rparr>
                   in loadFreelist p)))"

definition DBSize :: "Pager \<Rightarrow> u32" where "DBSize p = pg_dbSize p"
definition FreeCount :: "Pager \<Rightarrow> nat" where "FreeCount p = length (pg_free p)"

end
