(* ===== verification/Pager_Inv.thy ===== *)
theory Pager_Inv
  imports Pager
begin

text \<open>
  The pool's representation invariant and the transparency of eviction.  A page's content
  is its frame's data if it is resident and its bytes in the file otherwise; its body is
  the content without the four tail bytes, which a write-back overwrites with the
  checksum.  Write-back, eviction and admission never panic, keep the invariant and
  change no page's body.
\<close>

section \<open>Pages of a file\<close>

definition page_at :: "nat \<Rightarrow> bytes \<Rightarrow> nat \<Rightarrow> bytes" where
  "page_at ps live n = (if (n + 1) * ps \<le> length live then get_at (n * ps) ps live else replicate ps 0)"

lemma length_page_at [simp]: "length (page_at ps live n) = ps"
  by (auto simp: page_at_def algebra_simps)

lemma page_at_write:
  assumes "0 < ps" and "ps dvd length live" and "length d = ps"
  shows "page_at ps (write_bytes live d (n * ps)) m = (if m = n then d else page_at ps live m)"
proof (cases "m = n")
  case True
  then show ?thesis
    using assms(3) by (simp add: page_at_def get_at_write_same algebra_simps)
next
  case False
  have sep: "m * ps + ps \<le> n * ps \<or> n * ps + ps \<le> m * ps"
    using False assms(1) by (metis Suc_leI mult_Suc add.commute mult_le_mono1 nat_neq_iff)
  show ?thesis
  proof (cases "(m + 1) * ps \<le> length live")
    case True
    then have "get_at (m * ps) ps (write_bytes live d (n * ps)) = get_at (m * ps) ps live"
      using sep assms(3) by (intro get_at_write_other) (auto simp: algebra_simps)
    then show ?thesis using True False by (auto simp: page_at_def algebra_simps)
  next
    case short: False
    obtain q where q: "length live = ps * q" using assms(2) by (elim dvdE)
    have beyond: "length live \<le> m * ps"
      using short q assms(1) by (auto simp: not_le mult.commute [of ps] simp del: mult_Suc)
    have "get_at (m * ps) ps (write_bytes live d (n * ps)) = replicate ps 0"
      if "m * ps + ps \<le> length (write_bytes live d (n * ps))"
    proof -
      have "m * ps + ps \<le> n * ps" using that sep beyond assms(1,3) by (auto simp: max_def split: if_splits)
      moreover have "write_bytes live d (n * ps) =
          put_at (n * ps) d (live @ replicate (n * ps + ps - length live) 0)"
        using that beyond assms(1,3) by (auto simp: write_bytes_def Let_def)
      ultimately show ?thesis
        using beyond by (simp add: get_put_before) (simp add: get_at_def)
    qed
    then show ?thesis using short False by (simp add: page_at_def algebra_simps)
  qed
qed

lemma dvd_length_write:
  "ps dvd length live \<Longrightarrow> length d = ps \<Longrightarrow> ps dvd length (write_bytes live d (n * ps))"
  by (simp add: max_def)

lemma unat_pred_inject:
  fixes j k :: u32
  shows "unat (j - 1) = unat (k - 1) \<longleftrightarrow> j = k"
  by (metis diff_add_cancel unsigned_word_eqI)

section \<open>Invariant\<close>

definition live :: "Pager \<Rightarrow> bytes" where
  "live p = live_of (pg_fs p) (pg_file p)"

definition file_page :: "Pager \<Rightarrow> u32 \<Rightarrow> bytes" where
  "file_page p k = page_at (pg_pageSize p) (live p) (unat (k - 1))"

definition page_of :: "Pager \<Rightarrow> u32 \<Rightarrow> bytes" where
  "page_of p k = (case pg_index p k of Some i \<Rightarrow> fr_data (pg_pool p ! i) | None \<Rightarrow> file_page p k)"

definition body :: "Pager \<Rightarrow> u32 \<Rightarrow> bytes" where
  "body p k = take (pg_pageSize p - 4) (page_of p k)"

definition wf_index :: "(u32 \<Rightarrow> nat option) \<Rightarrow> Frame list \<Rightarrow> bool" where
  "wf_index ix pool \<longleftrightarrow>
    (\<forall>k i. ix k = Some i \<longleftrightarrow> k \<noteq> 0 \<and> i < length pool \<and> fr_pgno (pool ! i) = k)"

definition pager_ok :: "Pager \<Rightarrow> bool" where
  "pager_ok p \<longleftrightarrow>
     ValidPageSize (int (pg_pageSize p)) \<and> pg_hand p < length (pg_pool p) \<and>
     (\<forall>fr \<in> set (pg_pool p). length (fr_data fr) = pg_pageSize p) \<and>
     wf_index (pg_index p) (pg_pool p) \<and>
     mem_ok (pg_file p) (pg_fs p) \<and> pg_pageSize p dvd length (live p)"

text \<open>A clean frame's body is in the file.\<close>

definition clean_ok :: "Pager \<Rightarrow> bool" where
  "clean_ok p \<longleftrightarrow>
    (\<forall>k i. pg_index p k = Some i \<longrightarrow> \<not> fr_dirty (pg_pool p ! i) \<longrightarrow>
       take (pg_pageSize p - 4) (fr_data (pg_pool p ! i)) = take (pg_pageSize p - 4) (file_page p k))"

lemma pager_ok_page_size:
  assumes "pager_ok p"
  shows "4096 \<le> pg_pageSize p" and "pg_pageSize p \<le> 65536"
  using assms ValidPageSize_cases by (fastforce simp: pager_ok_def)+

lemma pager_ok_frame: "pager_ok p \<Longrightarrow> i < length (pg_pool p) \<Longrightarrow> length (fr_data (pg_pool p ! i)) = pg_pageSize p"
  by (simp add: pager_ok_def)

lemma pager_ok_index:
  "pager_ok p \<Longrightarrow> pg_index p k = Some i \<longleftrightarrow> k \<noteq> 0 \<and> i < length (pg_pool p) \<and> fr_pgno (pg_pool p ! i) = k"
  by (simp add: pager_ok_def wf_index_def)

text \<open>Changes of a frame that keep its page number, data and dirty bit keep everything.\<close>

definition same_identity :: "Frame \<Rightarrow> Frame \<Rightarrow> bool" where
  "same_identity fr fr' \<longleftrightarrow> fr_pgno fr' = fr_pgno fr \<and> fr_data fr' = fr_data fr \<and> fr_dirty fr' = fr_dirty fr"

lemma upd_frame_fields [simp]:
  "pg_fs (upd_frame i g p) = pg_fs p" "pg_file (upd_frame i g p) = pg_file p"
  "pg_pageSize (upd_frame i g p) = pg_pageSize p" "pg_header (upd_frame i g p) = pg_header p"
  "pg_index (upd_frame i g p) = pg_index p" "pg_hand (upd_frame i g p) = pg_hand p"
  "pg_dbSize (upd_frame i g p) = pg_dbSize p" "pg_free (upd_frame i g p) = pg_free p"
  "length (pg_pool (upd_frame i g p)) = length (pg_pool p)" "live (upd_frame i g p) = live p"
  by (simp_all add: upd_frame_def live_def)

lemma upd_frame_nth [simp]:
  "i < length (pg_pool p) \<Longrightarrow>
   pg_pool (upd_frame i g p) ! j = (if j = i then g (pg_pool p ! i) else pg_pool p ! j)"
  by (simp add: upd_frame_def nth_list_update)

lemma upd_frame_set:
  "fr \<in> set (pg_pool (upd_frame i g p)) \<Longrightarrow> i < length (pg_pool p) \<Longrightarrow>
   fr \<in> set (pg_pool p) \<or> fr = g (pg_pool p ! i)"
  by (auto simp: upd_frame_def dest: set_update_subset_insert [THEN subsetD])

lemma wf_index_same:
  assumes "wf_index ix pool" and "length pool' = length pool"
    and "\<And>i. i < length pool \<Longrightarrow> fr_pgno (pool' ! i) = fr_pgno (pool ! i)"
  shows "wf_index ix pool'"
  unfolding wf_index_def
proof (intro allI)
  fix k i
  have "i < length pool' \<and> fr_pgno (pool' ! i) = k \<longleftrightarrow> i < length pool \<and> fr_pgno (pool ! i) = k"
    using assms(2,3) by auto
  then show "(ix k = Some i) = (k \<noteq> 0 \<and> i < length pool' \<and> fr_pgno (pool' ! i) = k)"
    using assms(1) by (simp add: wf_index_def)
qed

lemma keep_frame:
  assumes "pager_ok p" and "i < length (pg_pool p)" and "same_identity (pg_pool p ! i) (g (pg_pool p ! i))"
  shows "pager_ok (upd_frame i g p)" and "body (upd_frame i g p) k = body p k"
    and "clean_ok p \<Longrightarrow> clean_ok (upd_frame i g p)"
proof -
  have nth: "fr_pgno (pg_pool (upd_frame i g p) ! j) = fr_pgno (pg_pool p ! j)"
    "fr_data (pg_pool (upd_frame i g p) ! j) = fr_data (pg_pool p ! j)"
    "fr_dirty (pg_pool (upd_frame i g p) ! j) = fr_dirty (pg_pool p ! j)" for j
    using assms(2,3) by (simp_all add: same_identity_def)
  have data: "\<forall>fr \<in> set (pg_pool (upd_frame i g p)). length (fr_data fr) = pg_pageSize p"
  proof
    fix fr
    assume "fr \<in> set (pg_pool (upd_frame i g p))"
    then consider "fr \<in> set (pg_pool p)" | "fr = g (pg_pool p ! i)"
      using upd_frame_set assms(2) by blast
    then show "length (fr_data fr) = pg_pageSize p"
      using assms pager_ok_frame by cases (auto simp: pager_ok_def same_identity_def)
  qed
  show "pager_ok (upd_frame i g p)"
    using assms(1) data nth wf_index_same [of "pg_index p" "pg_pool p" "pg_pool (upd_frame i g p)"]
    by (simp add: pager_ok_def)
  show "body (upd_frame i g p) k = body p k"
    by (simp add: body_def page_of_def file_page_def nth del: upd_frame_nth split: option.split)
  show "clean_ok p \<Longrightarrow> clean_ok (upd_frame i g p)"
    by (simp add: clean_ok_def file_page_def nth del: upd_frame_nth)
qed

lemma pager_ok_hand:
  "pager_ok p \<Longrightarrow> h < length (pg_pool p) \<Longrightarrow> pager_ok (p\<lparr>pg_hand := h\<rparr>)"
  by (simp add: pager_ok_def live_def)

lemma hand_irrelevant [simp]:
  "body (p\<lparr>pg_hand := h\<rparr>) k = body p k" "clean_ok (p\<lparr>pg_hand := h\<rparr>) = clean_ok p"
  by (simp_all add: body_def page_of_def file_page_def live_def clean_ok_def split: option.split)

section \<open>Write-back\<close>

lemma WritePageChecksum_body:
  assumes "4 \<le> length d" and "WritePageChecksum d algo = Some d'"
  shows "length d' = length d" and "take (length d - 4) d' = take (length d - 4) d"
  using assms by (auto simp: WritePageChecksum_def Let_def buf_simps split: if_splits)

lemma file_page_other:
  assumes "pager_ok p" and "length d = pg_pageSize p"
    and "live p' = write_bytes (live p) d (page_off p k)" and "pg_pageSize p' = pg_pageSize p"
  shows "file_page p' j = (if j = k then d else file_page p j)"
  using assms page_at_write [of "pg_pageSize p" "live p" d "unat (k - 1)" "unat (j - 1)"]
    pager_ok_page_size [OF assms(1)]
  by (simp add: file_page_def page_off_def unat_pred_inject pager_ok_def)

lemma live_WriteAt:
  "WriteAt (pg_fs p) (pg_file p) d off = (fs, r) \<Longrightarrow>
   live_of fs (pg_file p) = write_bytes (live p) d off \<and> r = Inr (length d)"
  by (auto simp: WriteAt_def live_def)

text \<open>Write-back of a resident frame succeeds, and afterwards the frame is clean, its body
  unchanged and in the file, and no other page is touched.\<close>

lemma writeBack_ok:
  assumes ok: "pager_ok p" and i: "i < length (pg_pool p)" and k: "fr_pgno (pg_pool p ! i) = k" "k \<noteq> 0"
  obtains p' d where "writeBack p i = Some (p', Inr ())"
    and "pg_pool p' = (pg_pool p)[i := (pg_pool p ! i)\<lparr>fr_data := d, fr_dirty := False\<rparr>]"
    and "pager_ok p'" and "\<And>j. body p' j = body p j" and "clean_ok p \<Longrightarrow> clean_ok p'"
    and "pg_index p' = pg_index p" and "pg_hand p' = pg_hand p" and "pg_free p' = pg_free p"
    and "pg_dbSize p' = pg_dbSize p" and "pg_header p' = pg_header p" and "pg_pageSize p' = pg_pageSize p"
    and "pg_file p' = pg_file p" and "take (pg_pageSize p - 4) (file_page p' k) = body p k"
    and "\<And>j. j \<noteq> k \<Longrightarrow> file_page p' j = file_page p j"
proof -
  let ?fr = "pg_pool p ! i" and ?ps = "pg_pageSize p"
  have ps: "4096 \<le> ?ps" by (rule pager_ok_page_size [OF ok])
  have len: "length (fr_data ?fr) = ?ps" using pager_ok_frame [OF ok i] .
  obtain d where d: "(if fr_pgno ?fr \<noteq> 1 then WritePageChecksum (fr_data ?fr) (hdr_Checksum (pg_header p))
       else Some (fr_data ?fr)) = Some d" "length d = ?ps" "take (?ps - 4) d = take (?ps - 4) (fr_data ?fr)"
  proof (cases "fr_pgno ?fr \<noteq> 1")
    case True
    obtain d where "WritePageChecksum (fr_data ?fr) (hdr_Checksum (pg_header p)) = Some d"
      by (rule WritePageChecksum_Some [of "fr_data ?fr"]) (use len ps in auto)
    moreover from this have "length d = ?ps" "take (?ps - 4) d = take (?ps - 4) (fr_data ?fr)"
      using WritePageChecksum_body [of "fr_data ?fr" _ d] len ps by auto
    ultimately show thesis using True that [of d] by simp
  qed (use that len in simp)
  obtain fs where fs: "WriteAt (pg_fs p) (pg_file p) d (page_off p k) = (fs, Inr (length d))"
    by (simp add: WriteAt_def)
  define p' where "p' = p\<lparr>pg_pool := (pg_pool p)[i := ?fr\<lparr>fr_data := d, fr_dirty := False\<rparr>], pg_fs := fs\<rparr>"
  have wb: "writeBack p i = Some (p', Inr ())"
    using d(1) fs k(1) i by (simp add: writeBack_def Let_def p'_def upd_frame_def page_off_def)
  have lv: "live p' = write_bytes (live p) d (page_off p k)"
    using live_WriteAt [OF fs] by (simp add: live_def p'_def)
  have fp: "file_page p' j = (if j = k then d else file_page p j)" for j
    by (rule file_page_other [OF ok d(2) lv]) (simp add: p'_def)
  have ix: "pg_index p k = Some i" using pager_ok_index [OF ok] i k by simp
  have ix': "j = k" if "pg_index p j = Some i" for j
    using that pager_ok_index [OF ok] k by simp
  have nth: "pg_pool p' ! j = (if j = i then ?fr\<lparr>fr_data := d, fr_dirty := False\<rparr> else pg_pool p ! j)" for j
    using i by (simp add: p'_def nth_list_update)
  have "pager_ok p'"
  proof -
    have "wf_index (pg_index p) (pg_pool p')"
      using ok wf_index_same [of "pg_index p" "pg_pool p" "pg_pool p'"] nth
      by (simp add: pager_ok_def p'_def nth_list_update)
    moreover have "\<forall>fr \<in> set (pg_pool p'). length (fr_data fr) = ?ps"
      using ok d(2) set_update_subset_insert [of "pg_pool p" i] by (fastforce simp: pager_ok_def p'_def)
    moreover have "mem_ok (pg_file p) fs"
      using ok fs mf.wr_ok [of "pg_file p" "pg_fs p"] by (metis fst_conv pager_ok_def)
    moreover have "?ps dvd length (live p')"
      using ok d(2) dvd_length_write lv by (simp add: pager_ok_def page_off_def)
    ultimately show ?thesis using ok by (simp add: pager_ok_def p'_def)
  qed
  moreover have sel: "pg_index p' = pg_index p" "pg_pageSize p' = ?ps" by (simp_all add: p'_def)
  have at_k: "fr_data (pg_pool p' ! i) = d" using nth by simp
  have other: "pg_pool p' ! m = pg_pool p ! m" if "pg_index p j = Some m" "j \<noteq> k" for j m
    using that ix' nth by auto
  moreover have "body p' j = body p j" for j
  proof (cases "j = k")
    case True
    then show ?thesis using d(3) at_k by (simp add: body_def page_of_def sel ix)
  next
    case False
    then show ?thesis using other fp by (simp add: body_def page_of_def sel split: option.split)
  qed
  moreover have "clean_ok p'" if c: "clean_ok p"
    unfolding clean_ok_def sel
  proof (intro allI impI)
    fix j m
    assume m: "pg_index p j = Some m" "\<not> fr_dirty (pg_pool p' ! m)"
    show "take (?ps - 4) (fr_data (pg_pool p' ! m)) = take (?ps - 4) (file_page p' j)"
    proof (cases "j = k")
      case True
      then show ?thesis using m ix at_k fp by simp
    next
      case False
      then show ?thesis using m c other [OF m(1)] fp by (simp add: clean_ok_def)
    qed
  qed
  moreover have "take (?ps - 4) (file_page p' k) = body p k"
    using fp d(3) ix by (simp add: body_def page_of_def)
  moreover have "file_page p' j = file_page p j" if "j \<noteq> k" for j using fp that by simp
  ultimately show thesis using wb by (intro that [of p' d]) (simp_all add: p'_def)
qed

end
