(* ===== verification/Pager_Evict.thy ===== *)
theory Pager_Evict
  imports Pager_Inv
begin

text \<open>
  Eviction and admission.  The CLOCK sweep makes at most two rounds; it finds a victim
  exactly if some frame is unpinned, writes it back if it is dirty, and leaves every
  page's body, every pin count and everything else of the pager as it was.
\<close>

section \<open>What eviction keeps\<close>

definition same_pages :: "Pager \<Rightarrow> Pager \<Rightarrow> bool" where
  "same_pages p p' \<longleftrightarrow>
     pg_header p' = pg_header p \<and> pg_free p' = pg_free p \<and> pg_dbSize p' = pg_dbSize p \<and>
     pg_pageSize p' = pg_pageSize p \<and> pg_file p' = pg_file p \<and>
     length (pg_pool p') = length (pg_pool p) \<and>
     (\<forall>k. body p' k = body p k) \<and>
     (\<forall>i < length (pg_pool p). fr_pins (pg_pool p' ! i) = fr_pins (pg_pool p ! i)) \<and>
     (\<forall>k i. pg_index p' k = Some i \<longrightarrow> pg_index p k = Some i)"

lemma same_pages_refl: "same_pages p p"
  by (simp add: same_pages_def)

lemma same_pages_trans: "same_pages p q \<Longrightarrow> same_pages q r \<Longrightarrow> same_pages p r"
  by (simp add: same_pages_def)

lemma same_pages_hand: "same_pages p (p\<lparr>pg_hand := h\<rparr>)"
  by (simp add: same_pages_def)

lemma same_pages_keep:
  assumes "pager_ok p" and "i < length (pg_pool p)"
    and "same_identity (pg_pool p ! i) (g (pg_pool p ! i))"
    and "fr_pins (g (pg_pool p ! i)) = fr_pins (pg_pool p ! i)"
  shows "same_pages p (upd_frame i g p)"
  using assms keep_frame(2) [where i = i and g = g and p = p] by (simp add: same_pages_def)

definition all_bound :: "Pager \<Rightarrow> bool" where
  "all_bound p \<longleftrightarrow>
    (\<forall>i < length (pg_pool p). fr_pins (pg_pool p ! i) = 0 \<longrightarrow> fr_pgno (pg_pool p ! i) \<noteq> 0)"

definition evictable :: "Pager \<Rightarrow> nat \<Rightarrow> bool" where
  "evictable p i \<longleftrightarrow> i < length (pg_pool p) \<and> fr_pins (pg_pool p ! i) = 0 \<and> fr_pgno (pg_pool p ! i) = 0"

section \<open>Taking a clean frame\<close>

lemma take_frame_ok:
  assumes ok: "pager_ok p" and cl: "clean_ok p" and i: "i < length (pg_pool p)"
    and "fr_pgno (pg_pool p ! i) \<noteq> 0" and "\<not> fr_dirty (pg_pool p ! i)" and "fr_pins (pg_pool p ! i) = 0"
  shows "pager_ok (take_frame i p)" and "clean_ok (take_frame i p)" and "same_pages p (take_frame i p)"
    and "evictable (take_frame i p) i"
proof -
  let ?q = "take_frame i p" and ?k = "fr_pgno (pg_pool p ! i)"
  have ix: "pg_index p ?k = Some i" using pager_ok_index [OF ok] i assms(4) by simp
  have uniq: "m \<noteq> i" if "pg_index p j = Some m" "j \<noteq> ?k" for j m
    using that pager_ok_index [OF ok] by auto
  have one: "m = i" if "m < length (pg_pool p)" "fr_pgno (pg_pool p ! m) = ?k" for m
    using that ix assms(4) pager_ok_index [OF ok, of ?k m] by (metis option.inject)
  have q: "pg_index ?q = (pg_index p)(?k := None)" "pg_pageSize ?q = pg_pageSize p"
    "pg_file ?q = pg_file p" "pg_fs ?q = pg_fs p" "pg_hand ?q = pg_hand p" "live ?q = live p"
    "pg_header ?q = pg_header p" "pg_free ?q = pg_free p" "pg_dbSize ?q = pg_dbSize p"
    by (simp_all add: take_frame_def live_def)
  have nth: "pg_pool ?q ! j = (if j = i then (pg_pool p ! i)\<lparr>fr_pgno := 0, fr_dirty := False\<rparr> else pg_pool p ! j)" for j
    using i by (simp add: take_frame_def)
  have len: "length (pg_pool ?q) = length (pg_pool p)" by (simp add: take_frame_def)
  have fp: "file_page ?q = file_page p" by (intro ext) (simp add: file_page_def q)
  have "wf_index (pg_index ?q) (pg_pool ?q)"
    using ok uniq one by (auto simp: pager_ok_def wf_index_def q nth len)
  moreover have "\<forall>fr \<in> set (pg_pool ?q). length (fr_data fr) = pg_pageSize p"
    using pager_ok_frame [OF ok] i by (auto simp: in_set_conv_nth nth len)
  ultimately show "pager_ok ?q" using ok by (simp add: pager_ok_def q len)
  show "clean_ok ?q"
    using cl uniq by (auto simp: clean_ok_def q nth fp)
  have "take (pg_pageSize p - 4) (fr_data (pg_pool p ! i)) = take (pg_pageSize p - 4) (file_page p ?k)"
    using cl ix assms(5) by (simp add: clean_ok_def)
  then have "body ?q k = body p k" for k
    using ix uniq [of k] by (auto simp: body_def page_of_def q nth fp split: option.split)
  then show "same_pages p ?q" by (simp add: same_pages_def q nth len)
  show "evictable ?q i" using i assms(6) by (simp add: evictable_def nth len)
qed

section \<open>The CLOCK sweep\<close>

definition swept :: "Pager \<Rightarrow> Pager \<Rightarrow> nat option \<Rightarrow> bool" where
  "swept p p' r \<longleftrightarrow> pager_ok p' \<and> clean_ok p' \<and> same_pages p p' \<and>
     (case r of None \<Rightarrow> True | Some i \<Rightarrow> evictable p' i)"

lemma swept_trans: "same_pages p q \<Longrightarrow> swept q p' r \<Longrightarrow> swept p p' r"
  by (auto simp: swept_def intro: same_pages_trans)

lemma hand_step: "pager_ok p \<Longrightarrow> (pg_hand p + 1) mod length (pg_pool p) < length (pg_pool p)"
  by (auto simp: pager_ok_def intro: mod_less_divisor)

text \<open>One unpinned, unreferenced frame under the hand ends the sweep.\<close>

lemma sweep_takes:
  assumes ok: "pager_ok p" and cl: "clean_ok p" and ab: "all_bound p"
    and "fr_pins (pg_pool p ! pg_hand p) = 0" and "\<not> fr_ref (pg_pool p ! pg_hand p)"
  obtains p' where "clock_sweep (Suc m) p = Some (p', Some (pg_hand p))" and "swept p p' (Some (pg_hand p))"
proof -
  let ?i = "pg_hand p"
  define p1 where "p1 = p\<lparr>pg_hand := (?i + 1) mod length (pg_pool p)\<rparr>"
  have i: "?i < length (pg_pool p)" using ok by (simp add: pager_ok_def)
  have ok1: "pager_ok p1" using pager_ok_hand [OF ok hand_step [OF ok]] by (simp add: p1_def)
  have cl1: "clean_ok p1" using cl by (simp add: p1_def)
  have s1: "same_pages p p1" by (simp add: p1_def same_pages_hand)
  have pool1: "pg_pool p1 = pg_pool p" by (simp add: p1_def)
  have ne: "fr_pgno (pg_pool p ! ?i) \<noteq> 0" using ab i assms(4) by (simp add: all_bound_def)
  show thesis
  proof (cases "fr_dirty (pg_pool p ! ?i)")
    case False
    have t: "pager_ok (take_frame ?i p1)" "clean_ok (take_frame ?i p1)" "same_pages p1 (take_frame ?i p1)"
      "evictable (take_frame ?i p1) ?i"
      by (rule take_frame_ok [OF ok1 cl1]; use i ne False assms(4) pool1 in simp)+
    have "clock_sweep (Suc m) p = Some (take_frame ?i p1, Some ?i)"
      using assms(4,5) False by (simp add: p1_def Let_def)
    moreover have "swept p (take_frame ?i p1) (Some ?i)"
      using t same_pages_trans [OF s1 t(3)] by (simp add: swept_def)
    ultimately show thesis by (rule that)
  next
    case True
    obtain p2 d where w: "writeBack p1 ?i = Some (p2, Inr ())"
      "pg_pool p2 = (pg_pool p1)[?i := (pg_pool p1 ! ?i)\<lparr>fr_data := d, fr_dirty := False\<rparr>]"
      "pager_ok p2" "\<And>j. body p2 j = body p1 j" "clean_ok p1 \<Longrightarrow> clean_ok p2"
      "pg_index p2 = pg_index p1" "pg_free p2 = pg_free p1" "pg_dbSize p2 = pg_dbSize p1"
      "pg_header p2 = pg_header p1" "pg_pageSize p2 = pg_pageSize p1" "pg_file p2 = pg_file p1"
      by (rule writeBack_ok [OF ok1, of ?i]) (use i ne pool1 in auto)
    have nth: "pg_pool p2 ! j = (if j = ?i then (pg_pool p ! ?i)\<lparr>fr_data := d, fr_dirty := False\<rparr> else pg_pool p ! j)" for j
      using w(2) i pool1 by (simp add: nth_list_update)
    have len: "length (pg_pool p2) = length (pg_pool p)" using w(2) pool1 by simp
    have s2: "same_pages p1 p2" using w len pool1 nth by (simp add: same_pages_def)
    have t: "pager_ok (take_frame ?i p2)" "clean_ok (take_frame ?i p2)" "same_pages p2 (take_frame ?i p2)"
      "evictable (take_frame ?i p2) ?i"
      by (rule take_frame_ok [OF w(3) w(5) [OF cl1]]; use i ne assms(4) nth len in simp)+
    have "clock_sweep (Suc m) p = Some (take_frame ?i p2, Some ?i)"
      using assms(4,5) True w(1) by (simp add: p1_def Let_def)
    moreover have "swept p (take_frame ?i p2) (Some ?i)"
      using t same_pages_trans [OF same_pages_trans [OF s1 s2] t(3)] by (simp add: swept_def)
    ultimately show thesis by (rule that)
  qed
qed

text \<open>A pinned or referenced frame is passed by.\<close>

lemma sweep_passes:
  assumes ok: "pager_ok p" and cl: "clean_ok p" and ab: "all_bound p"
    and "fr_pins (pg_pool p ! pg_hand p) \<noteq> 0 \<or> fr_ref (pg_pool p ! pg_hand p)"
  obtains q where "clock_sweep (Suc m) p = clock_sweep m q" and "pager_ok q" and "clean_ok q"
    and "all_bound q" and "same_pages p q" and "pg_hand q = (pg_hand p + 1) mod length (pg_pool p)"
    and "\<And>j. j < length (pg_pool p) \<Longrightarrow> fr_ref (pg_pool q ! j) =
      (fr_ref (pg_pool p ! j) \<and> (j = pg_hand p \<longrightarrow> fr_pins (pg_pool p ! j) \<noteq> 0))"
proof -
  let ?i = "pg_hand p"
  define p1 where "p1 = p\<lparr>pg_hand := (?i + 1) mod length (pg_pool p)\<rparr>"
  have i: "?i < length (pg_pool p)" using ok by (simp add: pager_ok_def)
  have ok1: "pager_ok p1" using pager_ok_hand [OF ok hand_step [OF ok]] by (simp add: p1_def)
  have cl1: "clean_ok p1" using cl by (simp add: p1_def)
  have s1: "same_pages p p1" by (simp add: p1_def same_pages_hand)
  have pool1: "pg_pool p1 = pg_pool p" "pg_hand p1 = (?i + 1) mod length (pg_pool p)"
    by (simp_all add: p1_def)
  have ab1: "all_bound p1" using ab by (simp add: all_bound_def pool1)
  show thesis
  proof (cases "fr_pins (pg_pool p ! ?i) = 0")
    case False
    have "clock_sweep (Suc m) p = clock_sweep m p1" using False by (simp add: p1_def Let_def)
    then show thesis using that [of p1] ok1 cl1 ab1 s1 pool1 False by auto
  next
    case True
    let ?g = "\<lambda>fr. fr\<lparr>fr_ref := False\<rparr>"
    have i1: "?i < length (pg_pool p1)" using i pool1 by simp
    have id1: "same_identity (pg_pool p1 ! ?i) (?g (pg_pool p1 ! ?i))" by (simp add: same_identity_def)
    let ?q = "upd_frame ?i ?g p1"
    have "clock_sweep (Suc m) p = clock_sweep m ?q" using True assms(4) by (simp add: p1_def Let_def)
    moreover have "all_bound ?q" using ab1 i1 by (simp add: all_bound_def)
    moreover have "same_pages p ?q"
      using s1 same_pages_keep [where g = ?g, OF ok1 i1 id1] same_pages_trans by auto
    ultimately show thesis
      using that [of ?q] keep_frame [where g = ?g, OF ok1 i1 id1] cl1 pool1 i1 True by simp
  qed
qed

lemma clock_sweep_ok:
  assumes "pager_ok p" and "clean_ok p" and "all_bound p"
  shows "\<exists>p' r. clock_sweep m p = Some (p', r) \<and> swept p p' r"
  using assms
proof (induction m arbitrary: p)
  case 0
  then show ?case by (auto simp: swept_def intro: same_pages_refl)
next
  case (Suc m)
  show ?case
  proof (cases "fr_pins (pg_pool p ! pg_hand p) = 0 \<and> \<not> fr_ref (pg_pool p ! pg_hand p)")
    case True
    then obtain p' where "clock_sweep (Suc m) p = Some (p', Some (pg_hand p))"
      "swept p p' (Some (pg_hand p))"
      using sweep_takes [OF Suc.prems] by blast
    then show ?thesis by blast
  next
    case False
    then have "fr_pins (pg_pool p ! pg_hand p) \<noteq> 0 \<or> fr_ref (pg_pool p ! pg_hand p)" by simp
    then obtain q where q: "clock_sweep (Suc m) p = clock_sweep m q" "pager_ok q" "clean_ok q"
      "all_bound q" "same_pages p q"
      by (rule sweep_passes [OF Suc.prems, where m = m])
    then show ?thesis using Suc.IH [OF q(2-4)] swept_trans by metis
  qed
qed

text \<open>How many iterations the sweep needs until it can take frame \<open>j\<close>.\<close>

definition sweep_need :: "Pager \<Rightarrow> nat \<Rightarrow> nat" where
  "sweep_need p j =
    (let n = length (pg_pool p); h = pg_hand p in
     (if fr_ref (pg_pool p ! j) then n else 0) + (if h \<le> j then j - h else j + n - h) + 1)"

lemma clock_sweep_finds:
  assumes "pager_ok p" and "clean_ok p" and "all_bound p" and "j < length (pg_pool p)"
    and "fr_pins (pg_pool p ! j) = 0" and "sweep_need p j \<le> m"
  shows "\<exists>p' i. clock_sweep m p = Some (p', Some i)"
  using assms
proof (induction m arbitrary: p)
  case 0
  then show ?case by (simp add: sweep_need_def Let_def)
next
  case (Suc m)
  show ?case
  proof (cases "fr_pins (pg_pool p ! pg_hand p) = 0 \<and> \<not> fr_ref (pg_pool p ! pg_hand p)")
    case True
    then show ?thesis using sweep_takes [OF Suc.prems(1-3)] by blast
  next
    case False
    then have "fr_pins (pg_pool p ! pg_hand p) \<noteq> 0 \<or> fr_ref (pg_pool p ! pg_hand p)" by simp
    then obtain q where q: "clock_sweep (Suc m) p = clock_sweep m q" "pager_ok q" "clean_ok q"
      "all_bound q" "same_pages p q" "pg_hand q = (pg_hand p + 1) mod length (pg_pool p)"
      and r: "\<And>j. j < length (pg_pool p) \<Longrightarrow> fr_ref (pg_pool q ! j) =
        (fr_ref (pg_pool p ! j) \<and> (j = pg_hand p \<longrightarrow> fr_pins (pg_pool p ! j) \<noteq> 0))"
      by (rule sweep_passes [OF Suc.prems(1-3), where m = m]) (rule that)
    have len: "length (pg_pool q) = length (pg_pool p)" and pins: "fr_pins (pg_pool q ! j) = 0"
      using q(5) Suc.prems(4,5) by (simp_all add: same_pages_def)
    have h: "pg_hand p < length (pg_pool p)" using Suc.prems(1) by (simp add: pager_ok_def)
    have "sweep_need q j \<le> m"
    proof (cases "pg_hand p = j")
      case True
      then have "fr_ref (pg_pool p ! j)" "\<not> fr_ref (pg_pool q ! j)" using False Suc.prems(4,5) r by auto
      then show ?thesis using Suc.prems(4,6) True q(6) len
        by (cases "Suc j = length (pg_pool p)") (auto simp: sweep_need_def Let_def)
    next
      case False
      then have "fr_ref (pg_pool q ! j) = fr_ref (pg_pool p ! j)" using Suc.prems(4) r by auto
      then show ?thesis using Suc.prems(4,6) False q(6) len h
        by (cases "Suc (pg_hand p) = length (pg_pool p)") (auto simp: sweep_need_def Let_def split: if_splits)
    qed
    then show ?thesis using Suc.IH [OF q(2-4)] Suc.prems(4) len pins q(1) by simp
  qed
qed

lemma sweep_need_bound: "j < length (pg_pool p) \<Longrightarrow> pg_hand p < length (pg_pool p) \<Longrightarrow> sweep_need p j \<le> 2 * length (pg_pool p)"
  by (auto simp: sweep_need_def Let_def)

section \<open>Eviction and admission\<close>

lemma find_slot_None: "find_slot P b frs = None \<longleftrightarrow> (\<forall>fr \<in> set frs. \<not> P fr)"
  by (induction frs arbitrary: b) auto

lemma find_slot_Some: "find_slot P b frs = Some i \<Longrightarrow> b \<le> i \<and> i - b < length frs \<and> P (frs ! (i - b))"
proof (induction frs arbitrary: b)
  case (Cons fr frs)
  show ?case
  proof (cases "P fr")
    case False
    with Cons have "Suc b \<le> i \<and> i - Suc b < length frs \<and> P (frs ! (i - Suc b))" by simp
    then show ?thesis by (auto simp: nth_Cons' Suc_diff_Suc)
  qed (use Cons.prems in auto)
qed simp

lemma evict_ok:
  assumes "pager_ok p" and "clean_ok p"
  shows "\<exists>p' r. evict p = Some (p', r) \<and> swept p p' r \<and>
    (r = None \<longleftrightarrow> (\<forall>fr \<in> set (pg_pool p). fr_pins fr \<noteq> 0))"
proof (cases "find_slot (\<lambda>fr. fr_pgno fr = 0 \<and> fr_pins fr = 0) 0 (pg_pool p)")
  case (Some i)
  from find_slot_Some [OF this] have e: "evictable p i" by (auto simp: evictable_def)
  then have "\<exists>fr \<in> set (pg_pool p). fr_pins fr = 0" by (auto simp: evictable_def)
  with Some e assms show ?thesis by (auto simp: evict_def swept_def intro: same_pages_refl)
next
  case None
  then have ab: "all_bound p" by (auto simp: find_slot_None all_bound_def)
  obtain p' r where s: "clock_sweep (2 * length (pg_pool p)) p = Some (p', r)" "swept p p' r"
    using clock_sweep_ok [OF assms ab] by blast
  have "r = None \<longleftrightarrow> (\<forall>fr \<in> set (pg_pool p). fr_pins fr \<noteq> 0)"
  proof
    assume "r = None"
    show "\<forall>fr \<in> set (pg_pool p). fr_pins fr \<noteq> 0"
    proof (rule ccontr)
      assume "\<not> (\<forall>fr \<in> set (pg_pool p). fr_pins fr \<noteq> 0)"
      then obtain j where j: "j < length (pg_pool p)" "fr_pins (pg_pool p ! j) = 0"
        by (auto simp: in_set_conv_nth)
      have "sweep_need p j \<le> 2 * length (pg_pool p)"
        using sweep_need_bound j assms(1) by (simp add: pager_ok_def)
      then show False using clock_sweep_finds [OF assms ab j, of "2 * length (pg_pool p)"] s(1) \<open>r = None\<close> by auto
    qed
  next
    assume all: "\<forall>fr \<in> set (pg_pool p). fr_pins fr \<noteq> 0"
    show "r = None"
    proof (rule ccontr)
      assume "r \<noteq> None"
      then obtain i where "r = Some i" by blast
      then have "evictable p' i" "same_pages p p'" using s(2) by (auto simp: swept_def)
      then have "i < length (pg_pool p)" "fr_pins (pg_pool p ! i) = 0"
        by (auto simp: evictable_def same_pages_def)
      then show False using all by auto
    qed
  qed
  with s None show ?thesis by (auto simp: evict_def)
qed

end
