(* ===== verification/Pager_Store.thy ===== *)
theory Pager_Store
  imports Pager_Evict
begin

text \<open>
  The pager as a page store.  The abstract store maps allocated page numbers to bodies;
  pinning, writing, allocating, freeing and checkpointing through the buffer pool, with
  whatever evictions they cause, implement it.
\<close>

section \<open>Binding a frame\<close>

lemma bind_ok:
  assumes ok: "pager_ok q" and cl: "clean_ok q" and ev: "evictable q i" and k: "k \<noteq> 0" "pg_index q k = None"
    and fr: "fr_pgno fr = k" "length (fr_data fr) = pg_pageSize q"
    and dirty: "fr_dirty fr \<or> take (pg_pageSize q - 4) (fr_data fr) = take (pg_pageSize q - 4) (file_page q k)"
  defines "q' \<equiv> q\<lparr>pg_pool := (pg_pool q)[i := fr], pg_index := (pg_index q)(k \<mapsto> i)\<rparr>"
  shows "pager_ok q'" and "clean_ok q'" and "j \<noteq> k \<Longrightarrow> body q' j = body q j"
    and "body q' k = take (pg_pageSize q - 4) (fr_data fr)"
proof -
  have i: "i < length (pg_pool q)" "fr_pgno (pg_pool q ! i) = 0" using ev by (auto simp: evictable_def)
  have uniq: "m \<noteq> i" if "pg_index q j = Some m" for j m
    using that pager_ok_index [OF ok, of j m] i by auto
  have sel: "pg_pageSize q' = pg_pageSize q" "pg_index q' = (pg_index q)(k \<mapsto> i)" "live q' = live q"
    "pg_hand q' = pg_hand q" "pg_fs q' = pg_fs q" "pg_file q' = pg_file q"
    "length (pg_pool q') = length (pg_pool q)"
    by (simp_all add: q'_def live_def)
  have nth: "pg_pool q' ! j = (if j = i then fr else pg_pool q ! j)" for j
    using i by (simp add: q'_def nth_list_update)
  have fp: "file_page q' = file_page q" by (intro ext) (simp add: file_page_def sel)
  have none: "fr_pgno (pg_pool q ! m) \<noteq> k" if "m < length (pg_pool q)" for m
    using that k pager_ok_index [OF ok, of k m] by auto
  have "wf_index (pg_index q') (pg_pool q')"
    unfolding wf_index_def sel nth
    using ok uniq none fr(1) k(1) i by (auto simp: pager_ok_def wf_index_def)
  moreover have "\<forall>f \<in> set (pg_pool q'). length (fr_data f) = pg_pageSize q"
    using pager_ok_frame [OF ok] fr(2) by (auto simp: in_set_conv_nth nth sel)
  ultimately show "pager_ok q'" using ok by (simp add: pager_ok_def sel)
  show "clean_ok q'"
    unfolding clean_ok_def sel nth fp
    using cl uniq dirty k(2) by (auto simp: clean_ok_def)
  show "j \<noteq> k \<Longrightarrow> body q' j = body q j"
    using uniq by (auto simp: body_def page_of_def sel nth fp split: option.split)
  show "body q' k = take (pg_pageSize q - 4) (fr_data fr)"
    by (simp add: body_def page_of_def sel nth)
qed

section \<open>Pinning a page\<close>

text \<open>What a successful pin gives, and what it keeps.\<close>

definition pinned_as :: "Pager \<Rightarrow> u32 \<Rightarrow> Pager \<Rightarrow> nat \<Rightarrow> bool" where
  "pinned_as p k p' i \<longleftrightarrow>
     pager_ok p' \<and> clean_ok p' \<and> pg_index p' k = Some i \<and> 0 < fr_pins (pg_pool p' ! i) \<and>
     (\<forall>j. j \<noteq> k \<longrightarrow> body p' j = body p j) \<and>
     (\<forall>j m. pg_index p' j = Some m \<longrightarrow> j = k \<or> pg_index p j = Some m) \<and>
     pg_header p' = pg_header p \<and> pg_free p' = pg_free p \<and> pg_dbSize p' = pg_dbSize p \<and>
     pg_pageSize p' = pg_pageSize p \<and>
     (\<forall>m < length (pg_pool p'). 0 \<le> fr_pins (pg_pool p' ! m))"

definition pins_ok :: "Pager \<Rightarrow> bool" where
  "pins_ok p \<longleftrightarrow> (\<forall>i < length (pg_pool p). 0 \<le> fr_pins (pg_pool p ! i))"

definition all_pinned :: "Pager \<Rightarrow> bool" where
  "all_pinned p \<longleftrightarrow> (\<forall>fr \<in> set (pg_pool p). fr_pins fr \<noteq> 0)"

lemma evict_cases:
  assumes "pager_ok p" and "clean_ok p"
  obtains (full) p' where "evict p = Some (p', None)" and "all_pinned p" and "pager_ok p'"
      and "clean_ok p'" and "same_pages p p'"
  | (victim) p' i where "evict p = Some (p', Some i)" and "\<not> all_pinned p" and "pager_ok p'"
      and "clean_ok p'" and "same_pages p p'" and "evictable p' i"
proof -
  obtain p' r where e: "evict p = Some (p', r)" "swept p p' r" "r = None \<longleftrightarrow> all_pinned p"
    using evict_ok [OF assms] unfolding all_pinned_def by blast
  then show thesis using full victim by (cases r) (auto simp: swept_def)
qed

lemma same_pages_index_None: "same_pages p p' \<Longrightarrow> pg_index p k = None \<Longrightarrow> pg_index p' k = None"
  by (metis not_None_eq option.distinct(1) same_pages_def)

lemma Get_resident:
  assumes ok: "pager_ok p" and cl: "clean_ok p" and pins: "pins_ok p"
    and k: "k \<noteq> 0" and ix: "pg_index p k = Some i"
  shows "Get p k intent = Some (upd_frame i pin p, Inr i)" and "pinned_as p k (upd_frame i pin p) i"
    and "body (upd_frame i pin p) k = body p k"
proof -
  have i: "i < length (pg_pool p)" using ix pager_ok_index [OF ok] by blast
  have id: "same_identity (pg_pool p ! i) (pin (pg_pool p ! i))" by (simp add: same_identity_def pin_def)
  note keep = keep_frame [where g = pin, OF ok i id]
  show "Get p k intent = Some (upd_frame i pin p, Inr i)" using k ix by (simp add: Get_def)
  show "pinned_as p k (upd_frame i pin p) i"
    using keep cl ix i pins by (auto simp: pinned_as_def pins_ok_def pin_def)
  show "body (upd_frame i pin p) k = body p k" by (rule keep(2))
qed

lemma ReadAt_page:
  assumes "pager_ok p" and "length old = pg_pageSize p"
  shows "(case ReadAt (pg_fs p) (pg_file p) old (page_off p k) of
      (d, _, None) \<Rightarrow> d | (d, _, Some _) \<Rightarrow> replicate (length old) 0) = file_page p k"
proof (cases "page_off p k + pg_pageSize p \<le> length (live p)")
  case True
  moreover have "old \<noteq> []" using assms pager_ok_page_size [OF assms(1)] by auto
  ultimately have "ReadAt (pg_fs p) (pg_file p) old (page_off p k)
      = (get_at (page_off p k) (pg_pageSize p) (live p), pg_pageSize p, None)"
    using assms(2) by (simp add: ReadAt_def live_def [symmetric] read_bytes_full)
  with True show ?thesis by (simp add: file_page_def page_at_def page_off_def add.commute)
next
  case False
  then have "\<exists>d n. ReadAt (pg_fs p) (pg_file p) old (page_off p k) = (d, n, Some EOF)"
    using assms(2) by (auto simp: ReadAt_def read_bytes_def Let_def live_def min_def)
  with False assms(2) show ?thesis
    by (auto simp: file_page_def page_at_def page_off_def add.commute)
qed

lemma admitted:
  assumes ok: "pager_ok p" and cl: "clean_ok p" and pins: "pins_ok p" and k: "k \<noteq> 0" "pg_index p k = None"
    and e: "evict p = Some (q, Some i)" "pager_ok q" "clean_ok q" "same_pages p q" "evictable q i"
    and fr: "fr_pgno fr = k" "length (fr_data fr) = pg_pageSize q" "fr_pins fr = 1"
    and dirty: "fr_dirty fr \<or> take (pg_pageSize q - 4) (fr_data fr) = take (pg_pageSize q - 4) (file_page q k)"
  shows "pinned_as p k (q\<lparr>pg_pool := (pg_pool q)[i := fr], pg_index := (pg_index q)(k \<mapsto> i)\<rparr>) i"
proof -
  have none: "pg_index q k = None" by (rule same_pages_index_None [OF e(4) k(2)])
  have i: "i < length (pg_pool q)" using e(5) by (simp add: evictable_def)
  note b = bind_ok [OF e(2,3,5) k(1) none fr(1,2) dirty]
  show ?thesis
    using b(1,2) b(3) e(4) i fr(3) pins
    by (auto simp: pinned_as_def same_pages_def nth_list_update pins_ok_def)
qed

lemma Get_absent:
  assumes ok: "pager_ok p" and cl: "clean_ok p" and pins: "pins_ok p" and k: "k \<noteq> 0" "pg_index p k = None"
  obtains (full) p' where "Get p k intent = Some (p', Inl PoolExhausted)" and "all_pinned p"
      and "pager_ok p'" and "clean_ok p'" and "same_pages p p'"
  | (got) p' i where "Get p k intent = Some (p', Inr i)" and "\<not> all_pinned p" and "pinned_as p k p' i"
      and "body p' k = body p k"
  using ok cl
proof (cases rule: evict_cases)
  case (full q)
  then have "Get p k intent = Some (q, Inl PoolExhausted)" using k by (simp add: Get_def admit_def)
  with full show thesis by (intro that(1))
next
  case (victim q i)
  let ?fr = "pin ((pg_pool q ! i)\<lparr>fr_pgno := k, fr_dirty := False, fr_ref := False, fr_data := file_page q k\<rparr>)"
  let ?q = "q\<lparr>pg_pool := (pg_pool q)[i := ?fr], pg_index := (pg_index q)(k \<mapsto> i)\<rparr>"
  have i: "i < length (pg_pool q)" "fr_pins (pg_pool q ! i) = 0" using victim(6) by (auto simp: evictable_def)
  have old: "length (fr_data (pg_pool q ! i)) = pg_pageSize q" by (rule pager_ok_frame [OF victim(3) i(1)])
  have none: "pg_index q k = None" by (rule same_pages_index_None [OF victim(5) k(2)])
  have "Get p k intent = Some (?q, Inr i)"
    using k i ReadAt_page [OF victim(3) old, of k]
    by (simp add: Get_def admit_def victim(1) Let_def upd_frame_def page_off_def)
  moreover have "pinned_as p k ?q i"
    by (rule admitted [OF ok cl pins k victim(1,3,4,5,6)]) (simp_all add: pin_def file_page_def i)
  moreover have "body ?q k = body p k"
  proof -
    have "body ?q k = take (pg_pageSize q - 4) (fr_data ?fr)"
      by (rule bind_ok(4) [OF victim(3,4,6) k(1) none]) (simp_all add: pin_def file_page_def)
    also have "\<dots> = body q k" by (simp add: body_def page_of_def none pin_def)
    also have "\<dots> = body p k" using victim(5) by (simp add: same_pages_def)
    finally show ?thesis .
  qed
  ultimately show thesis using that(2) victim(2) by blast
qed

section \<open>Allocation\<close>

lemma Allocate_cases:
  assumes ok: "pager_ok p" and cl: "clean_ok p" and pins: "pins_ok p"
    and a: "(k, p0) = (if pg_free p \<noteq> [] then (last (pg_free p), p\<lparr>pg_free := butlast (pg_free p)\<rparr>)
        else (pg_dbSize p + 1, p\<lparr>pg_dbSize := pg_dbSize p + 1\<rparr>))"
    and k: "k \<noteq> 0" "pg_index p k = None"
  obtains (full) p' where "Allocate p = Some (p', Inl PoolExhausted)" and "all_pinned p"
      and "pager_ok p'" and "clean_ok p'" and "same_pages p0 p'"
  | (got) p' i where "Allocate p = Some (p', Inr (k, i))" and "\<not> all_pinned p" and "pinned_as p0 k p' i"
      and "body p' k = replicate (pg_pageSize p - 4) 0" and "fr_dirty (pg_pool p' ! i)"
proof -
  have sel: "pg_pool p0 = pg_pool p" "pg_index p0 = pg_index p" "pg_pageSize p0 = pg_pageSize p"
    "pg_hand p0 = pg_hand p" "live p0 = live p" "pg_fs p0 = pg_fs p" "pg_file p0 = pg_file p"
    using a by (auto simp: live_def split: if_splits)
  have fp: "file_page p0 = file_page p" by (intro ext) (simp add: file_page_def sel)
  have ok0: "pager_ok p0" using ok by (simp add: pager_ok_def sel)
  have cl0: "clean_ok p0" using cl by (simp add: clean_ok_def sel fp)
  have pins0: "pins_ok p0" using pins by (simp add: pins_ok_def sel)
  have none0: "pg_index p0 k = None" using k by (simp add: sel)
  have al: "Allocate p = (case admit p0 k of
          None \<Rightarrow> None
        | Some (p2, Inl err) \<Rightarrow> Some (p2, Inl err)
        | Some (p2, Inr i) \<Rightarrow>
            Some (upd_frame i (\<lambda>fr. pin (fr\<lparr>fr_data := replicate (length (fr_data fr)) 0,
                                             fr_dirty := True\<rparr>)) p2, Inr (k, i)))"
    unfolding Allocate_def a [symmetric] by simp
  show thesis
    using ok0 cl0
  proof (cases rule: evict_cases)
    case (full q)
    then have "Allocate p = Some (q, Inl PoolExhausted)" by (simp add: al admit_def)
    moreover have "all_pinned p" using full(2) by (simp add: all_pinned_def sel)
    ultimately show thesis using that(1) full by blast
  next
    case (victim q i)
    let ?fr = "pin ((pg_pool q ! i)\<lparr>fr_pgno := k, fr_ref := False,
      fr_data := replicate (length (fr_data (pg_pool q ! i))) 0, fr_dirty := True\<rparr>)"
    let ?q = "q\<lparr>pg_pool := (pg_pool q)[i := ?fr], pg_index := (pg_index q)(k \<mapsto> i)\<rparr>"
    have i: "i < length (pg_pool q)" "fr_pins (pg_pool q ! i) = 0" using victim(6) by (auto simp: evictable_def)
    have old: "length (fr_data (pg_pool q ! i)) = pg_pageSize q" by (rule pager_ok_frame [OF victim(3) i(1)])
    have none: "pg_index q k = None" by (rule same_pages_index_None [OF victim(5) none0])
    have ps: "pg_pageSize q = pg_pageSize p" using victim(5) by (simp add: same_pages_def sel)
    have "Allocate p = Some (?q, Inr (k, i))"
      using i by (simp add: al admit_def victim(1) upd_frame_def)
    moreover have "pinned_as p0 k ?q i"
      by (rule admitted [OF ok0 cl0 pins0 k(1) none0 victim(1,3,4,5,6)]) (simp_all add: pin_def i old)
    moreover have "body ?q k = take (pg_pageSize q - 4) (fr_data ?fr)"
      by (rule bind_ok(4) [OF victim(3,4,6) k(1) none]) (simp_all add: pin_def old)
    moreover have "\<not> all_pinned p" using victim(2) by (simp add: all_pinned_def sel)
    ultimately show thesis using that(2) [of ?q i] i by (simp add: pin_def old ps)
  qed
qed

section \<open>Unpinning, freeing, writing pages in place\<close>

lemma Unpin_ok:
  assumes ok: "pager_ok p" and i: "i < length (pg_pool p)" and cl: "clean_ok p"
  shows "pager_ok (Unpin p i dirty)" and "body (Unpin p i dirty) k = body p k" and "clean_ok (Unpin p i dirty)"
proof -
  let ?q = "Unpin p i dirty"
  have nth: "fr_pgno (pg_pool ?q ! j) = fr_pgno (pg_pool p ! j)"
    "fr_data (pg_pool ?q ! j) = fr_data (pg_pool p ! j)"
    "fr_dirty (pg_pool p ! j) \<Longrightarrow> fr_dirty (pg_pool ?q ! j)" for j
    using i by (auto simp: Unpin_def)
  have sel: "pg_index ?q = pg_index p" "pg_pageSize ?q = pg_pageSize p" "live ?q = live p"
    "length (pg_pool ?q) = length (pg_pool p)" "pg_hand ?q = pg_hand p" "pg_fs ?q = pg_fs p"
    "pg_file ?q = pg_file p"
    by (simp_all add: Unpin_def)
  have fp: "file_page ?q = file_page p" by (intro ext) (simp add: file_page_def sel)
  have "wf_index (pg_index p) (pg_pool ?q)"
    using ok wf_index_same [of "pg_index p" "pg_pool p" "pg_pool ?q"] nth sel by (simp add: pager_ok_def)
  moreover have "\<forall>f \<in> set (pg_pool ?q). length (fr_data f) = pg_pageSize p"
    using pager_ok_frame [OF ok] by (auto simp: in_set_conv_nth nth sel)
  ultimately show "pager_ok ?q" using ok by (simp add: pager_ok_def sel)
  show "body ?q k = body p k" by (simp add: body_def page_of_def sel nth fp split: option.split)
  show "clean_ok ?q" using cl nth(3) by (auto simp: clean_ok_def sel nth(1,2) fp)
qed

text \<open>The client's write through a pinned frame, declared at the unpin.\<close>

definition put_page :: "Pager \<Rightarrow> nat \<Rightarrow> bytes \<Rightarrow> Pager" where
  "put_page p i d = Unpin (upd_frame i (\<lambda>fr. fr\<lparr>fr_data := d\<rparr>) p) i True"

lemma put_page_ok:
  assumes ok: "pager_ok p" and ix: "pg_index p k = Some i" and cl: "clean_ok p"
    and d: "length d = pg_pageSize p"
  shows "pager_ok (put_page p i d)" and "clean_ok (put_page p i d)"
    and "body (put_page p i d) j = (if j = k then take (pg_pageSize p - 4) d else body p j)"
proof -
  let ?q = "put_page p i d"
  have i: "i < length (pg_pool p)" and k: "fr_pgno (pg_pool p ! i) = k" "k \<noteq> 0"
    using ix pager_ok_index [OF ok] by blast+
  have uniq: "m \<noteq> i" if "pg_index p j = Some m" "j \<noteq> k" for j m
    using that pager_ok_index [OF ok] k by auto
  have nth: "pg_pool ?q ! j = (if j = i
      then (pg_pool p ! i)\<lparr>fr_data := d, fr_dirty := True, fr_pins := fr_pins (pg_pool p ! i) - 1\<rparr>
      else pg_pool p ! j)" for j
    using i by (simp add: put_page_def Unpin_def)
  have sel: "pg_index ?q = pg_index p" "pg_pageSize ?q = pg_pageSize p" "live ?q = live p"
    "length (pg_pool ?q) = length (pg_pool p)" "pg_hand ?q = pg_hand p" "pg_fs ?q = pg_fs p"
    "pg_file ?q = pg_file p"
    by (simp_all add: put_page_def Unpin_def)
  have fp: "file_page ?q = file_page p" by (intro ext) (simp add: file_page_def sel)
  have "wf_index (pg_index p) (pg_pool ?q)"
    using ok wf_index_same [of "pg_index p" "pg_pool p" "pg_pool ?q"] nth sel by (simp add: pager_ok_def)
  moreover have "\<forall>f \<in> set (pg_pool ?q). length (fr_data f) = pg_pageSize p"
    using pager_ok_frame [OF ok] d by (auto simp: in_set_conv_nth nth sel)
  ultimately show "pager_ok ?q" using ok by (simp add: pager_ok_def sel)
  show "clean_ok ?q" using cl by (auto simp: clean_ok_def sel nth fp)
  show "body ?q j = (if j = k then take (pg_pageSize p - 4) d else body p j)"
    using ix uniq [of j] by (auto simp: body_def page_of_def sel nth fp split: option.split)
qed

lemma Free_ok:
  assumes ok: "pager_ok p" and cl: "clean_ok p"
  shows "pager_ok (Free p k)" and "clean_ok (Free p k)" and "j \<noteq> k \<Longrightarrow> body (Free p k) j = body p j"
    and "pg_index (Free p k) = (pg_index p)(k := None)"
proof -
  let ?q = "Free p k"
  have sel: "pg_index ?q = (pg_index p)(k := None)" "pg_pageSize ?q = pg_pageSize p" "live ?q = live p"
    "length (pg_pool ?q) = length (pg_pool p)" "pg_hand ?q = pg_hand p" "pg_fs ?q = pg_fs p"
    "pg_file ?q = pg_file p"
    by (auto simp: Free_def Let_def live_def split: option.split)
  have nth: "pg_pool ?q ! j = (if pg_index p k = Some j
      then (pg_pool p ! j)\<lparr>fr_pgno := 0, fr_dirty := False, fr_ref := False\<rparr> else pg_pool p ! j)" for j
  proof (cases "pg_index p k")
    case (Some i)
    then have "i < length (pg_pool p)" using pager_ok_index [OF ok] by blast
    with Some show ?thesis by (auto simp: Free_def)
  qed (simp add: Free_def)
  have inj: "j = k" if "pg_index p j = Some m" "pg_index p k = Some m" for j m
    using that pager_ok_index [OF ok] by metis
  have fp: "file_page ?q = file_page p" by (intro ext) (simp add: file_page_def sel)
  have "wf_index (pg_index ?q) (pg_pool ?q)"
    unfolding wf_index_def
  proof (intro allI)
    fix j m
    show "(pg_index ?q j = Some m) = (j \<noteq> 0 \<and> m < length (pg_pool ?q) \<and> fr_pgno (pg_pool ?q ! m) = j)"
    proof (cases "pg_index p k = Some m")
      case True
      then have "fr_pgno (pg_pool ?q ! m) = 0" by (simp add: nth)
      moreover have "pg_index ?q j \<noteq> Some m" using True inj [of j m] by (auto simp: sel)
      ultimately show ?thesis by auto
    next
      case False
      then have "pg_pool ?q ! m = pg_pool p ! m" by (simp add: nth)
      then have "(pg_index p j = Some m) = (j \<noteq> 0 \<and> m < length (pg_pool ?q) \<and> fr_pgno (pg_pool ?q ! m) = j)"
        by (simp only: sel pager_ok_index [OF ok])
      moreover have "(pg_index ?q j = Some m) = (pg_index p j = Some m)" using False by (auto simp: sel)
      ultimately show ?thesis by blast
    qed
  qed
  moreover have "\<forall>f \<in> set (pg_pool ?q). length (fr_data f) = pg_pageSize p"
    using pager_ok_frame [OF ok] by (auto simp: in_set_conv_nth nth sel)
  ultimately show "pager_ok ?q" using ok by (simp add: pager_ok_def sel)
  show "clean_ok ?q" using cl inj by (auto simp: clean_ok_def sel nth fp)
  show "j \<noteq> k \<Longrightarrow> body ?q j = body p j"
    using inj [of j] by (auto simp: body_def page_of_def sel nth fp split: option.split)
  show "pg_index ?q = (pg_index p)(k := None)" by (rule sel)
qed

text \<open>A page image written straight to the file, for a page that is not resident.\<close>

lemma file_write_ok:
  assumes ok: "pager_ok p" and cl: "clean_ok p" and none: "pg_index p k = None"
    and d: "length d = pg_pageSize p" and wr: "WriteAt (pg_fs p) (pg_file p) d (page_off p k) = (fs, r)"
  shows "pager_ok (p\<lparr>pg_fs := fs\<rparr>)" and "clean_ok (p\<lparr>pg_fs := fs\<rparr>)"
    and "j \<noteq> k \<Longrightarrow> body (p\<lparr>pg_fs := fs\<rparr>) j = body p j"
    and "file_page (p\<lparr>pg_fs := fs\<rparr>) j = (if j = k then d else file_page p j)"
proof -
  let ?q = "p\<lparr>pg_fs := fs\<rparr>"
  have lv: "live ?q = write_bytes (live p) d (page_off p k)"
    using live_WriteAt [OF wr] by (simp add: live_def)
  have fp: "file_page ?q j = (if j = k then d else file_page p j)" for j
    by (rule file_page_other [OF ok d lv]) simp
  have "mem_ok (pg_file p) fs"
    using ok wr mf.wr_ok [of "pg_file p" "pg_fs p"] by (metis fst_conv pager_ok_def)
  moreover have "pg_pageSize p dvd length (live ?q)"
    using ok d dvd_length_write lv by (simp add: pager_ok_def page_off_def)
  ultimately show "pager_ok ?q" using ok by (simp add: pager_ok_def)
  show "clean_ok ?q" using cl none fp by (auto simp: clean_ok_def)
  show "j \<noteq> k \<Longrightarrow> body ?q j = body p j" using fp by (simp add: body_def page_of_def split: option.split)
  show "file_page ?q j = (if j = k then d else file_page p j)" by (rule fp)
qed

end
