(* ===== verification/Pager_Freelist.thy ===== *)
theory Pager_Freelist
  imports Pager_Store "HOL-Library.Multiset"
begin

text \<open>
  The freelist on disk: a checkpoint stores the free pages in a chain of trunk pages taken
  from the freelist itself, and following the chain on open ends and returns the same
  pages.
\<close>

section \<open>Choosing trunk pages\<close>

lemma ceil_div_bound:
  fixes m cp n :: nat
  assumes "0 < cp" and "(m + cp - 1) div cp \<le> n"
  shows "m \<le> cp * n"
proof -
  have "m + cp - 1 < cp + cp * ((m + cp - 1) div cp)"
    using assms(1) by (rule dividend_less_times_div)
  also have "\<dots> \<le> cp + cp * n" using assms(2) by simp
  finally show ?thesis by linarith
qed

lemma pick_trunks_enough:
  assumes "0 < cp" and "length trunks \<le> length free"
  shows "length (pick_trunks free cp trunks) \<le> length free \<and>
    length free - length (pick_trunks free cp trunks) \<le> cp * length (pick_trunks free cp trunks)"
  using assms
proof (induction free cp trunks rule: pick_trunks.induct)
  case (1 free cp trunks)
  show ?case
  proof (cases "(length free - length trunks + cp - 1) div cp \<le> length trunks")
    case True
    then have "pick_trunks free cp trunks = trunks" by (subst pick_trunks.simps) (simp add: Let_def)
    then show ?thesis using ceil_div_bound [OF "1.prems"(1) True] "1.prems"(2) by simp
  next
    case False
    then have "length free - length trunks \<noteq> 0" using "1.prems"(1) by (cases cp) auto
    then have "length (trunks @ [free ! (length free - 1 - length trunks)]) \<le> length free" by simp
    moreover have "pick_trunks free cp trunks
        = pick_trunks free cp (trunks @ [free ! (length free - 1 - length trunks)])"
      using False by (subst pick_trunks.simps) (simp add: Let_def)
    ultimately show ?thesis using "1.IH" [OF refl refl refl] False "1.prems"(1) by (simp only: simp_thms)
  qed
qed

section \<open>Trunk chains in the file\<close>

definition page_present :: "Pager \<Rightarrow> u32 \<Rightarrow> bool" where
  "page_present p k \<longleftrightarrow> page_off p k + pg_pageSize p \<le> length (live p)"

inductive chain_in :: "Pager \<Rightarrow> u32 \<Rightarrow> u32 list \<Rightarrow> u32 set \<Rightarrow> bool" for p where
  chain_end: "chain_in p 0 [] {}"
| chain_trunk: "t \<noteq> 0 \<Longrightarrow> page_present p t \<Longrightarrow> DecodeTrunk (file_page p t) = Some \<lparr>tp_Next = n, tp_Leafs = ls\<rparr> \<Longrightarrow>
    chain_in p n L T \<Longrightarrow> chain_in p t (ls @ [t] @ L) (insert t T)"

lemma ReadAt_present:
  assumes "pager_ok p" and "page_present p k"
  shows "ReadAt (pg_fs p) (pg_file p) (replicate (pg_pageSize p) 0) (page_off p k)
    = (file_page p k, pg_pageSize p, None)"
  using assms pager_ok_page_size [OF assms(1)]
  by (subst ReadAt_def, subst read_bytes_full)
    (auto simp: page_present_def live_def [symmetric] file_page_def page_at_def page_off_def add.commute)

lemma load_chain_in:
  assumes "chain_in p t L T" and "pager_ok p"
  shows "load_chain p t acc = Some (Some (Inr (acc @ L)))"
  using assms
proof (induction arbitrary: acc rule: chain_in.induct)
  case chain_end
  then show ?case by (simp add: load_chain.simps)
next
  case (chain_trunk t n ls L T)
  then show ?case by (subst load_chain.simps) (simp add: ReadAt_present)
qed

lemma chain_in_write:
  assumes "chain_in p t L T" and "k \<notin> T"
    and "\<And>j. j \<noteq> k \<Longrightarrow> file_page p' j = file_page p j" and "\<And>j. page_present p j \<Longrightarrow> page_present p' j"
  shows "chain_in p' t L T"
  using assms(1,2)
proof (induction rule: chain_in.induct)
  case (chain_trunk t n ls L T)
  then show ?case using assms(3) [of t] assms(4) by (intro chain_in.chain_trunk) auto
qed (rule chain_in.chain_end)

lemma present_write:
  assumes "WriteAt (pg_fs p) (pg_file p) d (page_off p k) = (fs, r)" and "length d = pg_pageSize p"
  shows "page_present (p\<lparr>pg_fs := fs\<rparr>) k"
    and "page_present p j \<Longrightarrow> page_present (p\<lparr>pg_fs := fs\<rparr>) j"
  using live_WriteAt [OF assms(1)] assms(2)
  by (auto simp: page_present_def page_off_def live_def le_max_iff_disj)

text \<open>Writing the trunk pages.\<close>

lemma write_trunks_ok:
  assumes "pager_ok p" and "clean_ok p" and "chain_in p next L T"
    and "\<forall>t \<in> set ts. t \<noteq> 0 \<and> pg_index p t = None \<and> t \<notin> T" and "distinct ts"
    and "int cp \<le> TrunkCapacity (int (pg_pageSize p)) r" and "length buf = pg_pageSize p"
    and "length leaves \<le> cp * length ts"
  shows "\<exists>fs head L' T'. write_trunks cp leaves ts next buf p = Some (p\<lparr>pg_fs := fs\<rparr>, Inr head) \<and>
    pager_ok (p\<lparr>pg_fs := fs\<rparr>) \<and> clean_ok (p\<lparr>pg_fs := fs\<rparr>) \<and>
    (\<forall>j. j \<notin> set ts \<longrightarrow> body (p\<lparr>pg_fs := fs\<rparr>) j = body p j \<and> file_page (p\<lparr>pg_fs := fs\<rparr>) j = file_page p j) \<and>
    (\<forall>j. page_present p j \<longrightarrow> page_present (p\<lparr>pg_fs := fs\<rparr>) j) \<and>
    chain_in (p\<lparr>pg_fs := fs\<rparr>) head L' T' \<and> T' = T \<union> set ts \<and> mset L' = mset L + mset leaves + mset ts"
  using assms
proof (induction ts arbitrary: leaves "next" buf p L T)
  case Nil
  then show ?case by (intro exI [of _ "pg_fs p"] exI [of _ "next"] exI [of _ L] exI [of _ T]) simp
next
  case (Cons t ts)
  let ?tp = "\<lparr>tp_Next = next, tp_Leafs = take cp leaves\<rparr>"
  have vps: "ValidPageSize (int (length buf))" using Cons.prems(1,7) by (simp add: pager_ok_def)
  have cap: "int (length (tp_Leafs ?tp)) \<le> TrunkCapacity (int (length buf)) r"
    using Cons.prems(6,7) by simp
  obtain b1 b2 where enc: "EncodeTrunk buf ?tp = Some b1"
    "WritePageChecksum b1 (hdr_Checksum (pg_header p)) = Some b2"
    "length b2 = length buf" "DecodeTrunk b2 = Some ?tp"
    by (rule trunk_page_roundtrip [OF vps cap])
  have len: "length b2 = pg_pageSize p" using enc(3) Cons.prems(7) by simp
  obtain fs r where wr: "WriteAt (pg_fs p) (pg_file p) b2 (page_off p t) = (fs, r)" by fastforce
  let ?p = "p\<lparr>pg_fs := fs\<rparr>"
  have r: "r = Inr (length b2)" using live_WriteAt [OF wr] by simp
  have none: "pg_index p t = None" "t \<noteq> 0" "t \<notin> T" using Cons.prems(4) by auto
  note w = file_write_ok [OF Cons.prems(1,2) none(1) len wr]
  note pr = present_write [OF wr len]
  have "chain_in ?p next L T"
    by (rule chain_in_write [OF Cons.prems(3) none(3)]) (auto simp: w(4) pr(2))
  then have ch: "chain_in ?p t (take cp leaves @ [t] @ L) (insert t T)"
    using none(2) pr(1) enc(4) by (intro chain_trunk) (simp_all add: w(4))
  have "\<exists>fs' head L' T'. write_trunks cp (drop cp leaves) ts t b2 ?p = Some (?p\<lparr>pg_fs := fs'\<rparr>, Inr head) \<and>
    pager_ok (?p\<lparr>pg_fs := fs'\<rparr>) \<and> clean_ok (?p\<lparr>pg_fs := fs'\<rparr>) \<and>
    (\<forall>j. j \<notin> set ts \<longrightarrow> body (?p\<lparr>pg_fs := fs'\<rparr>) j = body ?p j \<and> file_page (?p\<lparr>pg_fs := fs'\<rparr>) j = file_page ?p j) \<and>
    (\<forall>j. page_present ?p j \<longrightarrow> page_present (?p\<lparr>pg_fs := fs'\<rparr>) j) \<and>
    chain_in (?p\<lparr>pg_fs := fs'\<rparr>) head L' T' \<and> T' = insert t T \<union> set ts \<and>
    mset L' = mset (take cp leaves @ [t] @ L) + mset (drop cp leaves) + mset ts"
    by (rule Cons.IH [OF w(1,2) ch]) (use Cons.prems len in auto)
  then obtain fs' head L' T' where *: "write_trunks cp (drop cp leaves) ts t b2 ?p = Some (?p\<lparr>pg_fs := fs'\<rparr>, Inr head)"
    "pager_ok (?p\<lparr>pg_fs := fs'\<rparr>)" "clean_ok (?p\<lparr>pg_fs := fs'\<rparr>)"
    "\<forall>j. j \<notin> set ts \<longrightarrow> body (?p\<lparr>pg_fs := fs'\<rparr>) j = body ?p j \<and> file_page (?p\<lparr>pg_fs := fs'\<rparr>) j = file_page ?p j"
    "\<forall>j. page_present ?p j \<longrightarrow> page_present (?p\<lparr>pg_fs := fs'\<rparr>) j"
    "chain_in (?p\<lparr>pg_fs := fs'\<rparr>) head L' T'" "T' = insert t T \<union> set ts"
    "mset L' = mset (take cp leaves @ [t] @ L) + mset (drop cp leaves) + mset ts"
    by blast
  have "mset (take cp leaves) + mset (drop cp leaves) = mset leaves"
    by (metis append_take_drop_id mset_append)
  with *(8) have "mset L' = mset L + mset leaves + mset (t # ts)" by (simp add: ac_simps)
  moreover have "write_trunks cp leaves (t # ts) next buf p = Some (p\<lparr>pg_fs := fs'\<rparr>, Inr head)"
    using *(1) enc(1,2) wr r by simp
  ultimately show ?case
    using *(2-7) w(3,4) pr(2) by (intro exI [of _ fs'] exI [of _ head] exI [of _ L'] exI [of _ T']) auto
qed

end
