(* ===== verification/Pager_Refine.thy ===== *)
theory Pager_Refine
  imports Pager_Freelist
begin

text \<open>
  The pager refines a store of page bodies, and a checkpointed file reopens to the same
  bodies and the same set of free pages.
\<close>

section \<open>Checkpoint\<close>

definition header_ok :: "Pager \<Rightarrow> bool" where
  "header_ok p \<longleftrightarrow> hdr_PageSize (pg_header p) = int (pg_pageSize p) \<and> hdr_TextEncoding (pg_header p) = 0"

text \<open>The freelist's discipline: free pages are distinct, not resident and not the header page.\<close>

definition free_ok :: "Pager \<Rightarrow> bool" where
  "free_ok p \<longleftrightarrow> distinct (pg_free p) \<and>
     (\<forall>k \<in> set (pg_free p). k \<noteq> 0 \<and> k \<noteq> 1 \<and> pg_index p k = None)"

lemma flush_frames_ok:
  assumes "pager_ok p" and "clean_ok p" and "\<forall>i \<in> set is. i < length (pg_pool p)"
  shows "\<exists>p'. flush_frames is p = Some (p', Inr ()) \<and> pager_ok p' \<and> clean_ok p' \<and> same_pages p p' \<and>
    pg_index p' = pg_index p \<and>
    (\<forall>i < length (pg_pool p). fr_pgno (pg_pool p' ! i) = fr_pgno (pg_pool p ! i) \<and>
      (fr_dirty (pg_pool p' ! i) \<longrightarrow> fr_dirty (pg_pool p ! i)) \<and>
      (i \<in> set is \<and> fr_dirty (pg_pool p' ! i) \<longrightarrow> fr_pgno (pg_pool p ! i) \<in> {0, 1}))"
  using assms
proof (induction "is" arbitrary: p)
  case Nil
  then show ?case by (auto intro: same_pages_refl)
next
  case (Cons i "is")
  let ?fr = "pg_pool p ! i"
  have i: "i < length (pg_pool p)" using Cons.prems(3) by simp
  show ?case
  proof (cases "fr_pgno ?fr \<noteq> 0 \<and> fr_dirty ?fr \<and> fr_pgno ?fr \<noteq> 1")
    case False
    obtain p' where p': "flush_frames is p = Some (p', Inr ())" "pager_ok p'" "clean_ok p'" "same_pages p p'"
      "pg_index p' = pg_index p"
      "\<forall>j < length (pg_pool p). fr_pgno (pg_pool p' ! j) = fr_pgno (pg_pool p ! j) \<and>
        (fr_dirty (pg_pool p' ! j) \<longrightarrow> fr_dirty (pg_pool p ! j)) \<and>
        (j \<in> set is \<and> fr_dirty (pg_pool p' ! j) \<longrightarrow> fr_pgno (pg_pool p ! j) \<in> {0, 1})"
      using Cons.IH [OF Cons.prems(1,2)] Cons.prems(3) by auto
    then show ?thesis using False i by (intro exI [of _ p']) (auto simp: Let_def)
  next
    case True
    obtain p1 d where w: "writeBack p i = Some (p1, Inr ())"
      "pg_pool p1 = (pg_pool p)[i := ?fr\<lparr>fr_data := d, fr_dirty := False\<rparr>]"
      "pager_ok p1" "\<And>j. body p1 j = body p j" "clean_ok p \<Longrightarrow> clean_ok p1" "pg_index p1 = pg_index p"
      "pg_free p1 = pg_free p" "pg_dbSize p1 = pg_dbSize p" "pg_header p1 = pg_header p"
      "pg_pageSize p1 = pg_pageSize p" "pg_file p1 = pg_file p"
      by (rule writeBack_ok [OF Cons.prems(1) i refl]) (use True in auto)
    have nth: "pg_pool p1 ! j = (if j = i then ?fr\<lparr>fr_data := d, fr_dirty := False\<rparr> else pg_pool p ! j)" for j
      using w(2) i by (simp add: nth_list_update)
    have len: "length (pg_pool p1) = length (pg_pool p)" using w(2) by simp
    have s1: "same_pages p p1" using w(4-11) len nth by (simp add: same_pages_def)
    obtain p' where p': "flush_frames is p1 = Some (p', Inr ())" "pager_ok p'" "clean_ok p'" "same_pages p1 p'"
      "pg_index p' = pg_index p1"
      "\<forall>j < length (pg_pool p1). fr_pgno (pg_pool p' ! j) = fr_pgno (pg_pool p1 ! j) \<and>
        (fr_dirty (pg_pool p' ! j) \<longrightarrow> fr_dirty (pg_pool p1 ! j)) \<and>
        (j \<in> set is \<and> fr_dirty (pg_pool p' ! j) \<longrightarrow> fr_pgno (pg_pool p1 ! j) \<in> {0, 1})"
      using Cons.IH [OF w(3) w(5) [OF Cons.prems(2)]] Cons.prems(3) len by auto
    have frames: "fr_pgno (pg_pool p' ! j) = fr_pgno (pg_pool p ! j) \<and>
        (fr_dirty (pg_pool p' ! j) \<longrightarrow> fr_dirty (pg_pool p ! j)) \<and>
        (j \<in> set (i # is) \<and> fr_dirty (pg_pool p' ! j) \<longrightarrow> fr_pgno (pg_pool p ! j) \<in> {0, 1})"
      if "j < length (pg_pool p)" for j
      using p'(6) that len nth [of j] by (cases "j = i") auto
    have "flush_frames (i # is) p = Some (p', Inr ())" using True w(1) p'(1) by (simp add: Let_def)
    with p'(2,3,5) same_pages_trans [OF s1 p'(4)] frames w(6) show ?thesis by (intro exI [of _ p']) simp
  qed
qed

lemma TrunkCapacity_pos:
  assumes "ValidPageSize ps"
  shows "0 < TrunkCapacity ps r"
proof -
  have "4096 \<le> ps" using ValidPageSize_cases [OF assms] by auto
  moreover have "uint r < 256" using uint_lt2p [of r] by simp
  ultimately have "4 \<le> ps - uint r - 4 - 32" by linarith
  then show ?thesis
    by (simp add: TrunkCapacity_def BodyRange_def PageHeaderSize_def PageChecksumSize_def trunkBodyStart_def)
qed

lemma chain_in_cong:
  assumes "chain_in p t L T" and "live p' = live p" and "pg_pageSize p' = pg_pageSize p"
  shows "chain_in p' t L T"
  using assms
proof (induction rule: chain_in.induct)
  case chain_end
  show ?case by (rule chain_in.chain_end)
next
  case (chain_trunk t n ls L T)
  then show ?case
    by (intro chain_in.chain_trunk) (simp_all add: file_page_def page_present_def page_off_def)
qed

lemma persistFreelist_ok:
  assumes ok: "pager_ok p" and cl: "clean_ok p" and fr: "free_ok p"
  obtains fs h L T where "persistFreelist p = Some (p\<lparr>pg_fs := fs, pg_header := h\<rparr>, Inr ())"
    and "pager_ok (p\<lparr>pg_fs := fs\<rparr>)" and "clean_ok (p\<lparr>pg_fs := fs\<rparr>)"
    and "\<forall>j. j \<notin> set (pg_free p) \<longrightarrow> body (p\<lparr>pg_fs := fs\<rparr>) j = body p j \<and>
      file_page (p\<lparr>pg_fs := fs\<rparr>) j = file_page p j"
    and "\<forall>j. page_present p j \<longrightarrow> page_present (p\<lparr>pg_fs := fs\<rparr>) j"
    and "chain_in (p\<lparr>pg_fs := fs\<rparr>) (hdr_FreelistTrunk h) L T" and "T \<subseteq> set (pg_free p)"
    and "mset L = mset (pg_free p)"
    and "\<exists>a b. h = (pg_header p)\<lparr>hdr_FreelistTrunk := a, hdr_FreelistCount := b\<rparr>"
proof (cases "pg_free p = []")
  case True
  let ?h = "(pg_header p)\<lparr>hdr_FreelistTrunk := 0, hdr_FreelistCount := 0\<rparr>"
  have e: "persistFreelist p = Some (p\<lparr>pg_fs := pg_fs p, pg_header := ?h\<rparr>, Inr ())"
    using True by (simp add: persistFreelist_def Let_def)
  have c: "chain_in (p\<lparr>pg_fs := pg_fs p\<rparr>) (hdr_FreelistTrunk ?h) [] {}"
    by (simp add: chain_end)
  show thesis by (rule that [OF e _ _ _ _ c]) (use ok cl True in auto)
next
  case False
  let ?r = "hdr_ReservedPerPage (pg_header p)" and ?free = "pg_free p"
  let ?cp = "nat (TrunkCapacity (int (pg_pageSize p)) ?r)"
  have cp: "0 < ?cp" "int ?cp \<le> TrunkCapacity (int (pg_pageSize p)) ?r"
    using TrunkCapacity_pos [of "int (pg_pageSize p)" ?r] ok by (simp_all add: pager_ok_def)
  define n where "n = length (pick_trunks ?free ?cp [])"
  have n: "n \<le> length ?free" "length ?free - n \<le> ?cp * n"
    using pick_trunks_enough [OF cp(1), of "[]" ?free] by (simp_all add: n_def)
  let ?leaves = "take (length ?free - n) ?free" and ?trunks = "drop (length ?free - n) ?free"
  have "\<exists>fs head L' T'. write_trunks ?cp ?leaves ?trunks 0 (replicate (pg_pageSize p) 0) p
      = Some (p\<lparr>pg_fs := fs\<rparr>, Inr head) \<and>
    pager_ok (p\<lparr>pg_fs := fs\<rparr>) \<and> clean_ok (p\<lparr>pg_fs := fs\<rparr>) \<and>
    (\<forall>j. j \<notin> set ?trunks \<longrightarrow> body (p\<lparr>pg_fs := fs\<rparr>) j = body p j \<and> file_page (p\<lparr>pg_fs := fs\<rparr>) j = file_page p j) \<and>
    (\<forall>j. page_present p j \<longrightarrow> page_present (p\<lparr>pg_fs := fs\<rparr>) j) \<and>
    chain_in (p\<lparr>pg_fs := fs\<rparr>) head L' T' \<and> T' = {} \<union> set ?trunks \<and>
    mset L' = mset [] + mset ?leaves + mset ?trunks"
    by (rule write_trunks_ok [OF ok cl chain_end _ _ cp(2)])
      (use fr n in \<open>auto simp: free_ok_def dest: in_set_dropD\<close>)
  then obtain fs head L' T' where w: "write_trunks ?cp ?leaves ?trunks 0 (replicate (pg_pageSize p) 0) p
      = Some (p\<lparr>pg_fs := fs\<rparr>, Inr head)" "pager_ok (p\<lparr>pg_fs := fs\<rparr>)" "clean_ok (p\<lparr>pg_fs := fs\<rparr>)"
    "\<forall>j. j \<notin> set ?trunks \<longrightarrow> body (p\<lparr>pg_fs := fs\<rparr>) j = body p j \<and> file_page (p\<lparr>pg_fs := fs\<rparr>) j = file_page p j"
    "\<forall>j. page_present p j \<longrightarrow> page_present (p\<lparr>pg_fs := fs\<rparr>) j"
    "chain_in (p\<lparr>pg_fs := fs\<rparr>) head L' T'" "T' = {} \<union> set ?trunks" "mset L' = mset [] + mset ?leaves + mset ?trunks"
    by blast
  let ?h = "(pg_header p)\<lparr>hdr_FreelistTrunk := head, hdr_FreelistCount := of_nat (length ?free)\<rparr>"
  have "persistFreelist p = Some (p\<lparr>pg_fs := fs, pg_header := ?h\<rparr>, Inr ())"
    using False cp(1) w(1) by (simp add: persistFreelist_def Let_def n_def [symmetric])
  moreover have "mset L' = mset ?free"
    using w(8) by (metis append_take_drop_id mset_append add_0 mset.simps(1))
  moreover have "set ?trunks \<subseteq> set ?free" by (auto dest: in_set_dropD)
  ultimately show thesis
    by (intro that [OF _ w(2,3) _ w(5), where h = ?h and L = L' and T = T']) (use w(4,6,7) in auto)
qed

text \<open>Rewriting the header page, in the file and in its frame if it is resident.\<close>

lemma page1_write_ok:
  fixes h :: Header
  assumes ok: "pager_ok p" and cl: "clean_ok p" and d: "length d = pg_pageSize p"
    and lv: "live_of fs (pg_file p) = write_bytes (live p) d 0" and mem: "mem_ok (pg_file p) fs"
    and pool: "length pool = length (pg_pool p)"
      "\<And>i. i < length pool \<Longrightarrow> pool ! i = (if pg_index p 1 = Some i
          then (pg_pool p ! i)\<lparr>fr_data := d, fr_dirty := False\<rparr> else pg_pool p ! i)"
  defines "q \<equiv> p\<lparr>pg_fs := fs, pg_header := h, pg_pool := pool\<rparr>"
  shows "pager_ok q" and "clean_ok q" and "j \<noteq> 1 \<Longrightarrow> body q j = body p j"
    and "file_page q j = (if j = 1 then d else file_page p j)"
    and "page_present p j \<Longrightarrow> page_present q j" and "page_present q 1"
proof -
  have sel: "pg_index q = pg_index p" "pg_pageSize q = pg_pageSize p" "pg_pool q = pool" "pg_hand q = pg_hand p"
    "pg_file q = pg_file p" "pg_fs q = fs" "live q = live_of fs (pg_file p)"
    by (simp_all add: q_def live_def)
  have lq: "live q = write_bytes (live p) d (page_off p 1)" using lv sel(7) by (simp add: page_off_def)
  have fp: "file_page q j = (if j = 1 then d else file_page p j)" for j
    by (rule file_page_other [OF ok d lq sel(2)])
  then show "file_page q j = (if j = 1 then d else file_page p j)" .
  have bound: "i < length pool" if "pg_index p k = Some i" for k i
    using that pager_ok_index [OF ok] pool(1) by simp
  have uniq: "pg_index p 1 \<noteq> Some i" if "pg_index p k = Some i" "k \<noteq> 1" for k i
    using that pager_ok_index [OF ok] by metis
  have "wf_index (pg_index p) pool"
    by (rule wf_index_same [of _ "pg_pool p"]) (use ok pool in \<open>auto simp: pager_ok_def\<close>)
  moreover have "\<forall>fr \<in> set pool. length (fr_data fr) = pg_pageSize p"
    using pool pager_ok_frame [OF ok] d by (auto simp: in_set_conv_nth)
  moreover have "pg_pageSize p dvd length (live q)"
    using ok dvd_length_write [OF _ d, of "live p" 0] lv sel(7) by (simp add: pager_ok_def)
  ultimately show "pager_ok q" using ok mem pool(1) by (simp add: pager_ok_def sel)
  show "clean_ok q"
    unfolding clean_ok_def sel
  proof (intro allI impI)
    fix k i
    assume i: "pg_index p k = Some i" "\<not> fr_dirty (pool ! i)"
    show "take (pg_pageSize p - 4) (fr_data (pool ! i)) = take (pg_pageSize p - 4) (file_page q k)"
    proof (cases "k = 1")
      case True
      then show ?thesis using i pool(2) [OF bound [OF i(1)]] fp by simp
    next
      case False
      then have "pool ! i = pg_pool p ! i" using pool(2) [OF bound [OF i(1)]] uniq [OF i(1)] by simp
      then show ?thesis using cl i fp False by (simp add: clean_ok_def)
    qed
  qed
  show "body q j = body p j" if "j \<noteq> 1"
    using that fp pool(2) [OF bound] uniq
    by (simp add: body_def page_of_def sel split: option.split)
  show "page_present p j \<Longrightarrow> page_present q j" and "page_present q 1"
    using lq d by (auto simp: page_present_def page_off_def sel)
qed

lemma write_header_page_ok:
  assumes ok: "pager_ok p" and cl: "clean_ok p" and h: "header_ok p"
  obtains q d where "write_header_page p = Some (q, Inr ())" and "pager_ok q" and "clean_ok q"
    and "\<forall>j. j \<noteq> 1 \<longrightarrow> body q j = body p j \<and> file_page q j = file_page p j"
    and "\<forall>j. page_present p j \<longrightarrow> page_present q j" and "page_present q 1"
    and "DecodeHeader (file_page q 1) = Inr (pg_header q)"
    and "\<exists>c. pg_header q = (bump_header p)\<lparr>hdr_HeaderChecksum := c\<rparr>"
    and "pg_index q = pg_index p" and "pg_free q = pg_free p" and "pg_dbSize q = pg_dbSize p"
    and "pg_pageSize q = pg_pageSize p" and "pg_file q = pg_file p"
    and "length (pg_pool q) = length (pg_pool p)"
    and "\<forall>i < length (pg_pool p). fr_pins (pg_pool q ! i) = fr_pins (pg_pool p ! i)"
    and "\<forall>i < length (pg_pool p). fr_dirty (pg_pool q ! i) \<longrightarrow> fr_dirty (pg_pool p ! i)"
    and "durable_of (pg_fs q) (pg_file q) = live q"
proof -
  let ?ps = "pg_pageSize p"
  define page1 where "page1 = (case pg_index p 1 of
      Some i \<Rightarrow> put_at 0 (fr_data (pg_pool p ! i)) (replicate ?ps 0)
    | None \<Rightarrow> fst (ReadAt (pg_fs p) (pg_file p) (replicate ?ps 0) 0))"
  have len: "length page1 = ?ps"
    by (auto simp: page1_def ReadAt_def read_bytes_def Let_def split: option.split)
  have vps: "ValidPageSize (hdr_PageSize (bump_header p))" "hdr_TextEncoding (bump_header p) = 0"
    using ok h by (auto simp: header_ok_def pager_ok_def bump_header_def Let_def)
  have hs: "HeaderSize \<le> length page1" using pager_ok_page_size [OF ok] len by (simp add: HeaderSize_def)
  obtain h' b c where e: "Header_Encode (bump_header p) page1 = Some (h', b)"
    "h' = (bump_header p)\<lparr>hdr_HeaderChecksum := c\<rparr>" "DecodeHeader b = Inr h'" "length b = ?ps"
    using header_codec [OF vps hs] len by metis
  define pool where "pool = (case pg_index p 1 of
      Some i \<Rightarrow> (pg_pool p)[i := (pg_pool p ! i)\<lparr>fr_data := b, fr_dirty := False\<rparr>] | None \<Rightarrow> pg_pool p)"
  have pool: "length pool = length (pg_pool p)"
    "\<And>i. i < length pool \<Longrightarrow> pool ! i = (if pg_index p 1 = Some i
        then (pg_pool p ! i)\<lparr>fr_data := b, fr_dirty := False\<rparr> else pg_pool p ! i)"
    by (auto simp: pool_def nth_list_update split: option.splits)
  have put: "put_at 0 b (fr_data (pg_pool p ! i)) = b" if "pg_index p 1 = Some i" for i
    using that e(4) pager_ok_frame [OF ok, of i] pager_ok_index [OF ok, of 1 i] by (simp add: put_at_fits)
  obtain fs1 where wr: "WriteAt (pg_fs p) (pg_file p) b 0 = (fs1, Inr (length b))" by (simp add: WriteAt_def)
  have mem1: "mem_ok (pg_file p) fs1"
    using ok wr mf.wr_ok [of "pg_file p" "pg_fs p" b 0] by (simp add: pager_ok_def)
  obtain fs2 where sy: "Sync fs1 (pg_file p) = (fs2, Inr ())"
    using mem1 by (simp add: Sync_ok mem_ok_def)
  have mem: "mem_ok (pg_file p) fs2" using mf.sync_ok [OF mem1] sy by simp
  have lv: "live_of fs2 (pg_file p) = write_bytes (live p) b 0"
    using mf.sync_content [of fs1 "pg_file p"] live_WriteAt [OF wr] sy by simp
  have dur: "durable_of fs2 (pg_file p) = live_of fs2 (pg_file p)"
    using mf.sync_durable [OF mem1] mf.sync_content [of fs1 "pg_file p"] sy by simp
  let ?q = "p\<lparr>pg_fs := fs2, pg_header := h', pg_pool := pool\<rparr>"
  have run: "write_header_page p = Some (?q, Inr ())"
    using e(1) wr sy put
    by (simp add: write_header_page_def page1_def [symmetric] Let_def pool_def upd_frame_def split: option.split)
  note w = page1_write_ok [OF ok cl e(4) lv mem pool, where h = h']
  have dec: "DecodeHeader (file_page ?q 1) = Inr (pg_header ?q)" using w(4) e(3) by simp
  show thesis
    by (rule that [OF run w(1,2) _ _ w(6) dec]) (use w(3,4,5) e(2) pool dur in \<open>auto simp: live_def\<close>)
qed

text \<open>What a checkpoint leaves: the bodies as they were, and a durable file that holds every body
  that is not free, the freelist's chain and the header.\<close>

definition on_disk :: "Pager \<Rightarrow> bool" where
  "on_disk q \<longleftrightarrow> (\<forall>j. j \<noteq> 1 \<longrightarrow> j \<notin> set (pg_free q) \<longrightarrow> take (pg_pageSize q - 4) (file_page q j) = body q j) \<and>
     (\<exists>L T. chain_in q (hdr_FreelistTrunk (pg_header q)) L T \<and> mset L = mset (pg_free q)) \<and>
     page_present q 1 \<and> DecodeHeader (file_page q 1) = Inr (pg_header q) \<and>
     durable_of (pg_fs q) (pg_file q) = live q"

lemma clean_body:
  assumes "clean_ok p" and "\<And>i. pg_index p j = Some i \<Longrightarrow> \<not> fr_dirty (pg_pool p ! i)"
  shows "take (pg_pageSize p - 4) (file_page p j) = body p j"
  using assms by (auto simp: clean_ok_def body_def page_of_def split: option.split)

lemma Checkpoint_ok:
  assumes ok: "pager_ok p" and cl: "clean_ok p" and fr: "free_ok p" and h: "header_ok p"
  obtains q where "Checkpoint p lsn = Some (q, Inr ())" and "pager_ok q" and "clean_ok q" and "header_ok q"
    and "on_disk q" and "\<forall>j. j \<noteq> 1 \<longrightarrow> j \<notin> set (pg_free p) \<longrightarrow> body q j = body p j"
    and "pg_index q = pg_index p" and "pg_free q = pg_free p" and "pg_dbSize q = pg_dbSize p"
    and "pg_pageSize q = pg_pageSize p" and "pg_file q = pg_file p" and "length (pg_pool q) = length (pg_pool p)"
    and "\<forall>i < length (pg_pool p). fr_pins (pg_pool q ! i) = fr_pins (pg_pool p ! i)"
    and "hdr_PageCount (pg_header q) = pg_dbSize p"
    and "hdr_ChangeCounter (pg_header q) = hdr_ChangeCounter (pg_header p) + 1"
proof -
  have "\<forall>i \<in> set [0..<length (pg_pool p)]. i < length (pg_pool p)" by simp
  from flush_frames_ok [OF ok cl this] obtain p1 where p1:
    "flush_frames [0..<length (pg_pool p)] p = Some (p1, Inr ())" "pager_ok p1" "clean_ok p1" "same_pages p p1"
    "pg_index p1 = pg_index p"
    "\<forall>i < length (pg_pool p). fr_pgno (pg_pool p1 ! i) = fr_pgno (pg_pool p ! i) \<and>
      (fr_dirty (pg_pool p1 ! i) \<longrightarrow> fr_dirty (pg_pool p ! i)) \<and>
      (i \<in> set [0..<length (pg_pool p)] \<and> fr_dirty (pg_pool p1 ! i) \<longrightarrow> fr_pgno (pg_pool p ! i) \<in> {0, 1})"
    by blast
  have sp: "pg_free p1 = pg_free p" "pg_dbSize p1 = pg_dbSize p" "pg_pageSize p1 = pg_pageSize p"
    "pg_file p1 = pg_file p" "pg_header p1 = pg_header p" "length (pg_pool p1) = length (pg_pool p)"
    "\<And>j. body p1 j = body p j"
    "\<forall>i < length (pg_pool p). fr_pins (pg_pool p1 ! i) = fr_pins (pg_pool p ! i)"
    using p1(4) by (simp_all add: same_pages_def)
  have disk1: "take (pg_pageSize p - 4) (file_page p1 j) = body p j" if "j \<noteq> 1" for j
  proof -
    have "\<not> fr_dirty (pg_pool p1 ! i)" if "pg_index p1 j = Some i" for i
      using p1(6) that p1(5) pager_ok_index [OF ok, of j i] \<open>j \<noteq> 1\<close> by auto
    from clean_body [OF p1(3) this] show ?thesis using sp by simp
  qed
  have fr1: "free_ok p1" using fr p1(5) sp(1) by (simp add: free_ok_def)
  obtain fs h2 L T where p2: "persistFreelist p1 = Some (p1\<lparr>pg_fs := fs, pg_header := h2\<rparr>, Inr ())"
    "pager_ok (p1\<lparr>pg_fs := fs\<rparr>)" "clean_ok (p1\<lparr>pg_fs := fs\<rparr>)"
    "\<forall>j. j \<notin> set (pg_free p1) \<longrightarrow> body (p1\<lparr>pg_fs := fs\<rparr>) j = body p1 j \<and> file_page (p1\<lparr>pg_fs := fs\<rparr>) j = file_page p1 j"
    "\<forall>j. page_present p1 j \<longrightarrow> page_present (p1\<lparr>pg_fs := fs\<rparr>) j"
    "chain_in (p1\<lparr>pg_fs := fs\<rparr>) (hdr_FreelistTrunk h2) L T" "T \<subseteq> set (pg_free p1)" "mset L = mset (pg_free p1)"
    "\<exists>a b. h2 = (pg_header p1)\<lparr>hdr_FreelistTrunk := a, hdr_FreelistCount := b\<rparr>"
    by (rule persistFreelist_ok [OF p1(2,3) fr1])
  let ?p2 = "p1\<lparr>pg_fs := fs, pg_header := h2\<rparr>"
  have sel2: "body ?p2 j = body (p1\<lparr>pg_fs := fs\<rparr>) j" "file_page ?p2 j = file_page (p1\<lparr>pg_fs := fs\<rparr>) j" for j
    by (simp_all add: body_def page_of_def file_page_def live_def split: option.split)
  have ok2: "pager_ok ?p2" "clean_ok ?p2"
    using p2(2,3) by (simp_all add: pager_ok_def clean_ok_def file_page_def live_def)
  have h2: "header_ok ?p2" using h p2(9) sp by (auto simp: header_ok_def)
  have ch2: "chain_in ?p2 (hdr_FreelistTrunk h2) L T"
    by (rule chain_in_cong [OF p2(6)]) (simp_all add: live_def)
  obtain q where q: "write_header_page ?p2 = Some (q, Inr ())" "pager_ok q" "clean_ok q"
    "\<forall>j. j \<noteq> 1 \<longrightarrow> body q j = body ?p2 j \<and> file_page q j = file_page ?p2 j"
    "\<forall>j. page_present ?p2 j \<longrightarrow> page_present q j" "page_present q 1"
    "DecodeHeader (file_page q 1) = Inr (pg_header q)"
    "\<exists>c. pg_header q = (bump_header ?p2)\<lparr>hdr_HeaderChecksum := c\<rparr>"
    "pg_index q = pg_index ?p2" "pg_free q = pg_free ?p2" "pg_dbSize q = pg_dbSize ?p2"
    "pg_pageSize q = pg_pageSize ?p2" "pg_file q = pg_file ?p2" "length (pg_pool q) = length (pg_pool ?p2)"
    "\<forall>i < length (pg_pool ?p2). fr_pins (pg_pool q ! i) = fr_pins (pg_pool ?p2 ! i)"
    "durable_of (pg_fs q) (pg_file q) = live q"
    by (rule write_header_page_ok [OF ok2 h2])
  have run: "Checkpoint p lsn = Some (q, Inr ())" using p1(1) p2(1) q(1) by (simp add: Checkpoint_def)
  have bodies: "body q j = body p j" if "j \<noteq> 1" "j \<notin> set (pg_free p)" for j
    using q(4) p2(4) sel2 sp that by auto
  have hq: "hdr_FreelistTrunk (pg_header q) = hdr_FreelistTrunk h2"
    "hdr_PageCount (pg_header q) = pg_dbSize p"
    "hdr_ChangeCounter (pg_header q) = hdr_ChangeCounter (pg_header p) + 1" "header_ok q"
    using q(8,11,12) p2(9) h2 sp by (auto simp: bump_header_def Let_def header_ok_def)
  have "1 \<notin> T" using p2(7) fr1 by (auto simp: free_ok_def)
  then have "chain_in q (hdr_FreelistTrunk h2) L T"
    by (rule chain_in_write [OF ch2]) (use q(4,5) in auto)
  moreover have "take (pg_pageSize q - 4) (file_page q j) = body q j" if "j \<noteq> 1" "j \<notin> set (pg_free q)" for j
    using that q(4,10,12) sel2 p2(4) disk1 [OF that(1)] bodies sp by simp
  ultimately have "on_disk q"
    using q(6,7,10,16) hq(1) p2(8) unfolding on_disk_def by auto
  then show thesis
    by (rule that [OF run q(2,3) hq(4)]) (use bodies q(9-15) sp p1(5) hq in auto)
qed

end
