(* ===== verification/Pager_Client.thy ===== *)
theory Pager_Client
  imports Pager_Refine
begin

text \<open>
  The pager as its clients see it: a store of page bodies.  Every run of pager calls is a
  run of the store, whatever the pool evicts and wherever checkpoints fall, and the file a
  checkpoint leaves reopens to the same bodies and free pages, also after a crash.
\<close>

section \<open>The abstract store\<close>

datatype pager_event =
  EvGet u32 bytes | EvPut u32 bytes | EvUnpin | EvAlloc u32 | EvFree u32 | EvFull | EvCheckpoint

type_synonym store = "u32 \<Rightarrow> bytes option"

inductive store_step :: "nat \<Rightarrow> store \<Rightarrow> pager_event \<Rightarrow> store \<Rightarrow> bool" for ps where
  s_get: "s k = Some b \<Longrightarrow> store_step ps s (EvGet k b) s"
| s_put: "k \<in> dom s \<Longrightarrow> store_step ps s (EvPut k b) (s(k \<mapsto> b))"
| s_alloc: "k \<notin> dom s \<Longrightarrow> store_step ps s (EvAlloc k) (s(k \<mapsto> replicate (ps - 4) 0))"
| s_free: "k \<in> dom s \<Longrightarrow> store_step ps s (EvFree k) (s(k := None))"
| s_silent: "e \<in> {EvUnpin, EvFull, EvCheckpoint} \<Longrightarrow> store_step ps s e s"

inductive store_run :: "nat \<Rightarrow> store \<Rightarrow> pager_event list \<Rightarrow> store \<Rightarrow> bool" for ps where
  run_nil: "store_run ps s [] s"
| run_cons: "store_step ps s e s1 \<Longrightarrow> store_run ps s1 es s2 \<Longrightarrow> store_run ps s (e # es) s2"

section \<open>Pager calls\<close>

text \<open>The client discipline: it names pages it has allocated and not freed, writes through a frame
  it has pinned, and unpins what it pinned.  The pages in use are those below the end of the
  database that are neither the header page nor free.\<close>

definition in_use :: "Pager \<Rightarrow> u32 \<Rightarrow> bool" where
  "in_use p k \<longleftrightarrow> 1 < k \<and> k \<le> pg_dbSize p \<and> k \<notin> set (pg_free p)"

inductive pager_step :: "u32 set \<Rightarrow> Pager \<Rightarrow> pager_event \<Rightarrow> u32 set \<Rightarrow> Pager \<Rightarrow> bool" where
  p_get: "k \<in> A \<Longrightarrow> Get p k intent = Some (p', Inr i) \<Longrightarrow>
    pager_step A p (EvGet k (take (pg_pageSize p - 4) (fr_data (pg_pool p' ! i)))) A p'"
| p_get_full: "k \<in> A \<Longrightarrow> Get p k intent = Some (p', Inl err) \<Longrightarrow> pager_step A p EvFull A p'"
| p_put: "k \<in> A \<Longrightarrow> pg_index p k = Some i \<Longrightarrow> 0 < fr_pins (pg_pool p ! i) \<Longrightarrow> length d = pg_pageSize p \<Longrightarrow>
    pager_step A p (EvPut k (take (pg_pageSize p - 4) d)) A (put_page p i d)"
| p_unpin: "i < length (pg_pool p) \<Longrightarrow> 0 < fr_pins (pg_pool p ! i) \<Longrightarrow>
    pager_step A p EvUnpin A (Unpin p i dirty)"
| p_alloc: "pg_dbSize p \<noteq> - 1 \<Longrightarrow> Allocate p = Some (p', Inr (k, i)) \<Longrightarrow>
    pager_step A p (EvAlloc k) (insert k A) p'"
| p_alloc_full: "pg_dbSize p \<noteq> - 1 \<Longrightarrow> Allocate p = Some (p', Inl err) \<Longrightarrow> pager_step A p EvFull A p'"
| p_free: "k \<in> A \<Longrightarrow> pager_step A p (EvFree k) (A - {k}) (Free p k)"
| p_checkpoint: "Checkpoint p lsn = Some (p', Inr ()) \<Longrightarrow> pager_step A p EvCheckpoint A p'"

inductive pager_run :: "u32 set \<Rightarrow> Pager \<Rightarrow> pager_event list \<Rightarrow> u32 set \<Rightarrow> Pager \<Rightarrow> bool" where
  prun_nil: "pager_run A p [] A p"
| prun_cons: "pager_step A p e A1 p1 \<Longrightarrow> pager_run A1 p1 es A2 p2 \<Longrightarrow> pager_run A p (e # es) A2 p2"

inductive_cases pager_stepE: "pager_step A p e A' p'"

section \<open>The refinement relation\<close>

definition pool_inv :: "Pager \<Rightarrow> bool" where
  "pool_inv p \<longleftrightarrow> pager_ok p \<and> clean_ok p \<and> pins_ok p \<and> free_ok p \<and> header_ok p \<and> 1 \<le> pg_dbSize p \<and>
     (\<forall>k i. pg_index p k = Some i \<longrightarrow> k \<le> pg_dbSize p) \<and> (\<forall>k \<in> set (pg_free p). k \<le> pg_dbSize p)"

definition refines :: "store \<Rightarrow> Pager \<Rightarrow> bool" where
  "refines s p \<longleftrightarrow> pool_inv p \<and> (\<forall>k \<in> dom s. in_use p k \<and> s k = Some (body p k))"

lemma u32_succ:
  fixes n :: u32
  assumes "n \<noteq> - 1"
  shows "n < n + 1" and "k \<le> n \<Longrightarrow> k \<le> n + 1" and "n + 1 \<noteq> 0"
proof -
  show 0: "n + 1 \<noteq> 0" using assms by (metis add.commute add_eq_0_iff)
  then have "unat (n + 1) = Suc (unat n)" by (metis add.commute unatSuc)
  then show "n < n + 1" and "k \<le> n \<Longrightarrow> k \<le> n + 1" by (simp_all add: word_less_nat_alt word_le_nat_alt)
qed

lemma u32_gt_1:
  fixes k :: u32
  assumes "k \<noteq> 0" and "k \<noteq> 1"
  shows "1 < k"
proof -
  have "unat k \<noteq> 0" using assms(1) by (simp add: unat_eq_zero)
  moreover have "unat k \<noteq> unat (1 :: u32)" using assms(2) unsigned_word_eqI by blast
  ultimately show ?thesis by (simp add: word_less_nat_alt)
qed

lemma pool_inv_same_pages:
  assumes "pool_inv p" and "same_pages p q" and "pager_ok q" and "clean_ok q"
  shows "pool_inv q"
proof -
  have "free_ok q" using assms(1,2) same_pages_index_None [OF assms(2)]
    by (auto simp: free_ok_def same_pages_def pool_inv_def)
  then show ?thesis using assms by (auto simp: pool_inv_def same_pages_def pins_ok_def header_ok_def)
qed

lemma refines_same_pages:
  assumes "refines s p" and "same_pages p q" and "pager_ok q" and "clean_ok q"
  shows "refines s q"
  using assms pool_inv_same_pages [OF _ assms(2-4)] by (auto simp: refines_def in_use_def same_pages_def)

lemma pinned_as_inv:
  assumes inv: "pool_inv p" and pa: "pinned_as p k q i" and k: "k \<le> pg_dbSize p" "k \<notin> set (pg_free p)"
  shows "pool_inv q"
proof -
  have free: "free_ok q"
    using inv pa k(2) unfolding free_ok_def pinned_as_def pool_inv_def by (metis not_None_eq)
  moreover have "m \<le> pg_dbSize q" if "pg_index q m = Some j" for m j
    using that inv pa k(1) unfolding pinned_as_def pool_inv_def by metis
  ultimately show ?thesis
    using inv pa by (auto simp: pool_inv_def pinned_as_def pins_ok_def header_ok_def)
qed

lemma Get_step:
  assumes inv: "pool_inv p" and k: "in_use p k"
  shows "Get p k intent = Some (q, Inr i) \<Longrightarrow> pool_inv q \<and> (\<forall>j. body q j = body p j) \<and>
      take (pg_pageSize p - 4) (fr_data (pg_pool q ! i)) = body p k \<and>
      pg_pageSize q = pg_pageSize p \<and> pg_free q = pg_free p \<and> pg_dbSize q = pg_dbSize p"
    and "Get p k intent = Some (q, Inl err) \<Longrightarrow> all_pinned p \<and> err = PoolExhausted \<and>
      same_pages p q \<and> pager_ok q \<and> clean_ok q"
proof -
  have ok: "pager_ok p" "clean_ok p" "pins_ok p" using inv by (auto simp: pool_inv_def)
  have kb: "k \<noteq> 0" "k \<le> pg_dbSize p" "k \<notin> set (pg_free p)" using k by (auto simp: in_use_def)
  have fin: "pool_inv r \<and> (\<forall>j. body r j = body p j) \<and>
      take (pg_pageSize p - 4) (fr_data (pg_pool r ! m)) = body p k \<and>
      pg_pageSize r = pg_pageSize p \<and> pg_free r = pg_free p \<and> pg_dbSize r = pg_dbSize p"
    if "pinned_as p k r m" "body r k = body p k" for r m
  proof -
    have "body r j = body p j" for j using that by (cases "j = k") (simp_all add: pinned_as_def)
    moreover have "body r k = take (pg_pageSize p - 4) (fr_data (pg_pool r ! m))"
      using that(1) by (simp add: pinned_as_def body_def page_of_def)
    ultimately show ?thesis
      using pinned_as_inv [OF inv that(1) kb(2,3)] that by (simp add: pinned_as_def)
  qed
  show "pool_inv q \<and> (\<forall>j. body q j = body p j) \<and>
      take (pg_pageSize p - 4) (fr_data (pg_pool q ! i)) = body p k \<and>
      pg_pageSize q = pg_pageSize p \<and> pg_free q = pg_free p \<and> pg_dbSize q = pg_dbSize p"
    if g: "Get p k intent = Some (q, Inr i)"
  proof (cases "pg_index p k")
    case (Some m)
    note gr = Get_resident [OF ok kb(1) Some]
    show ?thesis using gr g fin by (metis option.inject prod.inject sum.inject(2))
  next
    case None
    show ?thesis
    proof (cases rule: Get_absent [OF ok kb(1) None, of intent, case_names full got])
      case (got r m)
      then show ?thesis using g fin by simp
    qed (use g in auto)
  qed
  show "all_pinned p \<and> err = PoolExhausted \<and> same_pages p q \<and> pager_ok q \<and> clean_ok q"
    if g: "Get p k intent = Some (q, Inl err)"
  proof (cases "pg_index p k")
    case (Some m)
    then show ?thesis using g kb(1) by (simp add: Get_def)
  next
    case None
    show ?thesis
      by (cases rule: Get_absent [OF ok kb(1) None, of intent, case_names full got])
        (use g in auto)
  qed
qed

text \<open>The page \<^verbatim>\<open>Allocate\<close> hands out was not in use.\<close>

lemma Allocate_page:
  assumes inv: "pool_inv p" and room: "pg_dbSize p \<noteq> - 1"
  obtains k p0 where "(k, p0) = (if pg_free p \<noteq> [] then (last (pg_free p), p\<lparr>pg_free := butlast (pg_free p)\<rparr>)
        else (pg_dbSize p + 1, p\<lparr>pg_dbSize := pg_dbSize p + 1\<rparr>))"
    and "k \<noteq> 0" and "1 < k" and "pg_index p k = None" and "\<not> in_use p k" and "pool_inv p0"
    and "k \<le> pg_dbSize p0" and "k \<notin> set (pg_free p0)"
    and "\<forall>j. in_use p j \<longrightarrow> in_use p0 j" and "\<forall>j. body p0 j = body p j" and "pg_pageSize p0 = pg_pageSize p"
proof (cases "pg_free p = []")
  case False
  let ?k = "last (pg_free p)" and ?p = "p\<lparr>pg_free := butlast (pg_free p)\<rparr>"
  have fr: "set (butlast (pg_free p)) \<subseteq> set (pg_free p)" by (auto dest: in_set_butlastD)
  have k: "?k \<in> set (pg_free p)" using False by simp
  have dist: "distinct (butlast (pg_free p))" "?k \<notin> set (butlast (pg_free p))"
    using inv False append_butlast_last_id [OF False] distinct_append [of "butlast (pg_free p)" "[?k]"]
    by (auto simp: pool_inv_def free_ok_def distinct_butlast)
  have props: "?k \<noteq> 0" "?k \<noteq> 1" "pg_index p ?k = None" "?k \<le> pg_dbSize p"
    using inv k by (auto simp: pool_inv_def free_ok_def)
  have "1 < ?k" using props(1,2) by (rule u32_gt_1)
  moreover have "pool_inv ?p"
    using inv dist(1) fr by (auto simp: pool_inv_def free_ok_def pager_ok_def clean_ok_def pins_ok_def
        header_ok_def live_def file_page_def)
  ultimately show thesis
    by (intro that [of ?k ?p])
      (use False props dist fr in \<open>auto simp: in_use_def body_def page_of_def file_page_def live_def split: option.split\<close>)
next
  case True
  let ?k = "pg_dbSize p + 1" and ?p = "p\<lparr>pg_dbSize := pg_dbSize p + 1\<rparr>"
  note succ = u32_succ [OF room]
  have one: "1 \<le> pg_dbSize p" using inv by (simp add: pool_inv_def)
  have none: "pg_index p ?k = None"
    using inv succ(1) unfolding pool_inv_def by (metis leD not_None_eq)
  have "1 < ?k" using one succ(1) by (rule le_less_trans)
  moreover have "pool_inv ?p"
    using inv succ(2) True by (auto simp: pool_inv_def free_ok_def pager_ok_def clean_ok_def pins_ok_def
        header_ok_def live_def file_page_def)
  ultimately show thesis
    by (intro that [of ?k ?p]) (use True none succ in
      \<open>auto simp: in_use_def body_def page_of_def file_page_def live_def split: option.split\<close>)
qed

lemma Allocate_step:
  assumes inv: "pool_inv p" and room: "pg_dbSize p \<noteq> - 1"
  shows "Allocate p = Some (q, Inr (k, i)) \<Longrightarrow> pool_inv q \<and> \<not> in_use p k \<and> in_use q k \<and>
      (\<forall>j. in_use p j \<longrightarrow> in_use q j \<and> body q j = body p j) \<and>
      body q k = replicate (pg_pageSize p - 4) 0 \<and> pg_pageSize q = pg_pageSize p"
    and "Allocate p = Some (q, Inl err) \<Longrightarrow> all_pinned p \<and> err = PoolExhausted \<and> pool_inv q \<and>
      (\<forall>j. in_use p j \<longrightarrow> in_use q j \<and> body q j = body p j) \<and> pg_pageSize q = pg_pageSize p"
proof -
  obtain k' p0 where a: "(k', p0) = (if pg_free p \<noteq> [] then (last (pg_free p), p\<lparr>pg_free := butlast (pg_free p)\<rparr>)
        else (pg_dbSize p + 1, p\<lparr>pg_dbSize := pg_dbSize p + 1\<rparr>))"
    "k' \<noteq> 0" "1 < k'" "pg_index p k' = None" "\<not> in_use p k'" "pool_inv p0"
    "k' \<le> pg_dbSize p0" "k' \<notin> set (pg_free p0)" "\<forall>j. in_use p j \<longrightarrow> in_use p0 j"
    "\<forall>j. body p0 j = body p j" "pg_pageSize p0 = pg_pageSize p"
    by (rule Allocate_page [OF inv room])
  have ok: "pager_ok p" "clean_ok p" "pins_ok p" using inv by (auto simp: pool_inv_def)
  note cs = Allocate_cases [OF ok a(1,2,4), case_names full got]
  show "pool_inv q \<and> \<not> in_use p k \<and> in_use q k \<and>
      (\<forall>j. in_use p j \<longrightarrow> in_use q j \<and> body q j = body p j) \<and>
      body q k = replicate (pg_pageSize p - 4) 0 \<and> pg_pageSize q = pg_pageSize p"
    if "Allocate p = Some (q, Inr (k, i))"
  proof (cases rule: cs)
    case (got r m)
    then have e: "r = q" "k = k'" "m = i" using that by auto
    have pa: "pinned_as p0 k q i" using got(3) e by simp
    have "pool_inv q" by (rule pinned_as_inv [OF a(6) pa]) (use a(7,8) e in auto)
    moreover have "in_use q j" if "in_use p0 j" for j
      using that pa by (simp add: in_use_def pinned_as_def)
    moreover have "in_use p0 k" using a(3,7,8) e by (simp add: in_use_def)
    moreover have "body q j = body p j" if "in_use p j" for j
      using that pa a(5,10) e by (auto simp: pinned_as_def)
    ultimately show ?thesis using a(5,9,11) e got(4) pa by (auto simp: pinned_as_def)
  qed (use that in auto)
  show "all_pinned p \<and> err = PoolExhausted \<and> pool_inv q \<and>
      (\<forall>j. in_use p j \<longrightarrow> in_use q j \<and> body q j = body p j) \<and> pg_pageSize q = pg_pageSize p"
    if "Allocate p = Some (q, Inl err)"
  proof (cases rule: cs)
    case (full r)
    then have "r = q" "err = PoolExhausted" using that by auto
    with full pool_inv_same_pages [OF a(6)] a(9,10,11) show ?thesis
      by (auto simp: same_pages_def in_use_def)
  qed (use that in auto)
qed

lemma Free_step:
  assumes inv: "pool_inv p" and k: "in_use p k"
  shows "pool_inv (Free p k)" and "\<not> in_use (Free p k) k" and "j \<noteq> k \<Longrightarrow> in_use p j \<Longrightarrow> in_use (Free p k) j"
    and "j \<noteq> k \<Longrightarrow> body (Free p k) j = body p j" and "pg_pageSize (Free p k) = pg_pageSize p"
proof -
  have ok: "pager_ok p" "clean_ok p" using inv by (auto simp: pool_inv_def)
  note f = Free_ok [OF ok, where k = k]
  have sel: "pg_free (Free p k) = pg_free p @ [k]" "pg_dbSize (Free p k) = pg_dbSize p"
    "pg_header (Free p k) = pg_header p" "pg_pageSize (Free p k) = pg_pageSize p"
    by (simp_all add: Free_def Let_def split: option.split)
  have pins: "pins_ok (Free p k)"
  proof (cases "pg_index p k")
    case (Some i)
    then have "i < length (pg_pool p)" using pager_ok_index [OF ok(1)] by blast
    then show ?thesis using inv Some by (simp add: pins_ok_def Free_def pool_inv_def)
  qed (use inv in \<open>simp add: pins_ok_def Free_def pool_inv_def\<close>)
  have "free_ok (Free p k)" using inv k by (auto simp: free_ok_def sel f(4) pool_inv_def in_use_def)
  then show "pool_inv (Free p k)"
    using inv f(1,2,4) pins k by (auto simp: pool_inv_def sel header_ok_def in_use_def split: if_splits)
  show "\<not> in_use (Free p k) k" and "j \<noteq> k \<Longrightarrow> in_use p j \<Longrightarrow> in_use (Free p k) j"
    by (auto simp: in_use_def sel)
  show "j \<noteq> k \<Longrightarrow> body (Free p k) j = body p j" by (rule f(3))
qed (simp add: Free_def Let_def split: option.split)

lemma Unpin_step:
  assumes inv: "pool_inv p" and i: "i < length (pg_pool p)" "0 < fr_pins (pg_pool p ! i)"
  shows "pool_inv (Unpin p i dirty)" and "body (Unpin p i dirty) j = body p j"
    and "in_use (Unpin p i dirty) j = in_use p j" and "pg_pageSize (Unpin p i dirty) = pg_pageSize p"
proof -
  have ok: "pager_ok p" "clean_ok p" using inv by (auto simp: pool_inv_def)
  note u = Unpin_ok [OF ok(1) i(1) ok(2), where dirty = dirty]
  have "pins_ok (Unpin p i dirty)" using inv i by (auto simp: pins_ok_def Unpin_def pool_inv_def)
  then show "pool_inv (Unpin p i dirty)"
    using inv u(1,3) by (simp add: pool_inv_def free_ok_def header_ok_def) (simp add: Unpin_def)
  show "body (Unpin p i dirty) j = body p j" by (rule u(2))
qed (simp_all add: in_use_def Unpin_def)

lemma put_page_step:
  assumes inv: "pool_inv p" and ix: "pg_index p k = Some i" "0 < fr_pins (pg_pool p ! i)"
    and d: "length d = pg_pageSize p"
  shows "pool_inv (put_page p i d)"
    and "body (put_page p i d) j = (if j = k then take (pg_pageSize p - 4) d else body p j)"
    and "in_use (put_page p i d) j = in_use p j" and "pg_pageSize (put_page p i d) = pg_pageSize p"
proof -
  have ok: "pager_ok p" "clean_ok p" using inv by (auto simp: pool_inv_def)
  note w = put_page_ok [OF ok(1) ix(1) ok(2) d]
  have "i < length (pg_pool p)" using ix(1) pager_ok_index [OF ok(1)] by blast
  then have "pins_ok (put_page p i d)" using inv ix(2) by (auto simp: pins_ok_def put_page_def Unpin_def pool_inv_def)
  then show "pool_inv (put_page p i d)"
    using inv w(1,2) by (simp add: pool_inv_def free_ok_def header_ok_def) (simp add: put_page_def Unpin_def)
  show "body (put_page p i d) j = (if j = k then take (pg_pageSize p - 4) d else body p j)" by (rule w(3))
qed (simp_all add: in_use_def put_page_def Unpin_def)

lemma Checkpoint_step:
  assumes inv: "pool_inv p"
  obtains q where "Checkpoint p lsn = Some (q, Inr ())" and "pool_inv q" and "on_disk q"
    and "\<forall>j. in_use p j \<longrightarrow> body q j = body p j" and "\<forall>j. in_use q j = in_use p j"
    and "pg_pageSize q = pg_pageSize p" and "pg_free q = pg_free p" and "pg_file q = pg_file p"
proof -
  have ok: "pager_ok p" "clean_ok p" "free_ok p" "header_ok p" using inv by (auto simp: pool_inv_def)
  obtain q where q: "Checkpoint p lsn = Some (q, Inr ())" "pager_ok q" "clean_ok q" "header_ok q" "on_disk q"
    "\<forall>j. j \<noteq> 1 \<longrightarrow> j \<notin> set (pg_free p) \<longrightarrow> body q j = body p j" "pg_index q = pg_index p" "pg_free q = pg_free p"
    "pg_dbSize q = pg_dbSize p" "pg_pageSize q = pg_pageSize p" "pg_file q = pg_file p"
    "length (pg_pool q) = length (pg_pool p)"
    "\<forall>i < length (pg_pool p). fr_pins (pg_pool q ! i) = fr_pins (pg_pool p ! i)"
    by (rule Checkpoint_ok [OF ok])
  have "pool_inv q" using inv q by (simp add: pool_inv_def free_ok_def pins_ok_def)
  then show thesis by (rule that [OF q(1) _ q(5)]) (use q(6-11) in \<open>auto simp: in_use_def\<close>)
qed

section \<open>Simulation\<close>

lemma step_simulated:
  assumes st: "pager_step A p e A' p'" and r: "refines s p" and A: "dom s = A"
  shows "\<exists>s'. store_step (pg_pageSize p) s e s' \<and> refines s' p' \<and> dom s' = A' \<and> pg_pageSize p' = pg_pageSize p"
proof -
  have inv: "pool_inv p" using r by (simp add: refines_def)
  have use: "in_use p k" "s k = Some (body p k)" if "k \<in> A" for k
    using r A that by (auto simp: refines_def)
  have silent: ?thesis
    if "e \<in> {EvUnpin, EvFull, EvCheckpoint}" "A' = A" "pool_inv p'" "pg_pageSize p' = pg_pageSize p"
      "\<forall>j. in_use p j \<longrightarrow> in_use p' j \<and> body p' j = body p j"
    using that r A by (intro exI [of _ s]) (auto simp: refines_def intro: s_silent)
  from st show ?thesis
  proof (cases rule: pager_step.cases)
    case (p_get k intent i)
    note g = Get_step(1) [OF inv use(1) [OF p_get(3)] p_get(4)]
    have "refines s p'" using r g by (auto simp: refines_def in_use_def)
    with p_get g use(2) [OF p_get(3)] A show ?thesis by (auto intro: s_get)
  next
    case (p_get_full k intent err)
    note g = Get_step(2) [OF inv use(1) [OF p_get_full(3)] p_get_full(4)]
    then show ?thesis
      using p_get_full pool_inv_same_pages [OF inv] by (intro silent) (auto simp: same_pages_def in_use_def)
  next
    case (p_put k i d)
    note w = put_page_step [OF inv p_put(5-7)]
    let ?s = "s(k \<mapsto> take (pg_pageSize p - 4) d)"
    have "refines ?s p'" using r w p_put use(1) by (auto simp: refines_def)
    moreover have "dom ?s = A'" using A p_put by auto
    ultimately show ?thesis
      using p_put w(4) A s_put [of k s "pg_pageSize p" "take (pg_pageSize p - 4) d"]
      by (intro exI [of _ ?s]) auto
  next
    case (p_unpin i dirty)
    with Unpin_step [OF inv p_unpin(4,5)] show ?thesis by (intro silent) auto
  next
    case (p_alloc k i)
    note a = Allocate_step(1) [OF inv p_alloc(3,4)]
    let ?s = "s(k \<mapsto> replicate (pg_pageSize p - 4) 0)"
    have "k \<notin> dom s" using a use(1) A by auto
    moreover have "refines ?s p'" using r a use by (auto simp: refines_def)
    ultimately show ?thesis
      using p_alloc a A s_alloc [of k s "pg_pageSize p"] by (intro exI [of _ ?s]) auto
  next
    case (p_alloc_full err)
    with Allocate_step(2) [OF inv p_alloc_full(3,4)] show ?thesis by (intro silent) auto
  next
    case (p_free k)
    note f = Free_step [OF inv use(1) [OF p_free(4)]]
    have "refines (s(k := None)) p'"
      using r f p_free(3) by (auto simp: refines_def)
    with p_free f(5) A s_free [of k s "pg_pageSize p"] show ?thesis by (intro exI [of _ "s(k := None)"]) auto
  next
    case (p_checkpoint lsn)
    obtain q where "Checkpoint p lsn = Some (q, Inr ())" "pool_inv q" "on_disk q"
      "\<forall>j. in_use p j \<longrightarrow> body q j = body p j" "\<forall>j. in_use q j = in_use p j" "pg_pageSize q = pg_pageSize p"
      "pg_free q = pg_free p" "pg_file q = pg_file p"
      by (rule Checkpoint_step [OF inv])
    with p_checkpoint show ?thesis by (intro silent) auto
  qed
qed

lemma run_simulated:
  assumes "pager_run A p es A' p'" and "refines s p" and "dom s = A"
  shows "\<exists>s'. store_run (pg_pageSize p) s es s' \<and> refines s' p' \<and> dom s' = A' \<and> pg_pageSize p' = pg_pageSize p"
  using assms
proof (induction arbitrary: s rule: pager_run.induct)
  case (prun_nil A p)
  then show ?case by (auto intro: run_nil)
next
  case (prun_cons A p e A1 p1 es A2 p2)
  obtain s1 where s1: "store_step (pg_pageSize p) s e s1" "refines s1 p1" "dom s1 = A1" "pg_pageSize p1 = pg_pageSize p"
    using step_simulated [OF prun_cons.hyps(1) prun_cons.prems] by blast
  with prun_cons.IH [OF s1(2,3)] show ?case by (auto intro: run_cons)
qed

section \<open>Create and Open\<close>

lemma newPager_ok:
  assumes "ValidPageSize (int ps)" and "mem_ok f fs" and "ps dvd length (live_of fs f)"
  shows "pager_ok (newPager fs f path ps n h)" and "clean_ok (newPager fs f path ps n h)"
    and "pins_ok (newPager fs f path ps n h)"
  using assms
  by (auto simp: newPager_def Let_def pager_ok_def wf_index_def clean_ok_def pins_ok_def live_def
      defaultCacheFrames_def)

lemma dbSize_irrelevant:
  "pager_ok (p\<lparr>pg_dbSize := n\<rparr>) = pager_ok p" "clean_ok (p\<lparr>pg_dbSize := n\<rparr>) = clean_ok p"
  "pins_ok (p\<lparr>pg_dbSize := n\<rparr>) = pins_ok p"
  by (simp_all add: pager_ok_def clean_ok_def pins_ok_def live_def file_page_def)

lemma Create_ok:
  assumes ps: "ValidPageSize (po_PageSize opts)" and new: "fs_files fs path = None" and nofault: "fs_faultAfter fs = 0"
  obtains fs' p where "Create fs path opts = Some (fs', Inr p)" and "refines Map.empty p"
    and "pg_pageSize p = nat (po_PageSize opts)"
proof -
  let ?ps = "po_PageSize opts"
  let ?h = "(NewHeader ?ps (po_Checksum opts))\<lparr>hdr_Flags := po_Flags opts\<rparr>"
  have big: "4096 \<le> ?ps" using ValidPageSize_cases [OF ps] by auto
  have nz: "?ps \<noteq> 0" using big by auto
  obtain fs1 f where o: "Mem_Open fs path (OpenReadWrite\<lparr>of_Create := True\<rparr>) = (fs1, Inr f)"
    "mem_ok f fs1" "live_of fs1 f = []"
    using new nofault by (auto simp: Mem_Open_def OpenReadWrite_def Let_def mem_ok_def live_of_def)
  obtain h1 b c where e: "Header_Encode ?h (replicate (nat ?ps) 0) = Some (h1, b)"
    "h1 = ?h\<lparr>hdr_HeaderChecksum := c\<rparr>" "length b = nat ?ps"
  proof -
    have "ValidPageSize (hdr_PageSize ?h)" "hdr_TextEncoding ?h = 0" "HeaderSize \<le> length (replicate (nat ?ps) (0 :: byte))"
      using ps big by (simp_all add: NewHeader_def HeaderSize_def)
    from header_codec [OF this] show thesis by (elim exE conjE) (rule that, simp_all)
  qed
  obtain fs2 where wr: "WriteAt fs1 f b 0 = (fs2, Inr (length b))" by (simp add: WriteAt_def)
  have m2: "mem_ok f fs2" using mf.wr_ok [OF o(2), of b 0] wr by simp
  obtain fs3 where sy: "Sync fs2 f = (fs3, Inr ())" using m2 by (simp add: Sync_ok mem_ok_def)
  have m3: "mem_ok f fs3" using mf.sync_ok [OF m2] sy by simp
  have "live_of fs2 f = b"
    using mf.wr_content [of fs1 f b 0] wr o(3) by (simp add: write_bytes_append [of "[]", simplified])
  then have lv: "live_of fs3 f = b" using mf.sync_content [of fs2 f] sy by simp
  let ?p = "(newPager fs3 f path (nat ?ps) (po_CacheFrames opts) h1)\<lparr>pg_dbSize := 1\<rparr>"
  have run: "Create fs path opts = Some (fs3, Inr ?p)"
    using ps nz o(1) e(1) wr sy by (simp add: Create_def Let_def newPager_def)
  have vps: "ValidPageSize (int (nat ?ps))" using ps big by simp
  have n: "pager_ok ?p" "clean_ok ?p" "pins_ok ?p"
    using newPager_ok [OF vps m3] lv e(3) by (simp_all add: dbSize_irrelevant)
  have "header_ok ?p" using e(2) big by (simp add: header_ok_def newPager_def Let_def NewHeader_def)
  with n have "refines Map.empty ?p"
    by (simp add: refines_def pool_inv_def free_ok_def newPager_def Let_def)
  with run show thesis by (rule that) (simp add: newPager_def Let_def)
qed

text \<open>Opening a checkpointed file.\<close>

lemma Open_ok:
  assumes inv: "pool_inv q" and disk: "on_disk q" and mem: "mem_ok (pg_file q) fs"
    and lv: "live_of fs (pg_file q) = live q"
  obtains r where "Open fs (mf_path (pg_file q)) opts = Some (Some (Inr r))" and "pager_ok r" and "clean_ok r"
    and "pins_ok r" and "pg_header r = pg_header q" and "mset (pg_free r) = mset (pg_free q)"
    and "\<forall>k. in_use q k \<longrightarrow> body r k = body q k" and "pg_pageSize r = pg_pageSize q"
    and "pg_dbSize r = (let n = of_nat (length (live q) div pg_pageSize q) in if n = 0 then 1 else n)"
    and "pg_index r = Map.empty"
proof -
  let ?f = "pg_file q" and ?ps = "pg_pageSize q"
  have ok: "pager_ok q" "header_ok q" using inv by (auto simp: pool_inv_def)
  have ps: "4096 \<le> ?ps" by (rule pager_ok_page_size [OF ok(1)])
  obtain L T where ch: "chain_in q (hdr_FreelistTrunk (pg_header q)) L T" "mset L = mset (pg_free q)"
    using disk by (auto simp: on_disk_def)
  have present: "?ps \<le> length (live q)" using disk by (simp add: on_disk_def page_present_def page_off_def)
  have op: "Mem_Open fs (mf_path ?f) OpenReadWrite = (fs, Inr ?f)"
    using mem by (simp add: Mem_Open_def OpenReadWrite_def mem_ok_def)
  have "file_page q 1 = take ?ps (live q)"
    using present by (simp add: file_page_def page_at_def get_at_def)
  then have "take HeaderSize (live q) = take HeaderSize (file_page q 1)"
    using ps by (simp add: HeaderSize_def min_def)
  moreover have "ReadAt fs ?f (replicate HeaderSize 0) 0 = (take HeaderSize (live q), HeaderSize, None)"
    using present ps lv unfolding ReadAt_def
    by (subst read_bytes_full) (simp_all add: HeaderSize_def get_at_def)
  ultimately have rd: "ReadAt fs ?f (replicate HeaderSize 0) 0 = (take HeaderSize (file_page q 1), HeaderSize, None)"
    by simp
  have dec: "DecodeHeader (take HeaderSize (file_page q 1)) = Inr (pg_header q)"
    using disk DecodeHeader_take [of "file_page q 1"] ps by (simp add: on_disk_def file_page_def HeaderSize_def)
  have psz: "nat (hdr_PageSize (pg_header q)) = ?ps" using ok(2) by (simp add: header_ok_def)
  define n :: u32 where "n = of_nat (Size fs ?f div ?ps)"
  define r0 where "r0 = (newPager fs ?f (mf_path ?f) ?ps (po_CacheFrames opts) (pg_header q))
      \<lparr>pg_dbSize := (if n = 0 then 1 else n)\<rparr>"
  have sel: "pg_pageSize r0 = ?ps" "live r0 = live q" "pg_header r0 = pg_header q" "pg_free r0 = []"
    "pg_index r0 = Map.empty"
    using lv by (simp_all add: r0_def newPager_def Let_def live_def)
  have vps: "ValidPageSize (int ?ps)" "?ps dvd length (live_of fs ?f)"
    using ok(1) lv by (simp_all add: pager_ok_def)
  have ok0: "pager_ok r0" "clean_ok r0" "pins_ok r0"
    using newPager_ok [OF vps(1) mem vps(2)] by (simp_all add: r0_def dbSize_irrelevant)
  have "chain_in r0 (hdr_FreelistTrunk (pg_header r0)) L T"
    using chain_in_cong [OF ch(1) sel(2,1)] sel(3) by simp
  from load_chain_in [OF this ok0(1), of "[]"]
  have "loadFreelist r0 = Some (Some (Inr (r0\<lparr>pg_free := L\<rparr>)))" by (simp add: loadFreelist_def sel)
  moreover have "Open fs (mf_path ?f) opts = loadFreelist r0"
    using op rd dec psz by (simp add: Open_def Let_def r0_def n_def)
  ultimately have run: "Open fs (mf_path ?f) opts = Some (Some (Inr (r0\<lparr>pg_free := L\<rparr>)))" by simp
  have bodies: "body (r0\<lparr>pg_free := L\<rparr>) k = body q k" if "in_use q k" for k
  proof -
    have "k \<noteq> 1" "k \<notin> set (pg_free q)" using that by (auto simp: in_use_def)
    then have "take (?ps - 4) (file_page q k) = body q k" using disk by (simp add: on_disk_def)
    moreover have "live (r0\<lparr>pg_free := L\<rparr>) = live q" using sel(2) by (simp add: live_def)
    ultimately show ?thesis by (simp add: body_def [of "r0\<lparr>pg_free := L\<rparr>"] page_of_def sel file_page_def)
  qed
  show thesis
    by (rule that [OF run])
      (use ok0 sel ch(2) bodies lv in \<open>auto simp: pager_ok_def clean_ok_def pins_ok_def live_def file_page_def
        r0_def n_def Size_def Let_def newPager_def\<close>)
qed

section \<open>Properties of the pager\<close>

text \<open>Pagers a client can hold: created on a new file and driven by pager calls.\<close>

definition reachable :: "u32 set \<Rightarrow> Pager \<Rightarrow> bool" where
  "reachable A p \<longleftrightarrow> (\<exists>fs path opts fs' p0 es. ValidPageSize (po_PageSize opts) \<and> fs_files fs path = None \<and>
     fs_faultAfter fs = 0 \<and> Create fs path opts = Some (fs', Inr p0) \<and> pager_run {} p0 es A p)"

lemma reachable_refines:
  assumes "reachable A p"
  obtains s where "refines s p" and "dom s = A"
proof -
  obtain fs path opts fs' p0 es where c: "ValidPageSize (po_PageSize opts)" "fs_files fs path = None"
    "fs_faultAfter fs = 0" "Create fs path opts = Some (fs', Inr p0)" and run: "pager_run {} p0 es A p"
    using assms by (auto simp: reachable_def)
  obtain fs1 p1 where "Create fs path opts = Some (fs1, Inr p1)" "refines Map.empty p1"
    "pg_pageSize p1 = nat (po_PageSize opts)"
    by (rule Create_ok [OF c(1-3)])
  with c(4) have "refines Map.empty p0" by simp
  from run_simulated [OF run this] that show thesis by auto
qed

lemma reachable_inv: "reachable A p \<Longrightarrow> pool_inv p \<and> (\<forall>k \<in> A. in_use p k)"
  by (erule reachable_refines) (auto simp: refines_def)

lemma reachable_step:
  assumes "reachable A p" and "pager_step A p e A' p'"
  shows "reachable A' p'"
proof -
  have "pager_run A p [e] A' p'" by (rule prun_cons [OF assms(2) prun_nil])
  moreover have "pager_run B q (es @ fs) C r" if "pager_run B q es A p" "pager_run A p fs C r" for B q es fs C r
    using that by (induction rule: pager_run.induct) (auto intro: prun_cons)
  ultimately show ?thesis using assms(1) unfolding reachable_def by blast
qed

lemma reachable_fresh:
  obtains p where "reachable {} p" and "pg_pageSize p = 4096" and "pg_dbSize p = 1" and "pg_free p = []"
    and "\<not> all_pinned p"
proof -
  let ?o = "\<lparr>po_PageSize = 4096, po_CacheFrames = 2, po_Checksum = 1, po_Flags = 0\<rparr>"
  have v: "ValidPageSize (po_PageSize ?o)" "fs_files NewMem ''db'' = None" "fs_faultAfter NewMem = 0"
    by (simp_all add: ValidPageSize_iff NewMem_def)
  obtain fs p where p: "Create NewMem ''db'' ?o = Some (fs, Inr p)" "refines Map.empty p"
    "pg_pageSize p = nat (po_PageSize ?o)"
    by (rule Create_ok [OF v])
  have "reachable {} p" using v p(1) prun_nil unfolding reachable_def by blast
  moreover have "pg_dbSize p = 1 \<and> pg_free p = [] \<and> \<not> all_pinned p"
    using p(1) by (auto simp: Create_def Let_def newPager_def all_pinned_def split: if_splits prod.splits sum.splits option.splits)
  ultimately show thesis using p(3) that by simp
qed

text \<open>A pager with one page allocated.\<close>

lemma reachable_one:
  obtains A p where "reachable A p" and "2 \<in> A" and "pg_dbSize p = 2"
proof -
  obtain p0 where p0: "reachable {} p0" "pg_pageSize p0 = 4096" "pg_dbSize p0 = 1" "pg_free p0 = []" "\<not> all_pinned p0"
    by (rule reachable_fresh)
  have inv: "pool_inv p0" using reachable_inv [OF p0(1)] by simp
  have ok: "pager_ok p0" "clean_ok p0" "pins_ok p0" using inv by (auto simp: pool_inv_def)
  have none: "pg_index p0 2 = None"
  proof (rule ccontr)
    assume "pg_index p0 2 \<noteq> None"
    then have "(2 :: u32) \<le> 1" using inv p0(3) by (auto simp: pool_inv_def)
    then show False by (simp add: word_le_nat_alt)
  qed
  have a: "(2, p0\<lparr>pg_dbSize := 2\<rparr>) = (if pg_free p0 \<noteq> [] then (last (pg_free p0), p0\<lparr>pg_free := butlast (pg_free p0)\<rparr>)
      else (pg_dbSize p0 + 1, p0\<lparr>pg_dbSize := pg_dbSize p0 + 1\<rparr>))"
    using p0(3,4) by simp
  show thesis
  proof (cases rule: Allocate_cases [OF ok a _ none, case_names pos full got])
    case (got p i)
    have "pager_step {} p0 (EvAlloc 2) {2} p" using p_alloc [OF _ got(1), of "{}"] p0(3) by simp
    then have "reachable {2} p" using p0(1) reachable_step by blast
    moreover have "pg_dbSize p = 2" using got(3) by (simp add: pinned_as_def)
    ultimately show thesis using that by blast
  qed (use p0(5) in auto)
qed

text \<open>C2: every run of pager calls on a newly created file is a run of the page store: what
  \<^verbatim>\<open>Get\<close> returns is the body last written to that page (or zeros since its allocation),
  whatever was evicted, written back or checkpointed in between, and \<^verbatim>\<open>Allocate\<close> never hands
  out a page that is in use.\<close>

theorem pager_refines_store:
  assumes "ValidPageSize (po_PageSize opts)" and "fs_files fs path = None" and "fs_faultAfter fs = 0"
  shows "\<exists>fs' p. Create fs path opts = Some (fs', Inr p) \<and>
    (\<forall>es A p'. pager_run {} p es A p' \<longrightarrow>
      (\<exists>s. store_run (nat (po_PageSize opts)) Map.empty es s \<and> dom s = A \<and> refines s p'))"
proof -
  obtain fs1 p where p: "Create fs path opts = Some (fs1, Inr p)" "refines Map.empty p"
    "pg_pageSize p = nat (po_PageSize opts)"
    by (rule Create_ok [OF assms])
  have "\<exists>s. store_run (nat (po_PageSize opts)) Map.empty es s \<and> dom s = A \<and> refines s p'"
    if "pager_run {} p es A p'" for es A p'
    using run_simulated [OF that p(2)] p(3) by auto
  with p(1) show ?thesis by blast
qed

theorem pager_refines_store_witness:
  "\<exists>fs' p q s. Create NewMem ''db'' \<lparr>po_PageSize = 4096, po_CacheFrames = 2, po_Checksum = 1, po_Flags = 0\<rparr>
      = Some (fs', Inr p) \<and> pager_run {} p [EvCheckpoint, EvCheckpoint] {} q \<and>
    store_run 4096 Map.empty [EvCheckpoint, EvCheckpoint] s \<and> refines s q"
proof -
  let ?o = "\<lparr>po_PageSize = 4096, po_CacheFrames = 2, po_Checksum = 1, po_Flags = 0\<rparr>"
  have v: "ValidPageSize (po_PageSize ?o)" "fs_files NewMem ''db'' = None" "fs_faultAfter NewMem = 0"
    by (simp_all add: ValidPageSize_iff NewMem_def)
  obtain fs' p where p: "Create NewMem ''db'' ?o = Some (fs', Inr p)"
    "\<forall>es A p'. pager_run {} p es A p' \<longrightarrow>
      (\<exists>s. store_run (nat (po_PageSize ?o)) Map.empty es s \<and> dom s = A \<and> refines s p')"
    using pager_refines_store [OF v] by blast
  have "pool_inv p" using p(2) prun_nil [of "{}" p] by (auto simp: refines_def)
  then obtain q1 where q1: "Checkpoint p 0 = Some (q1, Inr ())" "pool_inv q1"
    by (rule Checkpoint_step)
  obtain q where q: "Checkpoint q1 0 = Some (q, Inr ())" "pool_inv q"
    by (rule Checkpoint_step [OF q1(2)])
  have "pager_run {} p [EvCheckpoint, EvCheckpoint] {} q"
    by (rule prun_cons [OF p_checkpoint [OF q1(1)] prun_cons [OF p_checkpoint [OF q(1)] prun_nil]])
  with p show ?thesis by fastforce
qed

text \<open>C20: no pager call panics, \<^verbatim>\<open>Checkpoint\<close> always succeeds on a store without faults, and
  \<^verbatim>\<open>Get\<close> and \<^verbatim>\<open>Allocate\<close> fail exactly when they need a frame and every frame of the pool is
  pinned: the CLOCK sweep finds a victim within its two revolutions whenever there is one.\<close>

theorem pool_progress:
  assumes "reachable A p" and "k \<in> A" and "pg_dbSize p \<noteq> - 1"
  shows "(\<exists>q r. Get p k intent = Some (q, r) \<and> (r = Inl PoolExhausted \<longleftrightarrow> pg_index p k = None \<and> all_pinned p) \<and>
      (r \<noteq> Inl PoolExhausted \<longrightarrow> (\<exists>i. r = Inr i \<and> pg_index q k = Some i))) \<and>
    (\<exists>q r. Allocate p = Some (q, r) \<and> (r = Inl PoolExhausted \<longleftrightarrow> all_pinned p) \<and>
      (r \<noteq> Inl PoolExhausted \<longrightarrow> (\<exists>m i. r = Inr (m, i) \<and> m \<notin> A))) \<and>
    (\<exists>q. Checkpoint p lsn = Some (q, Inr ()))"
proof (intro conjI)
  have inv: "pool_inv p" and use: "\<And>j. j \<in> A \<Longrightarrow> in_use p j" using reachable_inv [OF assms(1)] by auto
  have ok: "pager_ok p" "clean_ok p" "pins_ok p" using inv by (auto simp: pool_inv_def)
  have k0: "k \<noteq> 0" using use [OF assms(2)] by (auto simp: in_use_def)
  show "\<exists>q r. Get p k intent = Some (q, r) \<and> (r = Inl PoolExhausted \<longleftrightarrow> pg_index p k = None \<and> all_pinned p) \<and>
      (r \<noteq> Inl PoolExhausted \<longrightarrow> (\<exists>i. r = Inr i \<and> pg_index q k = Some i))"
  proof (cases "pg_index p k")
    case (Some m)
    then show ?thesis using Get_resident [OF ok k0 Some] by (auto simp: pinned_as_def)
  next
    case None
    show ?thesis
      by (cases rule: Get_absent [OF ok k0 None, of intent, case_names full got])
        (use None in \<open>auto simp: pinned_as_def\<close>)
  qed
  obtain m p0 where a: "(m, p0) = (if pg_free p \<noteq> [] then (last (pg_free p), p\<lparr>pg_free := butlast (pg_free p)\<rparr>)
        else (pg_dbSize p + 1, p\<lparr>pg_dbSize := pg_dbSize p + 1\<rparr>))" "m \<noteq> 0" "pg_index p m = None" "\<not> in_use p m"
    by (rule Allocate_page [OF inv assms(3)])
  have "m \<notin> A" using a(4) use by blast
  then show "\<exists>q r. Allocate p = Some (q, r) \<and> (r = Inl PoolExhausted \<longleftrightarrow> all_pinned p) \<and>
      (r \<noteq> Inl PoolExhausted \<longrightarrow> (\<exists>m i. r = Inr (m, i) \<and> m \<notin> A))"
    by (cases rule: Allocate_cases [OF ok a(1-3), case_names full got]) auto
  show "\<exists>q. Checkpoint p lsn = Some (q, Inr ())" by (rule Checkpoint_step [OF inv]) blast
qed

theorem pool_progress_witness:
  "\<exists>p q r. pg_dbSize p = 2 \<and> Get p 2 Read = Some (q, r) \<and> (\<exists>q. Checkpoint p 7 = Some (q, Inr ()))"
proof -
  obtain A p where p: "reachable A p" "2 \<in> A" "pg_dbSize p = 2" by (rule reachable_one)
  then have "pg_dbSize p \<noteq> - 1" by simp
  from pool_progress [OF p(1,2) this, where intent = Read and lsn = 7] p(3) show ?thesis by blast
qed

text \<open>C13: after a checkpoint and a crash the file opens again: following the trunk chain ends,
  the header is the one the checkpoint wrote, the free pages are the same, and every page
  in use has the body it had.\<close>

theorem checkpoint_reopen:
  assumes "reachable A p"
  shows "\<exists>q r. Checkpoint p lsn = Some (q, Inr ()) \<and>
    Open (Crash (pg_fs q)) (mf_path (pg_file q)) opts = Some (Some (Inr r)) \<and> pager_ok r \<and>
    pg_header r = pg_header q \<and> mset (pg_free r) = mset (pg_free p) \<and> (\<forall>k \<in> A. body r k = body p k)"
proof -
  have inv: "pool_inv p" and use: "\<And>j. j \<in> A \<Longrightarrow> in_use p j" using reachable_inv [OF assms] by auto
  obtain q where q: "Checkpoint p lsn = Some (q, Inr ())" "pool_inv q" "on_disk q"
    "\<forall>j. in_use p j \<longrightarrow> body q j = body p j" "\<forall>j. in_use q j = in_use p j" "pg_free q = pg_free p"
    by (rule Checkpoint_step [OF inv])
  have m: "mem_ok (pg_file q) (pg_fs q)" using q(2) by (simp add: pool_inv_def pager_ok_def)
  have mc: "mem_ok (pg_file q) (Crash (pg_fs q))" using m by (simp add: mem_ok_def Crash_def)
  have lv: "live_of (Crash (pg_fs q)) (pg_file q) = live q"
    using mf.crash_content [OF m] q(3) by (simp add: on_disk_def)
  obtain r where r: "Open (Crash (pg_fs q)) (mf_path (pg_file q)) opts = Some (Some (Inr r))" "pager_ok r"
    "pg_header r = pg_header q" "mset (pg_free r) = mset (pg_free q)"
    "\<forall>k. in_use q k \<longrightarrow> body r k = body q k"
    by (rule Open_ok [OF q(2,3) mc lv])
  with q use show ?thesis by auto
qed

theorem checkpoint_reopen_witness:
  "\<exists>p q r. Checkpoint p 0 = Some (q, Inr ()) \<and> pg_dbSize p = 2 \<and>
    Open (Crash (pg_fs q)) (mf_path (pg_file q))
      \<lparr>po_PageSize = 0, po_CacheFrames = 0, po_Checksum = 1, po_Flags = 0\<rparr> = Some (Some (Inr r)) \<and> pager_ok r \<and>
    body r 2 = body p 2"
proof -
  obtain A p where p: "reachable A p" "2 \<in> A" "pg_dbSize p = 2" by (rule reachable_one)
  from checkpoint_reopen [OF p(1), of 0 "\<lparr>po_PageSize = 0, po_CacheFrames = 0, po_Checksum = 1, po_Flags = 0\<rparr>"]
    p(2,3) show ?thesis by blast
qed

end
