(* ===== verification/Ieee.thy ===== *)
theory Ieee
  imports Prelude
begin

text \<open>
  Go's \<^verbatim>\<open>float32\<close> and \<^verbatim>\<open>float64\<close> as their IEEE 754 bit patterns (\<^verbatim>\<open>math.Float32bits\<close> and
  \<^verbatim>\<open>math.Float64bits\<close> are then the identity): comparison, conversion from integers and
  between the two widths, and correctly rounded (nearest, ties to even) multiplication and
  division.  A format is given by its number of mantissa bits \<open>m\<close> and exponent bits \<open>e\<close>.
\<close>

type_synonym f32 = u32
type_synonym f64 = u64

section \<open>Patterns\<close>

definition inf_mag :: "nat \<Rightarrow> nat \<Rightarrow> nat" where "inf_mag m e = (2 ^ e - 1) * 2 ^ m"
definition mag_of :: "nat \<Rightarrow> nat \<Rightarrow> nat \<Rightarrow> nat" where "mag_of m e b = b mod 2 ^ (m + e)"
definition neg_of :: "nat \<Rightarrow> nat \<Rightarrow> nat \<Rightarrow> bool" where "neg_of m e b = odd (b div 2 ^ (m + e))"
definition is_nan :: "nat \<Rightarrow> nat \<Rightarrow> nat \<Rightarrow> bool" where "is_nan m e b = (inf_mag m e < mag_of m e b)"
definition is_inf :: "nat \<Rightarrow> nat \<Rightarrow> nat \<Rightarrow> bool" where "is_inf m e b = (mag_of m e b = inf_mag m e)"
definition pattern_of :: "nat \<Rightarrow> nat \<Rightarrow> bool \<Rightarrow> nat \<Rightarrow> nat" where
  "pattern_of m e neg mag = (if neg then 2 ^ (m + e) else 0) + mag"
definition nan_pattern :: "nat \<Rightarrow> nat \<Rightarrow> nat" where "nan_pattern m e = inf_mag m e + 2 ^ (m - 1)"

text \<open>Patterns that are not NaN are ordered as signed magnitudes, so both zeros are equal.\<close>

definition order_key :: "nat \<Rightarrow> nat \<Rightarrow> nat \<Rightarrow> int" where
  "order_key m e b = (if neg_of m e b then - int (mag_of m e b) else int (mag_of m e b))"

definition ieee_lt :: "nat \<Rightarrow> nat \<Rightarrow> nat \<Rightarrow> nat \<Rightarrow> bool" where
  "ieee_lt m e a b = (\<not> is_nan m e a \<and> \<not> is_nan m e b \<and> order_key m e a < order_key m e b)"

definition ieee_eq :: "nat \<Rightarrow> nat \<Rightarrow> nat \<Rightarrow> nat \<Rightarrow> bool" where
  "ieee_eq m e a b = (\<not> is_nan m e a \<and> \<not> is_nan m e b \<and> order_key m e a = order_key m e b)"

section \<open>Rounding\<close>

fun bit_len :: "nat \<Rightarrow> nat" where
  "bit_len n = (if n = 0 then 0 else Suc (bit_len (n div 2)))"

declare bit_len.simps [simp del]

text \<open>The exponent of \<open>a / b\<close>, for positive \<open>a\<close> and \<open>b\<close>.\<close>

definition log2_quot :: "nat \<Rightarrow> nat \<Rightarrow> int" where
  "log2_quot a b =
    (let k = int (bit_len a) - int (bit_len b) in
     if (if 0 \<le> k then b * 2 ^ nat k \<le> a else b \<le> a * 2 ^ nat (- k)) then k else k - 1)"

text \<open>The magnitude pattern nearest to \<open>a / b\<close>, ties to even, overflowing to infinity.\<close>

definition ieee_quot :: "nat \<Rightarrow> nat \<Rightarrow> nat \<Rightarrow> nat \<Rightarrow> nat" where
  "ieee_quot m e a b =
    (if a = 0 then 0
     else let ex = max (log2_quot a b) (2 - 2 ^ (e - 1));
              s = int m - ex;
              num = (if 0 \<le> s then a * 2 ^ nat s else a);
              den = (if 0 \<le> s then b else b * 2 ^ nat (- s));
              q = num div den;
              r = num mod den;
              q' = (if den < 2 * r \<or> (2 * r = den \<and> odd q) then q + 1 else q)
          in min (q' + nat (ex + 2 ^ (e - 1) - 2) * 2 ^ m) (inf_mag m e))"

text \<open>A finite magnitude as a fraction.\<close>

definition frac_of :: "nat \<Rightarrow> nat \<Rightarrow> nat \<Rightarrow> nat \<times> nat" where
  "frac_of m e mag =
    (let ex = mag div 2 ^ m;
         f = mag mod 2 ^ m;
         sig = (if ex = 0 then f else f + 2 ^ m);
         p = int (if ex = 0 then 1 else ex) - (2 ^ (e - 1) - 1) - int m
     in if 0 \<le> p then (sig * 2 ^ nat p, 1) else (sig, 2 ^ nat (- p)))"

section \<open>The two Go types\<close>

definition f64_nan :: "f64 \<Rightarrow> bool" where "f64_nan x = is_nan 52 11 (unat x)"
definition f64_lt :: "f64 \<Rightarrow> f64 \<Rightarrow> bool" where "f64_lt x y = ieee_lt 52 11 (unat x) (unat y)"
definition f64_eq :: "f64 \<Rightarrow> f64 \<Rightarrow> bool" where "f64_eq x y = ieee_eq 52 11 (unat x) (unat y)"
definition f32_lt :: "f32 \<Rightarrow> f32 \<Rightarrow> bool" where "f32_lt x y = ieee_lt 23 8 (unat x) (unat y)"
definition f32_eq :: "f32 \<Rightarrow> f32 \<Rightarrow> bool" where "f32_eq x y = ieee_eq 23 8 (unat x) (unat y)"

definition f64_one :: f64 where "f64_one = 0x3FF0000000000000"
definition f64_inf :: f64 where "f64_inf = 0x7FF0000000000000"
definition f32_one :: f32 where "f32_one = 0x3F800000"

text \<open>\<^verbatim>\<open>float64(i)\<close> and \<^verbatim>\<open>float32(i)\<close> of an integer.\<close>

definition f64_of_int :: "int \<Rightarrow> f64" where
  "f64_of_int i = of_nat (pattern_of 52 11 (i < 0) (ieee_quot 52 11 (nat \<bar>i\<bar>) 1))"

definition f32_of_int :: "int \<Rightarrow> f32" where
  "f32_of_int i = of_nat (pattern_of 23 8 (i < 0) (ieee_quot 23 8 (nat \<bar>i\<bar>) 1))"

definition ieee_div :: "nat \<Rightarrow> nat \<Rightarrow> nat \<Rightarrow> nat \<Rightarrow> nat" where
  "ieee_div m e x y =
    (let sg = (neg_of m e x \<noteq> neg_of m e y); a = mag_of m e x; b = mag_of m e y in
     if is_nan m e x \<or> is_nan m e y \<or> (a = 0 \<and> b = 0) \<or> (is_inf m e x \<and> is_inf m e y) then nan_pattern m e
     else if is_inf m e x \<or> b = 0 then pattern_of m e sg (inf_mag m e)
     else if is_inf m e y \<or> a = 0 then pattern_of m e sg 0
     else let (an, ad) = frac_of m e a; (bn, bd) = frac_of m e b
          in pattern_of m e sg (ieee_quot m e (an * bd) (ad * bn)))"

definition ieee_mul :: "nat \<Rightarrow> nat \<Rightarrow> nat \<Rightarrow> nat \<Rightarrow> nat" where
  "ieee_mul m e x y =
    (let sg = (neg_of m e x \<noteq> neg_of m e y); a = mag_of m e x; b = mag_of m e y in
     if is_nan m e x \<or> is_nan m e y \<or> (is_inf m e x \<and> b = 0) \<or> (a = 0 \<and> is_inf m e y) then nan_pattern m e
     else if is_inf m e x \<or> is_inf m e y then pattern_of m e sg (inf_mag m e)
     else let (an, ad) = frac_of m e a; (bn, bd) = frac_of m e b
          in pattern_of m e sg (ieee_quot m e (an * bn) (ad * bd)))"

definition f64_div :: "f64 \<Rightarrow> f64 \<Rightarrow> f64" where "f64_div x y = of_nat (ieee_div 52 11 (unat x) (unat y))"
definition f32_div :: "f32 \<Rightarrow> f32 \<Rightarrow> f32" where "f32_div x y = of_nat (ieee_div 23 8 (unat x) (unat y))"
definition f32_mul :: "f32 \<Rightarrow> f32 \<Rightarrow> f32" where "f32_mul x y = of_nat (ieee_mul 23 8 (unat x) (unat y))"

text \<open>\<^verbatim>\<open>int32(math.Round(float64(x)))\<close> of a \<^verbatim>\<open>float32\<close>: the widening is exact and \<^verbatim>\<open>Round\<close> takes halves
  away from zero.  Go leaves the conversion of a value outside \<^verbatim>\<open>int32\<close> (or of a NaN) to the
  implementation, here the argument \<open>conv\<close>.\<close>

definition f32_round_int32 :: "(f32 \<Rightarrow> int) \<Rightarrow> f32 \<Rightarrow> int" where
  "f32_round_int32 conv x =
    (let b = unat x in
     if is_nan 23 8 b \<or> is_inf 23 8 b then conv x
     else let (n, d) = frac_of 23 8 (mag_of 23 8 b);
              r = int ((2 * n + d) div (2 * d));
              v = (if neg_of 23 8 b then - r else r)
          in if - (2 ^ 31) \<le> v \<and> v < 2 ^ 31 then v else conv x)"

section \<open>Order lemmas\<close>

lemma f64_lt_irrefl [simp]: "\<not> f64_lt x x"
  by (simp add: f64_lt_def ieee_lt_def)

lemma f64_lt_trans: "f64_lt x y \<Longrightarrow> f64_lt y z \<Longrightarrow> f64_lt x z"
  by (simp add: f64_lt_def ieee_lt_def)

lemma f64_lt_asym: "f64_lt x y \<Longrightarrow> \<not> f64_lt y x"
  by (simp add: f64_lt_def ieee_lt_def)

text \<open>Among values that are not NaN the order is total up to \<open>f64_eq\<close>.\<close>

lemma f64_lt_cotrans: "\<not> f64_nan y \<Longrightarrow> f64_lt x z \<Longrightarrow> f64_lt x y \<or> f64_lt y z"
  by (auto simp: f64_lt_def ieee_lt_def f64_nan_def)

lemma f64_eq_lt: "f64_eq x y \<Longrightarrow> f64_lt x z = f64_lt y z" "f64_eq x y \<Longrightarrow> f64_lt z x = f64_lt z y"
  by (auto simp: f64_lt_def ieee_lt_def f64_eq_def ieee_eq_def)

lemma f64_nan_lt: "f64_nan x \<Longrightarrow> \<not> f64_lt x y \<and> \<not> f64_lt y x \<and> \<not> f64_eq x y"
  by (simp add: f64_lt_def ieee_lt_def f64_nan_def f64_eq_def ieee_eq_def)

lemma bit_len_bounds: "0 < n \<Longrightarrow> 2 ^ (bit_len n - 1) \<le> n \<and> n < 2 ^ bit_len n \<and> 0 < bit_len n"
proof (induction n rule: bit_len.induct)
  case (1 n)
  show ?case
  proof (cases "n div 2 = 0")
    case True
    then have "n = 1" using 1 by simp
    then show ?thesis by (simp add: bit_len.simps)
  next
    case False
    then have IH: "2 ^ (bit_len (n div 2) - 1) \<le> n div 2" "n div 2 < 2 ^ bit_len (n div 2)" "0 < bit_len (n div 2)"
      using 1 by auto
    have len: "bit_len n = Suc (bit_len (n div 2))" using 1(2) by (subst bit_len.simps) simp
    obtain k where k: "bit_len (n div 2) = Suc k" using IH(3) by (cases "bit_len (n div 2)") auto
    have "2 ^ Suc k \<le> n" using IH(1) k by simp
    moreover have "n < 2 ^ Suc (Suc k)" using IH(2) k by simp
    ultimately show ?thesis using len k by simp
  qed
qed

end
