(* ===== verification/Storage_Bitmap.thy ===== *)
theory Storage_Bitmap
  imports Prelude
begin

text \<open>
  The position bitmap of \<^verbatim>\<open>src/storage/bitmap.go\<close>: a set of positions below a capacity, one bit
  per position in 64-bit words.  Every operation refines the one on sets.
\<close>

section \<open>Operations\<close>

record PositionBitmap =
  bm_words :: "u64 list"
  bm_n :: u32

definition NewPositionBitmap :: "u32 \<Rightarrow> PositionBitmap" where
  "NewPositionBitmap n = \<lparr>bm_words = replicate ((unat n + 63) div 64) 0, bm_n = n\<rparr>"

definition word_idx :: "u32 \<Rightarrow> nat" where "word_idx p = unat (drop_bit 6 p)"
definition bit_idx :: "u32 \<Rightarrow> nat" where "bit_idx p = unat (p AND 63)"

definition bm_Set :: "PositionBitmap \<Rightarrow> u32 \<Rightarrow> PositionBitmap" where
  "bm_Set b p =
    (if bm_n b \<le> p then b
     else b\<lparr>bm_words := (bm_words b)[word_idx p := (bm_words b ! word_idx p) OR push_bit (bit_idx p) 1]\<rparr>)"

definition bm_Clear :: "PositionBitmap \<Rightarrow> u32 \<Rightarrow> PositionBitmap" where
  "bm_Clear b p =
    (if bm_n b \<le> p then b
     else b\<lparr>bm_words := (bm_words b)[word_idx p := (bm_words b ! word_idx p) AND NOT (push_bit (bit_idx p) 1)]\<rparr>)"

definition Contains :: "PositionBitmap \<Rightarrow> u32 \<Rightarrow> bool" where
  "Contains b p =
    (if bm_n b \<le> p then False else (bm_words b ! word_idx p) AND push_bit (bit_idx p) 1 \<noteq> 0)"

definition OnesCount64 :: "u64 \<Rightarrow> nat" where
  "OnesCount64 w = length (filter (bit w) [0..<64])"

definition Count :: "PositionBitmap \<Rightarrow> nat" where
  "Count b = sum_list (map OnesCount64 (bm_words b))"

definition bm_Len :: "PositionBitmap \<Rightarrow> u32" where "bm_Len b = bm_n b"

fun and_words :: "u64 list \<Rightarrow> u64 list \<Rightarrow> u64 list" where
  "and_words [] ys = []"
| "and_words (x # xs) [] = 0 # and_words xs []"
| "and_words (x # xs) (y # ys) = (x AND y) # and_words xs ys"

definition bm_And :: "PositionBitmap \<Rightarrow> PositionBitmap \<Rightarrow> PositionBitmap" where
  "bm_And b other = b\<lparr>bm_words := and_words (bm_words b) (bm_words other)\<rparr>"

fun or_words :: "u64 list \<Rightarrow> u64 list \<Rightarrow> u64 list" where
  "or_words [] ys = []"
| "or_words (x # xs) [] = x # or_words xs []"
| "or_words (x # xs) (y # ys) = (x OR y) # or_words xs ys"

definition bm_Or :: "PositionBitmap \<Rightarrow> PositionBitmap \<Rightarrow> PositionBitmap" where
  "bm_Or b other = b\<lparr>bm_words := or_words (bm_words b) (bm_words other)\<rparr>"

definition SetAll :: "PositionBitmap \<Rightarrow> PositionBitmap" where
  "SetAll b =
    (let ws = map (\<lambda>_. NOT 0) (bm_words b); tail = bm_n b AND 63 in
     b\<lparr>bm_words := (if tail \<noteq> 0 \<and> ws \<noteq> [] then ws[length ws - 1 := push_bit (unat tail) 1 - 1] else ws)\<rparr>)"

section \<open>Refinement of sets\<close>

text \<open>The bits below the capacity, indexed by position.\<close>

definition bit_at :: "u64 list \<Rightarrow> nat \<Rightarrow> bool" where
  "bit_at ws i = (i div 64 < length ws \<and> bit (ws ! (i div 64)) (i mod 64))"

definition bm_ok :: "PositionBitmap \<Rightarrow> bool" where
  "bm_ok b \<longleftrightarrow> length (bm_words b) = (unat (bm_n b) + 63) div 64 \<and>
     (\<forall>i. bit_at (bm_words b) i \<longrightarrow> i < unat (bm_n b))"

definition members :: "PositionBitmap \<Rightarrow> nat set" where
  "members b = {i. bit_at (bm_words b) i}"

lemma word_idx_eq: "word_idx p = unat p div 64"
  by (simp add: word_idx_def unat_drop_bit_div)

lemma bit_idx_eq: "bit_idx p = unat p mod 64"
proof -
  have "p AND 63 = take_bit 6 p" by (simp add: take_bit_eq_mask mask_eq_exp_minus_1)
  then have "bit_idx p = take_bit 6 (unat p)" by (simp only: bit_idx_def unsigned_take_bit_eq)
  then show ?thesis by (simp add: take_bit_eq_mod)
qed

lemmas idx_eqs = word_idx_eq bit_idx_eq

lemma in_range: "length ws = (n + 63) div 64 \<Longrightarrow> i < n \<Longrightarrow> i div 64 < length (ws :: u64 list)"
  by linarith

lemma div_mod_eq: "(j :: nat) div 64 = i div 64 \<Longrightarrow> j mod 64 = i mod 64 \<longleftrightarrow> j = i"
  by (metis div_mult_mod_eq)

lemma Contains_iff: "bm_ok b \<Longrightarrow> Contains b p \<longleftrightarrow> unat p \<in> members b"
proof -
  assume ok: "bm_ok b"
  show ?thesis
  proof (cases "bm_n b \<le> p")
    case True
    then show ?thesis using ok by (auto simp: Contains_def members_def bm_ok_def word_le_nat_alt)
  next
    case False
    then have "unat p div 64 < length (bm_words b)"
      using ok by (intro in_range) (auto simp: bm_ok_def word_le_nat_alt)
    then show ?thesis
      using False by (simp add: Contains_def members_def bit_at_def idx_eqs and_exp_eq_0_iff_not_bit)
  qed
qed

lemma Set_refines:
  assumes ok: "bm_ok b"
  shows "bm_ok (bm_Set b p)" and "members (bm_Set b p) = members b \<union> (if p < bm_n b then {unat p} else {})"
proof -
  have "bm_ok (bm_Set b p) \<and> members (bm_Set b p) = members b \<union> (if p < bm_n b then {unat p} else {})"
  proof (cases "p < bm_n b")
    case True
    then have lt: "unat p < unat (bm_n b)" by (simp add: word_less_nat_alt)
    then have r: "unat p div 64 < length (bm_words b)" using ok by (intro in_range) (auto simp: bm_ok_def)
    have "bit_at (bm_words (bm_Set b p)) j \<longleftrightarrow> bit_at (bm_words b) j \<or> j = unat p" for j
      using True r div_mod_eq [of j "unat p"]
      by (auto simp: bm_Set_def idx_eqs bit_simps bit_at_def nth_list_update)
    moreover have "length (bm_words (bm_Set b p)) = length (bm_words b)" "bm_n (bm_Set b p) = bm_n b"
      by (simp_all add: bm_Set_def)
    ultimately show ?thesis using ok True lt by (auto simp: bm_ok_def members_def)
  qed (use ok in \<open>auto simp: bm_Set_def not_le\<close>)
  then show "bm_ok (bm_Set b p)" and "members (bm_Set b p) = members b \<union> (if p < bm_n b then {unat p} else {})"
    by auto
qed

lemma Clear_refines:
  assumes ok: "bm_ok b"
  shows "bm_ok (bm_Clear b p)" and "members (bm_Clear b p) = members b - {unat p}"
proof -
  have "bm_ok (bm_Clear b p) \<and> members (bm_Clear b p) = members b - {unat p}"
  proof (cases "p < bm_n b")
    case True
    then have lt: "unat p < unat (bm_n b)" by (simp add: word_less_nat_alt)
    then have r: "unat p div 64 < length (bm_words b)" using ok by (intro in_range) (auto simp: bm_ok_def)
    have "bit_at (bm_words (bm_Clear b p)) j \<longleftrightarrow> bit_at (bm_words b) j \<and> j \<noteq> unat p" for j
      using True r div_mod_eq [of j "unat p"]
      by (auto simp: bm_Clear_def idx_eqs bit_simps bit_at_def nth_list_update)
    moreover have "length (bm_words (bm_Clear b p)) = length (bm_words b)" "bm_n (bm_Clear b p) = bm_n b"
      by (simp_all add: bm_Clear_def)
    ultimately show ?thesis using ok by (auto simp: bm_ok_def members_def)
  next
    case False
    then show ?thesis using ok by (auto simp: bm_Clear_def bm_ok_def members_def word_less_nat_alt word_le_nat_alt)
  qed
  then show "bm_ok (bm_Clear b p)" and "members (bm_Clear b p) = members b - {unat p}" by auto
qed

lemma and_words_bit: "bit_at (and_words xs ys) i \<longleftrightarrow> bit_at xs i \<and> bit_at ys i"
proof -
  have len: "length (and_words xs ys) = length xs" for xs ys
    by (induction xs ys rule: and_words.induct) auto
  have "k < length xs \<Longrightarrow> and_words xs ys ! k = (if k < length ys then xs ! k AND ys ! k else 0)" for k
    by (induction xs ys arbitrary: k rule: and_words.induct) (auto simp: nth_Cons split: nat.split)
  then show ?thesis by (auto simp: bit_at_def len bit_simps split: if_splits)
qed

lemma or_words_bit: "bit_at (or_words xs ys) i \<longleftrightarrow> bit_at xs i \<or> (bit_at ys i \<and> i div 64 < length xs)"
proof -
  have len: "length (or_words xs ys) = length xs" for xs ys
    by (induction xs ys rule: or_words.induct) auto
  have "k < length xs \<Longrightarrow> or_words xs ys ! k = (if k < length ys then xs ! k OR ys ! k else xs ! k)" for k
    by (induction xs ys arbitrary: k rule: or_words.induct) (auto simp: nth_Cons split: nat.split)
  then show ?thesis by (auto simp: bit_at_def len bit_simps split: if_splits)
qed

lemma length_and_words [simp]: "length (and_words xs ys) = length xs"
  by (induction xs ys rule: and_words.induct) auto

lemma length_or_words [simp]: "length (or_words xs ys) = length xs"
  by (induction xs ys rule: or_words.induct) auto

lemma And_refines:
  assumes "bm_ok b"
  shows "bm_ok (bm_And b c)" and "members (bm_And b c) = members b \<inter> members c"
  using assms by (auto simp: bm_ok_def bm_And_def members_def and_words_bit)

text \<open>A union is exact when the other bitmap is no longer than this one.\<close>

lemma Or_refines:
  assumes "bm_ok b" and "bm_ok c" and "bm_n c \<le> bm_n b"
  shows "bm_ok (bm_Or b c)" and "members (bm_Or b c) = members b \<union> members c"
proof -
  have "unat (bm_n c) \<le> unat (bm_n b)" using assms(3) by (simp add: word_le_nat_alt)
  then have "i < unat (bm_n b)" "i div 64 < length (bm_words b)" if "bit_at (bm_words c) i" for i
    using that assms(1,2) in_range [of "bm_words b" "unat (bm_n b)" i] by (auto simp: bm_ok_def dest: less_le_trans)
  then show "bm_ok (bm_Or b c)" and "members (bm_Or b c) = members b \<union> members c"
    using assms(1) by (auto simp: bm_ok_def bm_Or_def members_def or_words_bit)
qed

lemma New_refines: "bm_ok (NewPositionBitmap n)" "members (NewPositionBitmap n) = {}"
  by (auto simp: bm_ok_def NewPositionBitmap_def members_def bit_at_def)

lemma OnesCount64_card: "OnesCount64 w = card {i. i < 64 \<and> bit w i}"
proof -
  have "OnesCount64 w = card (set (filter (bit w) [0..<64]))"
    unfolding OnesCount64_def by (intro distinct_card [symmetric]) simp
  also have "set (filter (bit w) [0..<64]) = {i. i < 64 \<and> bit w i}" by auto
  finally show ?thesis .
qed

lemma Count_bits: "sum_list (map OnesCount64 ws) = card {i. bit_at ws i}"
proof (induction ws rule: rev_induct)
  case Nil
  then show ?case by (simp add: bit_at_def)
next
  case (snoc w ws)
  let ?f = "\<lambda>i. 64 * length ws + i"
  have split: "{i. bit_at (ws @ [w]) i} = {i. bit_at ws i} \<union> ?f ` {i. i < 64 \<and> bit w i}"
  proof (intro set_eqI iffI)
    fix j
    assume "j \<in> {i. bit_at (ws @ [w]) i}"
    then have j: "j div 64 < Suc (length ws)" "bit ((ws @ [w]) ! (j div 64)) (j mod 64)" by (auto simp: bit_at_def)
    show "j \<in> {i. bit_at ws i} \<union> ?f ` {i. i < 64 \<and> bit w i}"
    proof (cases "j div 64 = length ws")
      case True
      then have "j = ?f (j mod 64)" "bit w (j mod 64)" using j(2) by (auto simp: nth_append) (metis mult_div_mod_eq)
      then show ?thesis by auto
    next
      case False
      then show ?thesis using j by (auto simp: bit_at_def nth_append)
    qed
  qed (auto simp: bit_at_def nth_append)
  have fin: "finite {i. bit_at ws i}"
    by (rule finite_subset [of _ "{..< 64 * length ws}"]) (auto simp: bit_at_def)
  have "card {i. bit_at (ws @ [w]) i} = card {i. bit_at ws i} + card (?f ` {i. i < 64 \<and> bit w i})"
    unfolding split by (rule card_Un_disjoint [OF fin]) (auto simp: bit_at_def)
  also have "card (?f ` {i. i < 64 \<and> bit w i}) = OnesCount64 w"
    by (simp add: OnesCount64_card card_image inj_on_def)
  finally show ?case using snoc by simp
qed

lemma Count_refines: "Count b = card (members b)"
  by (simp add: Count_def members_def Count_bits)

lemma SetAll_refines:
  assumes ok: "bm_ok b"
  shows "bm_ok (SetAll b)" and "members (SetAll b) = {..< unat (bm_n b)}"
proof -
  let ?n = "unat (bm_n b)" and ?l = "length (bm_words b)"
  have len: "?l = (?n + 63) div 64" using ok by (simp add: bm_ok_def)
  have tail: "unat (bm_n b AND 63) = ?n mod 64" using bit_idx_eq [of "bm_n b"] by (simp add: bit_idx_def)
  have mask: "bit (push_bit k 1 - 1 :: u64) j \<longleftrightarrow> j < k" if "k < 64" "j < 64" for k j
    using that by (simp add: bit_mask_iff push_bit_eq_mult flip: mask_eq_exp_minus_1)
  have "bit_at (bm_words (SetAll b)) j \<longleftrightarrow> j < ?n" for j
  proof (cases "?n mod 64 = 0")
    case True
    then have "bm_n b AND 63 = 0" using tail by (simp add: unat_eq_zero)
    moreover have "?l * 64 = ?n"
    proof -
      obtain k where k: "?n = 64 * k" using True by (auto simp: mod_eq_0_iff_dvd)
      then show ?thesis using len by simp
    qed
    then have "j div 64 < ?l \<longleftrightarrow> j < ?n" by (simp add: div_less_iff_less_mult)
    ultimately show ?thesis by (auto simp: SetAll_def Let_def bit_at_def bit_simps)
  next
    case False
    then have ne: "bm_n b AND 63 \<noteq> 0" "bm_words b \<noteq> []" using tail len by (auto simp: unat_eq_zero)
    have "?l = Suc (?n div 64)"
    proof -
      have "?n + 63 = 64 * Suc (?n div 64) + (?n mod 64 - 1)"
        using False mult_div_mod_eq [of 64 ?n] by simp
      moreover have "?n mod 64 - 1 < 64" by (simp add: less_imp_diff_less)
      ultimately show ?thesis using len by (metis add.commute div_mult_self4 div_less add_0 zero_neq_numeral)
    qed
    then have last: "?l - 1 = ?n div 64" "0 < ?l" "?l = Suc (?n div 64)" by auto
    have w: "bm_words (SetAll b) = (map (\<lambda>_. NOT 0) (bm_words b))[?n div 64 := push_bit (?n mod 64) 1 - 1]"
      using ne tail last(1) by (simp add: SetAll_def Let_def)
    have at: "bit_at (bm_words (SetAll b)) j \<longleftrightarrow>
        (if j div 64 = ?n div 64 then j mod 64 < ?n mod 64 else j div 64 < ?l)"
      using last mask unfolding w by (auto simp: bit_at_def nth_list_update bit_simps)
    show ?thesis
    proof (cases "j div 64 = ?n div 64")
      case True
      then have "j < ?n \<longleftrightarrow> j mod 64 < ?n mod 64"
        by (metis add_less_cancel_left mult_div_mod_eq)
      then show ?thesis using at True by simp
    next
      case False
      then have "j div 64 < ?l \<longleftrightarrow> j div 64 < ?n div 64" using last(3) by auto
      also have "\<dots> \<longleftrightarrow> j < ?n"
        using False div_le_mono [of ?n j 64] div_le_mono [of j ?n 64] by (meson leI le_antisym less_imp_le not_le)
      finally have "j div 64 < ?l \<longleftrightarrow> j < ?n" .
      then show ?thesis using at False by simp
    qed
  qed
  moreover have "length (bm_words (SetAll b)) = ?l" "bm_n (SetAll b) = bm_n b"
    by (simp_all add: SetAll_def Let_def)
  ultimately show "bm_ok (SetAll b)" and "members (SetAll b) = {..< ?n}"
    using ok by (auto simp: bm_ok_def members_def)
qed

section \<open>Properties\<close>



text \<open>A union with a longer bitmap sets bits beyond the capacity, which \<^verbatim>\<open>Contains\<close> hides but
  \<^verbatim>\<open>Count\<close> counts.\<close>

theorem or_beyond_capacity:
  "\<exists>b c. bm_ok b \<and> bm_ok c \<and> (\<forall>p. \<not> Contains (bm_Or b c) p) \<and> Count (bm_Or b c) = 1"
proof -
  let ?b = "NewPositionBitmap 1" and ?c = "bm_Set (NewPositionBitmap 2) 1"
  have "bm_Or ?b ?c = \<lparr>bm_words = [2], bm_n = 1\<rparr>"
    by (simp add: bm_Or_def bm_Set_def NewPositionBitmap_def word_idx_def bit_idx_def word_le_nat_alt)
  moreover have "Count \<lparr>bm_words = [2], bm_n = 1\<rparr> = 1"
    by (simp add: Count_def OnesCount64_def upt_rec)
  moreover have "\<not> Contains \<lparr>bm_words = [2], bm_n = 1\<rparr> p" for p
    by (auto simp: Contains_def word_le_nat_alt not_le word_idx_def bit_idx_def unat_eq_zero)
  ultimately show ?thesis
    using New_refines(1) Set_refines(1) [OF New_refines(1)] by (metis One_nat_def)
qed

end
