(* ===== verification/Storage_Segment.thy ===== *)
theory Storage_Segment
  imports Ieee Storage_Bitmap Mvcc_Conflict
begin

text \<open>
  Vector codecs and fixed-stride vector segments: \<^verbatim>\<open>src/storage/types.go\<close>, \<^verbatim>\<open>codec.go\<close> and
  \<^verbatim>\<open>segment.go\<close>.  A vector is the list of its float32 bit patterns.  Slot positions and the
  counters of a segment are natural numbers, being bounded by its capacity, a \<^verbatim>\<open>uint32\<close>.
\<close>

section \<open>Errors and element types\<close>

datatype storage_error =
    ErrNotFound | ErrDuplicateID | ErrDeleted | ErrNotVisible | ErrPositionOutOfRange | ErrSegmentCorrupt
  | ErrDatabaseCorrupt | ErrDimensionMismatch | ErrSchemaMismatch | ErrCompactionActive
  | ErrUnknownCollection | ErrUnknownColumn | ErrTxnClosed | HookErr nat

datatype ElemType = ElemFP32 | ElemFP16 | ElemInt8 | ElemBinary

fun elemAlign :: "ElemType \<Rightarrow> nat" where
  "elemAlign ElemFP32 = 32"
| "elemAlign ElemFP16 = 16"
| "elemAlign ElemInt8 = 16"
| "elemAlign ElemBinary = 8"

fun elem_rawBytes :: "ElemType \<Rightarrow> u32 \<Rightarrow> nat" where
  "elem_rawBytes ElemFP32 dims = unat dims * 4"
| "elem_rawBytes ElemFP16 dims = unat dims * 2"
| "elem_rawBytes ElemInt8 dims = unat dims"
| "elem_rawBytes ElemBinary dims = (unat dims + 7) div 8"

text \<open>Clearing the low bits of \<^verbatim>\<open>raw + align - 1\<close> rounds down to a multiple of the power of two
  \<^verbatim>\<open>align\<close>; the result is cut to 32 bits.\<close>

definition computeStride :: "ElemType \<Rightarrow> u32 \<Rightarrow> u32" where
  "computeStride elem dims =
    (let raw = elem_rawBytes elem dims; al = elemAlign elem in of_nat ((raw + al - 1) div al * al))"

section \<open>Half precision\<close>

definition float32ToHalf :: "f32 \<Rightarrow> u16" where
  "float32ToHalf b =
    (let sign = ucast (drop_bit 16 b AND 0x8000) :: u16;
         ex = int (unat (drop_bit 23 b AND 0xFF)) - 127 + 15;
         mant = b AND 0x7FFFFF
     in if b AND 0x7FFFFFFF = 0 then sign
        else if 0x1F \<le> ex then
          (if b AND 0x7F800000 = 0x7F800000 \<and> mant \<noteq> 0 then sign OR 0x7E00 else sign OR 0x7C00)
        else if ex \<le> 0 then
          (if ex < -10 then sign
           else let mant = mant OR 0x800000;
                    shift = nat (14 - ex);
                    half = ucast (drop_bit shift mant) :: u16
                in sign OR (if drop_bit (shift - 1) mant AND 1 \<noteq> 0 then half + 1 else half))
        else let half = sign OR push_bit 10 (of_int ex) OR ucast (drop_bit 13 mant)
             in if mant AND 0x1000 \<noteq> 0 then half + 1 else half)"

text \<open>The normalisation loop of \<^verbatim>\<open>halfToFloat32\<close> shifts a nonzero ten-bit mantissa left until bit 10 is
  set, which takes at most ten shifts.\<close>

fun norm_half :: "nat \<Rightarrow> u32 \<Rightarrow> u32 \<Rightarrow> u32 \<times> u32" where
  "norm_half 0 mant e = (mant, e)"
| "norm_half (Suc n) mant e =
    (if mant AND 0x400 = 0 then norm_half n (push_bit 1 mant) (e - 1) else (mant, e))"

definition halfToFloat32 :: "u16 \<Rightarrow> f32" where
  "halfToFloat32 h =
    (let sign = push_bit 16 (ucast (h AND 0x8000)) :: u32;
         ex = (ucast (drop_bit 10 h) :: u32) AND 0x1F;
         mant = ucast (h AND 0x3FF) :: u32
     in if ex = 0 then
          (if mant = 0 then sign
           else let (mant, e) = norm_half 10 mant (127 - 15 + 1)
                in sign OR push_bit 23 e OR push_bit 13 (mant AND 0x3FF))
        else if ex = 0x1F then
          (if mant = 0 then sign OR 0x7F800000 else sign OR 0x7F800000 OR push_bit 13 mant)
        else sign OR push_bit 23 (ex - 15 + 127) OR push_bit 13 mant)"

section \<open>Vector codecs\<close>

datatype vecCodec = fp32Codec nat | fp16Codec nat | int8Codec nat f32 | binaryCodec nat

definition codecFor :: "ElemType \<Rightarrow> u32 \<Rightarrow> f32 \<Rightarrow> vecCodec" where
  "codecFor elem dims int8Scale =
    (case elem of
       ElemFP16 \<Rightarrow> fp16Codec (unat dims)
     | ElemInt8 \<Rightarrow> int8Codec (unat dims) (if f32_eq int8Scale 0 then f32_one else int8Scale)
     | ElemBinary \<Rightarrow> binaryCodec (unat dims)
     | ElemFP32 \<Rightarrow> fp32Codec (unat dims))"

fun rawBytes :: "vecCodec \<Rightarrow> nat" where
  "rawBytes (fp32Codec dims) = dims * 4"
| "rawBytes (fp16Codec dims) = dims * 2"
| "rawBytes (int8Codec dims scale) = dims"
| "rawBytes (binaryCodec dims) = (dims + 7) div 8"

definition quantize :: "(f32 \<Rightarrow> int) \<Rightarrow> f32 \<Rightarrow> f32 \<Rightarrow> byte" where
  "quantize conv scale x =
    (let q = f32_round_int32 conv (f32_div x scale);
         q = (if q > 127 then 127 else q);
         q = (if q < -127 then -127 else q)
     in of_int q)"

fun set_bits :: "f32 list \<Rightarrow> nat \<Rightarrow> bytes \<Rightarrow> bytes" where
  "set_bits [] i dst = dst"
| "set_bits (x # xs) i dst =
    set_bits xs (Suc i) (if f32_lt 0 x then dst[i div 8 := dst ! (i div 8) OR push_bit (i mod 8) 1] else dst)"

text \<open>The encoders overwrite all \<^verbatim>\<open>rawBytes\<close> bytes of their destination, so an encoding is a list of
  bytes; \<open>conv\<close> is the implementation's conversion of unrepresentable floats to \<^verbatim>\<open>int32\<close>.\<close>

fun encode :: "(f32 \<Rightarrow> int) \<Rightarrow> vecCodec \<Rightarrow> f32 list \<Rightarrow> bytes" where
  "encode conv (fp32Codec dims) vec = concat (map (le_put 4) (take dims vec))"
| "encode conv (fp16Codec dims) vec = concat (map (\<lambda>x. le_put 2 (float32ToHalf x)) (take dims vec))"
| "encode conv (int8Codec dims scale) vec = map (quantize conv scale) (take dims vec)"
| "encode conv (binaryCodec dims) vec = set_bits (take dims vec) 0 (replicate ((dims + 7) div 8) 0)"

fun decode :: "vecCodec \<Rightarrow> bytes \<Rightarrow> f32 list" where
  "decode (fp32Codec dims) src = map (\<lambda>i. le_get (get_at (i * 4) 4 src)) [0..<dims]"
| "decode (fp16Codec dims) src = map (\<lambda>i. halfToFloat32 (le_get (get_at (i * 2) 2 src))) [0..<dims]"
| "decode (int8Codec dims scale) src = map (\<lambda>i. f32_mul (f32_of_int (sint (src ! i))) scale) [0..<dims]"
| "decode (binaryCodec dims) src =
    map (\<lambda>i. if src ! (i div 8) AND push_bit (i mod 8) 1 \<noteq> 0 then f32_one else 0) [0..<dims]"

section \<open>Segments\<close>

record segment =
  sg_seqNum :: u32
  sg_elem :: ElemType
  sg_dims :: u32
  sg_stride :: u32
  sg_capacity :: nat
  sg_sealed :: bool
  sg_nextPos :: nat
  sg_codec :: vecCodec
  sg_data :: bytes
  sg_tomb :: "u64 list"
  sg_version :: "CommitSeq list"
  sg_backward :: "PointID list"
  sg_liveCount :: nat
  sg_deadCount :: nat

definition newSegment :: "u32 \<Rightarrow> ElemType \<Rightarrow> u32 \<Rightarrow> u32 \<Rightarrow> nat \<Rightarrow> vecCodec \<Rightarrow> segment" where
  "newSegment seqNum elem dims stride capacity codec =
    \<lparr>sg_seqNum = seqNum, sg_elem = elem, sg_dims = dims, sg_stride = stride, sg_capacity = capacity,
     sg_sealed = False, sg_nextPos = 0, sg_codec = codec,
     sg_data = replicate (capacity * unat stride) 0,
     sg_tomb = replicate ((capacity + 63) div 64) 0,
     sg_version = replicate capacity 0,
     sg_backward = replicate capacity 0,
     sg_liveCount = 0, sg_deadCount = 0\<rparr>"

definition full :: "segment \<Rightarrow> bool" where "full s = (sg_capacity s \<le> sg_nextPos s)"

definition seg_append :: "(f32 \<Rightarrow> int) \<Rightarrow> segment \<Rightarrow> PointID \<Rightarrow> f32 list \<Rightarrow> CommitSeq \<Rightarrow> segment \<times> nat" where
  "seg_append conv s pid vec ver =
    (let pos = sg_nextPos s;
         off = pos * unat (sg_stride s)
     in (s\<lparr>sg_data := put_at off (encode conv (sg_codec s) vec) (sg_data s),
           sg_backward := (sg_backward s)[pos := pid],
           sg_version := (sg_version s)[pos := ver],
           sg_nextPos := pos + 1,
           sg_liveCount := sg_liveCount s + 1\<rparr>, pos))"

definition seg_FetchVector :: "segment \<Rightarrow> nat \<Rightarrow> storage_error + f32 list" where
  "seg_FetchVector s slotPos =
    (if sg_nextPos s \<le> slotPos then Inl ErrPositionOutOfRange
     else Inr (decode (sg_codec s) (get_at (slotPos * unat (sg_stride s)) (rawBytes (sg_codec s)) (sg_data s))))"

definition tomb_bit :: "nat \<Rightarrow> u64" where "tomb_bit slotPos = push_bit (slotPos mod 64) 1"

definition IsTombstoned :: "segment \<Rightarrow> nat \<Rightarrow> bool" where
  "IsTombstoned s slotPos =
    (if sg_capacity s \<le> slotPos then True
     else (sg_tomb s ! (slotPos div 64)) AND tomb_bit slotPos \<noteq> 0)"

definition seg_tombstone :: "segment \<Rightarrow> nat \<Rightarrow> segment" where
  "seg_tombstone s slotPos =
    (if sg_capacity s \<le> slotPos \<or> IsTombstoned s slotPos then s
     else s\<lparr>sg_tomb := (sg_tomb s)[slotPos div 64 := (sg_tomb s ! (slotPos div 64)) OR tomb_bit slotPos],
            sg_liveCount := (if 0 < sg_liveCount s then sg_liveCount s - 1 else sg_liveCount s),
            sg_deadCount := sg_deadCount s + 1\<rparr>)"

text \<open>The bit operation the undo entries use.\<close>

definition clear_tomb :: "segment \<Rightarrow> nat \<Rightarrow> segment" where
  "clear_tomb s slotPos =
     s\<lparr>sg_tomb := (sg_tomb s)[slotPos div 64 := (sg_tomb s ! (slotPos div 64)) AND NOT (tomb_bit slotPos)]\<rparr>"

definition VersionAt :: "segment \<Rightarrow> nat \<Rightarrow> u64" where
  "VersionAt s slotPos = (if sg_capacity s \<le> slotPos then 0 else sg_version s ! slotPos)"

definition BackwardMapLookup :: "segment \<Rightarrow> nat \<Rightarrow> storage_error + PointID" where
  "BackwardMapLookup s slotPos =
    (if sg_nextPos s \<le> slotPos then Inl ErrPositionOutOfRange else Inr (sg_backward s ! slotPos))"

text \<open>\<^verbatim>\<open>Scan\<close> with a callback that has a state of its own and says whether to go on.\<close>

fun scan_slots :: "segment \<Rightarrow> ('s \<Rightarrow> nat \<Rightarrow> f32 list \<Rightarrow> 's \<times> bool) \<Rightarrow> nat list \<Rightarrow> 's \<Rightarrow> 's" where
  "scan_slots s cb [] st = st"
| "scan_slots s cb (p # ps) st =
    (if IsTombstoned s p then scan_slots s cb ps st
     else let buf = decode (sg_codec s) (get_at (p * unat (sg_stride s)) (rawBytes (sg_codec s)) (sg_data s));
              (st', more) = cb st p buf
          in if more then scan_slots s cb ps st' else st')"

definition Scan :: "segment \<Rightarrow> ('s \<Rightarrow> nat \<Rightarrow> f32 list \<Rightarrow> 's \<times> bool) \<Rightarrow> 's \<Rightarrow> 's" where
  "Scan s cb st = scan_slots s cb [0..<sg_nextPos s] st"

definition visibleLive :: "segment \<Rightarrow> nat \<Rightarrow> Snapshot option \<Rightarrow> bool" where
  "visibleLive s slotPos snap =
    (if IsTombstoned s slotPos then False
     else case snap of None \<Rightarrow> True | Some sn \<Rightarrow> IsVisible sn (sg_version s ! slotPos) 0)"

end
