(* ===== verification/Storage_Zone.thy ===== *)
theory Storage_Zone
  imports Storage_Value
begin

text \<open>
  Soundness of zone maps: on a typed column without NaN the order of the values is a strict
  weak order, folding a value into a block keeps every bound, and a block that the
  predicate can skip holds no row that passes it.
\<close>

section \<open>Order of values\<close>

lemma str_lt_irrefl [simp]: "\<not> str_lt x x"
  by (induction x) auto

lemma str_lt_trans: "str_lt x y \<Longrightarrow> str_lt y z \<Longrightarrow> str_lt x z"
  by (induction x y arbitrary: z rule: str_lt.induct) (case_tac z; auto)+

lemma str_lt_total: "str_lt x y \<or> x = y \<or> str_lt y x"
proof (induction x y rule: str_lt.induct)
  case (1 x)
  then show ?case by (cases x) auto
qed auto

lemma str_lt_cotrans: "str_lt x z \<Longrightarrow> str_lt x y \<or> str_lt y z"
  using str_lt_total [of x y] str_lt_trans by blast

lemma cmpString_neg: "cmpString a b < 0 \<longleftrightarrow> str_lt a b"
  using str_lt_trans [of a b a] by (auto simp: cmpString_def)

lemma less_cases:
  "less v u \<longleftrightarrow>
     (\<exists>a b. asFloat v = Some a \<and> asFloat u = Some b \<and> f64_lt a b) \<or>
     (\<exists>s r. v = TextV s \<and> u = TextV r \<and> str_lt s r) \<or>
     (\<exists>s r. v = BytesV s \<and> u = BytesV r \<and> str_lt s r)"
  by (cases v; cases u) (auto simp: less_def order_def IsNull_def stringy_def cmpString_neg)

text \<open>A value a typed column may hold and the order can place.\<close>

definition plain :: "ColType \<Rightarrow> Value \<Rightarrow> bool" where
  "plain t v \<longleftrightarrow> valueMatchesType v t \<and> (\<forall>f. asFloat v = Some f \<longrightarrow> \<not> f64_nan f)"

lemma plain_cases:
  assumes "plain t v"
  obtains (num) a where "asFloat v = Some a" and "\<not> f64_nan a" and "t \<notin> {ColText, ColBytes}"
  | (strv) s where "v = TextV s" and "t = ColText"
  | (bytesv) b where "v = BytesV b" and "t = ColBytes"
  using assms by (cases v; cases t) (auto simp: plain_def)

lemma plain_not_null: "plain t v \<Longrightarrow> \<not> IsNull v"
  by (cases v; cases t) (auto simp: plain_def IsNull_def)

lemma less_trans: "less x y \<Longrightarrow> less y z \<Longrightarrow> less x z"
  by (auto simp: less_cases dest: f64_lt_trans str_lt_trans)

lemma less_cotrans:
  assumes "plain t y" and "plain t v"
  shows "less v z \<Longrightarrow> less v y \<or> less y z" and "less x v \<Longrightarrow> less x y \<or> less y v"
  using assms
  by (elim plain_cases; auto simp: less_cases dest: f64_lt_cotrans str_lt_cotrans)+

lemma equal_less:
  assumes "equal v u" and "\<not> IsNull v"
  shows "less v w = less u w" and "less w v = less w u"
  using assms
  by (cases v; cases u; auto simp: equal_def IsNull_def less_cases f64_eq_lt split: if_splits)+

section \<open>Folding\<close>

definition covers :: "ColType \<Rightarrow> ZoneBlock \<Rightarrow> Value \<Rightarrow> bool" where
  "covers t blk v \<longleftrightarrow> IsNull v \<or> (plain t v \<and> zb_Count blk \<noteq> 0 \<and> plain t (zb_Min blk) \<and> plain t (zb_Max blk) \<and>
     \<not> less v (zb_Min blk) \<and> \<not> less (zb_Max blk) v)"

definition block_ok :: "ColType \<Rightarrow> ZoneBlock \<Rightarrow> bool" where
  "block_ok t blk \<longleftrightarrow> zb_Count blk = 0 \<or>
     (plain t (zb_Min blk) \<and> plain t (zb_Max blk) \<and> \<not> less (zb_Max blk) (zb_Min blk))"

lemma less_irrefl [simp]: "\<not> less v v"
  by (auto simp: less_cases)

lemma block_ok_zero [simp]: "block_ok t zero_block"
  by (simp add: block_ok_def zero_block_def)

lemma fold_block_ok:
  assumes "block_ok t blk" and "IsNull v \<or> plain t v"
  shows "block_ok t (fold_block v blk)"
  using assms
  by (auto simp: fold_block_def block_ok_def Let_def dest: plain_not_null)

lemma fold_covers_new:
  assumes "block_ok t blk" and "IsNull v \<or> plain t v" and "zb_Count blk \<noteq> - 1"
  shows "covers t (fold_block v blk) v"
proof -
  have "zb_Count blk + 1 \<noteq> 0" using assms(3) by (metis add.commute add_eq_0_iff)
  then show ?thesis
    using assms less_trans [of "zb_Max blk" v "zb_Min blk"]
    by (auto simp: fold_block_def covers_def block_ok_def Let_def dest: plain_not_null)
qed

lemma fold_covers_old:
  assumes "covers t blk u" and "IsNull v \<or> plain t v" and "zb_Count blk \<noteq> - 1"
  shows "covers t (fold_block v blk) u"
proof -
  have "zb_Count blk + 1 \<noteq> 0" using assms(3) by (metis add.commute add_eq_0_iff)
  then show ?thesis
    using assms less_trans [of u v "zb_Min blk"] less_trans [of "zb_Max blk" v u]
    by (auto simp: fold_block_def covers_def Let_def dest: plain_not_null)
qed

section \<open>Skipping\<close>

lemma canSkip_sound:
  assumes "canSkip blk op lit" and "covers t blk v"
  shows "\<not> eval_compare op v lit"
proof (cases "IsNull v \<or> IsNull lit")
  case False
  then have c: "plain t v" "plain t (zb_Min blk)" "plain t (zb_Max blk)" "\<not> less v (zb_Min blk)" "\<not> less (zb_Max blk) v"
    using assms(2) by (auto simp: covers_def)
  note lo = less_cotrans(1) [OF c(2,1)] and hi = less_cotrans(2) [OF c(3,1)]
  have eq: "equal v lit \<Longrightarrow> less lit (zb_Min blk) = less v (zb_Min blk) \<and> less (zb_Max blk) lit = less (zb_Max blk) v"
    using equal_less False by blast
  show ?thesis
    using assms(1) False c(4,5) lo hi eq less_trans [of v lit "zb_Min blk"] less_trans [of "zb_Max blk" lit v]
    by (cases op) (auto simp: canSkip_def eval_compare_def split: if_splits)
qed (simp add: eval_compare_def)

text \<open>A row of a block: each of its values that has a zone block is covered by it.\<close>

definition row_covered :: "(ColID \<Rightarrow> ZoneMap option) \<Rightarrow> nat \<Rightarrow> (ColID \<Rightarrow> Value) \<Rightarrow> bool" where
  "row_covered zones i get \<longleftrightarrow>
     (\<forall>c zm. zones c = Some zm \<longrightarrow> i < length zm \<longrightarrow> (\<exists>t. covers t (zm ! i) (get c)))"

lemma skippable_sound:
  shows "row_covered zones i get \<Longrightarrow> blockSkippable pred zones i \<Longrightarrow> \<not> eval get pred"
    and "row_covered zones i get \<Longrightarrow> any_skippable preds zones i \<Longrightarrow> \<not> eval_all get preds"
proof (induction pred zones i and preds zones i rule: blockSkippable_any_skippable.induct)
  case (1 c op lit zones i)
  then show ?case
    using canSkip_sound by (fastforce simp: row_covered_def split: option.splits if_splits)
qed (auto split: if_splits)

end
