(* ===== verification/Storage_Meta.thy ===== *)
theory Storage_Meta
  imports Storage_Segment Storage_Zone "HOL-Library.AList"
begin

text \<open>
  The columnar metadata store of \<^verbatim>\<open>src/storage/metadata.go\<close> and the id map of
  \<^verbatim>\<open>src/storage/idmap.go\<close>.  Go iterates over a map in an unspecified order; a metadata row and
  the columns of a store are association lists, and the order of a list stands for the order
  of the iteration.
\<close>

section \<open>Columns\<close>

record colSegment =
  cg_segSeq :: u32
  cg_capacity :: nat
  cg_vals :: "Value list"
  cg_zone :: ZoneMap

definition col_writeAt :: "colSegment \<Rightarrow> nat \<Rightarrow> Value \<Rightarrow> colSegment" where
  "col_writeAt cs slotPos v =
     cs\<lparr>cg_vals := (cg_vals cs @ replicate (Suc slotPos - length (cg_vals cs)) NullValue)[slotPos := v],
        cg_zone := fold_zone (of_nat slotPos) v (cg_zone cs)\<rparr>"

definition col_readAt :: "colSegment \<Rightarrow> nat \<Rightarrow> Value" where
  "col_readAt cs slotPos = (if length (cg_vals cs) \<le> slotPos then NullValue else cg_vals cs ! slotPos)"

record ColumnDef =
  cd_ID :: ColID
  cd_Name :: string
  cd_Type :: ColType
  cd_Nullable :: bool

record column =
  co_def :: ColumnDef
  co_segs :: "u32 \<Rightarrow> colSegment option"

text \<open>\<^verbatim>\<open>column.segment\<close>: the column segment, created when absent.\<close>

definition col_segment :: "column \<Rightarrow> u32 \<Rightarrow> nat \<Rightarrow> colSegment" where
  "col_segment c segSeq capacity =
    (case co_segs c segSeq of
       None \<Rightarrow> \<lparr>cg_segSeq = segSeq, cg_capacity = capacity, cg_vals = [], cg_zone = []\<rparr>
     | Some cs \<Rightarrow> cs)"

definition write_cell :: "column \<Rightarrow> u32 \<Rightarrow> nat \<Rightarrow> nat \<Rightarrow> Value \<Rightarrow> column" where
  "write_cell c segSeq slotPos capacity v =
     c\<lparr>co_segs := (co_segs c)(segSeq \<mapsto> col_writeAt (col_segment c segSeq capacity) slotPos v)\<rparr>"

section \<open>The metadata store\<close>

type_synonym MetaRow = "(ColID \<times> Value) list"
type_synonym metadataStore = "(ColID \<times> column) list"

text \<open>A later definition with the same id replaces the earlier one.\<close>

definition newMetadataStore :: "ColumnDef list \<Rightarrow> metadataStore" where
  "newMetadataStore defs =
     fold (\<lambda>d m. AList.update (cd_ID d) \<lparr>co_def = d, co_segs = Map.empty\<rparr> m) defs []"

definition ms_has :: "metadataStore \<Rightarrow> ColID \<Rightarrow> bool" where
  "ms_has m colID = (map_of m colID \<noteq> None)"

definition cell_of :: "MetaRow \<Rightarrow> ColID \<Rightarrow> Value" where
  "cell_of row c = (case map_of row c of None \<Rightarrow> NullValue | Some v \<Rightarrow> v)"

fun write_cols :: "u32 \<Rightarrow> nat \<Rightarrow> nat \<Rightarrow> MetaRow \<Rightarrow> metadataStore \<Rightarrow> metadataStore \<times> storage_error option" where
  "write_cols segSeq slotPos capacity row [] = ([], None)"
| "write_cols segSeq slotPos capacity row ((k, col) # m) =
    (let v = cell_of row k in
     if \<not> IsNull v \<and> \<not> valueMatchesType v (cd_Type (co_def col)) then ((k, col) # m, Some ErrSchemaMismatch)
     else let (m', err) = write_cols segSeq slotPos capacity row m
          in ((k, write_cell col segSeq slotPos capacity v) # m', err))"

definition writeRow :: "metadataStore \<Rightarrow> u32 \<Rightarrow> nat \<Rightarrow> nat \<Rightarrow> MetaRow \<Rightarrow> metadataStore \<times> storage_error option" where
  "writeRow m segSeq slotPos capacity row =
    (case write_cols segSeq slotPos capacity row m of
       (m', Some err) \<Rightarrow> (m', Some err)
     | (m', None) \<Rightarrow> (m', if \<exists>(k, v) \<in> set row. map_of m' k = None then Some ErrUnknownColumn else None))"

definition ms_ReadAt :: "metadataStore \<Rightarrow> ColID \<Rightarrow> u32 \<Rightarrow> nat \<Rightarrow> storage_error + Value" where
  "ms_ReadAt m colID segSeq slotPos =
    (case map_of m colID of
       None \<Rightarrow> Inl ErrUnknownColumn
     | Some col \<Rightarrow>
         (case co_segs col segSeq of
            None \<Rightarrow> Inr NullValue
          | Some cs \<Rightarrow> Inr (col_readAt cs slotPos)))"

definition ms_WriteAt ::
  "metadataStore \<Rightarrow> ColID \<Rightarrow> u32 \<Rightarrow> nat \<Rightarrow> nat \<Rightarrow> Value \<Rightarrow> metadataStore \<times> storage_error option" where
  "ms_WriteAt m colID segSeq slotPos capacity v =
    (case map_of m colID of
       None \<Rightarrow> (m, Some ErrUnknownColumn)
     | Some col \<Rightarrow>
         if \<not> IsNull v \<and> \<not> valueMatchesType v (cd_Type (co_def col)) then (m, Some ErrSchemaMismatch)
         else (AList.update colID (write_cell col segSeq slotPos capacity v) m, None))"

definition ms_ZoneMap :: "metadataStore \<Rightarrow> ColID \<Rightarrow> u32 \<Rightarrow> storage_error + ZoneMap" where
  "ms_ZoneMap m colID segSeq =
    (case map_of m colID of
       None \<Rightarrow> Inl ErrUnknownColumn
     | Some col \<Rightarrow> (case co_segs col segSeq of None \<Rightarrow> Inr [] | Some cs \<Rightarrow> Inr (cg_zone cs)))"

definition rebuild_zone :: "colSegment \<Rightarrow> colSegment" where
  "rebuild_zone cs =
     cs\<lparr>cg_zone := fold (\<lambda>p z. fold_zone (of_nat p) (cg_vals cs ! p) z) [0..<length (cg_vals cs)] []\<rparr>"

definition RebuildZoneMaps :: "metadataStore \<Rightarrow> ColID \<Rightarrow> metadataStore \<times> storage_error option" where
  "RebuildZoneMaps m colID =
    (case map_of m colID of
       None \<Rightarrow> (m, Some ErrUnknownColumn)
     | Some col \<Rightarrow>
         (AList.update colID (col\<lparr>co_segs := (\<lambda>s. map_option rebuild_zone (co_segs col s))\<rparr>) m, None))"

definition zoneMapsFor :: "metadataStore \<Rightarrow> u32 \<Rightarrow> ColID \<Rightarrow> ZoneMap option" where
  "zoneMapsFor m segSeq c =
    (case map_of m c of None \<Rightarrow> None | Some col \<Rightarrow> map_option cg_zone (co_segs col segSeq))"

definition dropSegment :: "metadataStore \<Rightarrow> u32 \<Rightarrow> metadataStore" where
  "dropSegment m segSeq = map (\<lambda>(k, col). (k, col\<lparr>co_segs := (co_segs col)(segSeq := None)\<rparr>)) m"

section \<open>The id map\<close>

record idMap =
  id_fwd :: "PointID \<Rightarrow> (u32 \<times> nat) option"
  id_dead :: "PointID set"

definition newIDMap :: idMap where
  "newIDMap = \<lparr>id_fwd = Map.empty, id_dead = {}\<rparr>"

definition ForwardLookup :: "idMap \<Rightarrow> PointID \<Rightarrow> storage_error + (u32 \<times> nat)" where
  "ForwardLookup m pid = (case id_fwd m pid of None \<Rightarrow> Inl ErrNotFound | Some loc \<Rightarrow> Inr loc)"

definition id_insert :: "idMap \<Rightarrow> PointID \<Rightarrow> u32 \<Rightarrow> nat \<Rightarrow> idMap \<times> storage_error option" where
  "id_insert m pid segSeq slotPos =
    (if id_fwd m pid \<noteq> None then (m, Some ErrDuplicateID)
     else (m\<lparr>id_fwd := (id_fwd m)(pid \<mapsto> (segSeq, slotPos)), id_dead := id_dead m - {pid}\<rparr>, None))"

definition id_tombstone :: "idMap \<Rightarrow> PointID \<Rightarrow> idMap \<times> storage_error option" where
  "id_tombstone m pid =
    (if id_fwd m pid = None then (m, Some ErrNotFound)
     else (m\<lparr>id_fwd := (id_fwd m)(pid := None), id_dead := insert pid (id_dead m)\<rparr>, None))"

definition reassign :: "idMap \<Rightarrow> PointID \<Rightarrow> u32 \<Rightarrow> nat \<Rightarrow> idMap" where
  "reassign m pid segSeq slotPos =
     m\<lparr>id_fwd := (id_fwd m)(pid \<mapsto> (segSeq, slotPos)), id_dead := id_dead m - {pid}\<rparr>"

record Repoint =
  rp_OldPos :: u32
  rp_NewPos :: u32
  rp_PointID :: PointID

fun applyRepoint :: "idMap \<Rightarrow> Repoint list \<Rightarrow> (u32 \<Rightarrow> u32 \<times> nat) \<Rightarrow> idMap" where
  "applyRepoint m [] locOf = m"
| "applyRepoint m (r # rs) locOf =
    applyRepoint
      (if id_fwd m (rp_PointID r) = None then m
       else m\<lparr>id_fwd := (id_fwd m)(rp_PointID r \<mapsto> locOf (rp_NewPos r))\<rparr>) rs locOf"

definition id_stats :: "idMap \<Rightarrow> nat \<times> nat" where
  "id_stats m = (card (dom (id_fwd m)), card (id_dead m))"

end
