(* ===== verification/Storage_Engine.thy ===== *)
theory Storage_Engine
  imports Storage_Meta
begin

text \<open>
  Collections, transactions, the engine and compaction: \<^verbatim>\<open>src/storage/collection.go\<close>, \<^verbatim>\<open>txn.go\<close>,
  \<^verbatim>\<open>engine.go\<close> and \<^verbatim>\<open>compaction.go\<close>.  The closures a transaction registers are data: a stamp names
  the slot whose version it patches and an undo entry the mutation it reverses, each by
  collection id, segment sequence number and slot.  Mutexes are left out except the writer
  lock, under which \<^verbatim>\<open>Begin\<close> blocks.  Collection-level positions are 32-bit words and wrap.
\<close>

section \<open>Collections\<close>

record CollectionDef =
  df_ID :: u64
  df_Name :: string
  df_Dims :: u32
  df_Elem :: ElemType
  df_Metric :: nat
  df_Columns :: "ColumnDef list"
  df_SegmentCapacity :: u32
  df_Int8Scale :: f32

record HistogramBucket =
  hb_Lo :: f64
  hb_Hi :: f64
  hb_Count :: nat

record ColumnStats =
  st_ColID :: ColID
  st_NullFraction :: f64
  st_DistinctCount :: nat
  st_Min :: Value
  st_Max :: Value
  st_Histogram :: "HistogramBucket list"

record collection =
  cl_id :: u64
  cl_name :: string
  cl_dims :: u32
  cl_elem :: ElemType
  cl_stride :: u32
  cl_metric :: nat
  cl_codec :: vecCodec
  cl_int8Scale :: f32
  cl_capacity :: nat
  cl_columns :: "ColumnDef list"
  cl_segs :: "segment list"
  cl_dirOf :: "u32 \<Rightarrow> nat option"
  cl_openIdx :: "nat option"
  cl_nextSeq :: u32
  cl_idmap :: idMap
  cl_meta :: metadataStore
  cl_writes :: u64
  cl_colStats :: "ColID \<Rightarrow> ColumnStats option"

text \<open>None: a division by the stride zero.\<close>

definition segCapacity :: "CollectionDef \<Rightarrow> u32 \<Rightarrow> u32 option" where
  "segCapacity def stride =
    (if 0 < df_SegmentCapacity def then Some (df_SegmentCapacity def)
     else if stride = 0 then None
     else let cp = of_nat (268435456 div unat stride) :: u32 in Some (if cp = 0 then 1 else cp))"

definition newCollection :: "CollectionDef \<Rightarrow> collection option" where
  "newCollection def =
    (let stride = computeStride (df_Elem def) (df_Dims def) in
     case segCapacity def stride of
       None \<Rightarrow> None
     | Some cp \<Rightarrow>
         Some \<lparr>cl_id = df_ID def, cl_name = df_Name def, cl_dims = df_Dims def, cl_elem = df_Elem def,
               cl_stride = stride, cl_metric = df_Metric def,
               cl_codec = codecFor (df_Elem def) (df_Dims def) (df_Int8Scale def),
               cl_int8Scale = df_Int8Scale def, cl_capacity = unat cp, cl_columns = df_Columns def,
               cl_segs = [], cl_dirOf = Map.empty, cl_openIdx = None, cl_nextSeq = 0,
               cl_idmap = newIDMap, cl_meta = newMetadataStore (df_Columns def), cl_writes = 0,
               cl_colStats = Map.empty\<rparr>)"

definition colPos :: "collection \<Rightarrow> nat \<Rightarrow> nat \<Rightarrow> u32" where
  "colPos c dirIdx slotPos = of_nat dirIdx * of_nat (cl_capacity c) + of_nat slotPos"

definition locate :: "collection \<Rightarrow> u32 \<Rightarrow> (nat \<times> nat) option" where
  "locate c p =
    (let di = unat p div cl_capacity c in
     if length (cl_segs c) \<le> di then None else Some (di, unat p mod cl_capacity c))"

definition segBySeq :: "collection \<Rightarrow> u32 \<Rightarrow> nat option" where
  "segBySeq c segSeq = cl_dirOf c segSeq"

definition upd_seg :: "nat \<Rightarrow> (segment \<Rightarrow> segment) \<Rightarrow> collection \<Rightarrow> collection" where
  "upd_seg di g c = c\<lparr>cl_segs := (cl_segs c)[di := g (cl_segs c ! di)]\<rparr>"

text \<open>\<^verbatim>\<open>ensureOpen\<close> returns the collection with the directory index of its open segment.\<close>

definition ensureOpen :: "collection \<Rightarrow> collection \<times> nat" where
  "ensureOpen c =
    (let fresh = (\<lambda>c. let seg = newSegment (cl_nextSeq c) (cl_elem c) (cl_dims c) (cl_stride c) (cl_capacity c) (cl_codec c);
                          n = length (cl_segs c)
                      in (c\<lparr>cl_nextSeq := cl_nextSeq c + 1, cl_segs := cl_segs c @ [seg],
                            cl_dirOf := (cl_dirOf c)(sg_seqNum seg \<mapsto> n), cl_openIdx := Some n\<rparr>, n))
     in case cl_openIdx c of
          None \<Rightarrow> fresh c
        | Some i \<Rightarrow>
            if \<not> full (cl_segs c ! i) then (c, i)
            else fresh (upd_seg i (\<lambda>s. s\<lparr>sg_sealed := True\<rparr>) c))"

fun dir_loop :: "nat \<Rightarrow> segment list \<Rightarrow> (u32 \<Rightarrow> nat option) \<Rightarrow> nat option \<Rightarrow> (u32 \<Rightarrow> nat option) \<times> nat option" where
  "dir_loop i [] d op = (d, op)"
| "dir_loop i (s # ss) d op = dir_loop (Suc i) ss (d(sg_seqNum s \<mapsto> i)) (if \<not> sg_sealed s then Some i else op)"

definition rebuildDir :: "collection \<Rightarrow> collection" where
  "rebuildDir c = (let (d, op) = dir_loop 0 (cl_segs c) Map.empty None in c\<lparr>cl_dirOf := d, cl_openIdx := op\<rparr>)"

definition liveTotal :: "collection \<Rightarrow> nat \<times> nat" where
  "liveTotal c = (sum_list (map sg_liveCount (cl_segs c)), sum_list (map sg_deadCount (cl_segs c)))"

section \<open>Engine and transactions\<close>

datatype stamp_entry = StampVersion u64 u32 nat

datatype undo_entry =
    UndoAppend u64 PointID u32 nat
  | UndoDelete u64 PointID u32 nat
  | UndoReplace u64 u32 nat
  | UndoMeta u64 ColID u32 nat Value

record txn =
  tx_id :: TxnID
  tx_readSeq :: CommitSeq
  tx_write :: bool
  tx_done :: bool
  tx_stamp :: "stamp_entry list"
  tx_undo :: "undo_entry list"

record Engine =
  en_clock :: Clock
  en_colls :: "u64 \<Rightarrow> collection option"
  en_compacting :: "u64 set"
  en_writerLocked :: bool
  en_repointHook :: "(u64 \<Rightarrow> Repoint list \<Rightarrow> storage_error option) option"

definition NewEngine :: Engine where
  "NewEngine = \<lparr>en_clock = NewClock 1, en_colls = Map.empty, en_compacting = {}, en_writerLocked = False,
     en_repointHook = None\<rparr>"

definition SetRepointHook :: "Engine \<Rightarrow> (u64 \<Rightarrow> Repoint list \<Rightarrow> storage_error option) option \<Rightarrow> Engine" where
  "SetRepointHook e h = e\<lparr>en_repointHook := h\<rparr>"

text \<open>None: the panic of \<^verbatim>\<open>segCapacity\<close>.\<close>

definition CreateCollection :: "Engine \<Rightarrow> CollectionDef \<Rightarrow> (Engine \<times> storage_error option) option" where
  "CreateCollection e def =
    (if df_Dims def = 0 then Some (e, Some ErrDimensionMismatch)
     else if en_colls e (df_ID def) \<noteq> None then Some (e, Some ErrDuplicateID)
     else case newCollection def of
       None \<Rightarrow> None
     | Some c \<Rightarrow> Some (e\<lparr>en_colls := (en_colls e)(df_ID def \<mapsto> c)\<rparr>, None))"

definition en_Snapshot :: "Engine \<Rightarrow> Snapshot" where
  "en_Snapshot e = \<lparr>sn_ReadSeq = Current (en_clock e), sn_TxnID = 0, sn_InFlight = []\<rparr>"

definition txn_snapshot :: "txn \<Rightarrow> Snapshot" where
  "txn_snapshot t = \<lparr>sn_ReadSeq = tx_readSeq t, sn_TxnID = tx_id t, sn_InFlight = []\<rparr>"

text \<open>None: the caller blocks on the writer lock.\<close>

definition Begin :: "Engine \<Rightarrow> bool \<Rightarrow> (Engine \<times> txn) option" where
  "Begin e write =
    (let t = \<lparr>tx_id = 0, tx_readSeq = Current (en_clock e), tx_write = write, tx_done = False,
              tx_stamp = [], tx_undo = []\<rparr>
     in if \<not> write then Some (e, t)
        else if en_writerLocked e then None
        else let (ck, n) = NextTxn (en_clock e)
             in Some (e\<lparr>en_clock := ck, en_writerLocked := True\<rparr>, t\<lparr>tx_id := n\<rparr>))"

definition on_coll :: "u64 \<Rightarrow> (collection \<Rightarrow> collection) \<Rightarrow> Engine \<Rightarrow> Engine" where
  "on_coll k g e = (case en_colls e k of None \<Rightarrow> e | Some c \<Rightarrow> e\<lparr>en_colls := (en_colls e)(k \<mapsto> g c)\<rparr>)"

text \<open>A segment a closure holds that is no longer in the directory is unreachable.\<close>

definition on_seg :: "u32 \<Rightarrow> (segment \<Rightarrow> segment) \<Rightarrow> collection \<Rightarrow> collection" where
  "on_seg segSeq g c = (case cl_dirOf c segSeq of None \<Rightarrow> c | Some di \<Rightarrow> upd_seg di g c)"

fun run_stamp :: "CommitSeq \<Rightarrow> stamp_entry \<Rightarrow> Engine \<Rightarrow> Engine" where
  "run_stamp seq (StampVersion k segSeq slotPos) e =
     on_coll k (on_seg segSeq (\<lambda>s. s\<lparr>sg_version := (sg_version s)[slotPos := seq]\<rparr>)) e"

fun undo_coll :: "undo_entry \<Rightarrow> collection \<Rightarrow> collection" where
  "undo_coll (UndoAppend k pid segSeq slotPos) c =
    (let im = fst (id_tombstone (cl_idmap c) pid);
         c1 = c\<lparr>cl_idmap := im\<lparr>id_dead := id_dead im - {pid}\<rparr>\<rparr>
     in on_seg segSeq
          (\<lambda>s. let s1 = clear_tomb s slotPos;
                   s2 = (if sg_nextPos s1 = slotPos + 1 then s1\<lparr>sg_nextPos := sg_nextPos s1 - 1\<rparr> else s1)
               in if 0 < sg_liveCount s2 then s2\<lparr>sg_liveCount := sg_liveCount s2 - 1\<rparr> else s2) c1)"
| "undo_coll (UndoDelete k pid segSeq slotPos) c =
    (let c1 = on_seg segSeq
          (\<lambda>s. let s1 = clear_tomb s slotPos
               in s1\<lparr>sg_liveCount := sg_liveCount s1 + 1,
                     sg_deadCount := (if 0 < sg_deadCount s1 then sg_deadCount s1 - 1 else sg_deadCount s1)\<rparr>) c
     in c1\<lparr>cl_idmap := reassign (cl_idmap c1) pid segSeq slotPos\<rparr>)"
| "undo_coll (UndoReplace k segSeq slotPos) c =
    on_seg segSeq
      (\<lambda>s. let s1 = clear_tomb s slotPos
           in s1\<lparr>sg_liveCount := sg_liveCount s1 + 1,
                 sg_deadCount := (if 0 < sg_deadCount s1 then sg_deadCount s1 - 1 else sg_deadCount s1)\<rparr>) c"
| "undo_coll (UndoMeta k colID segSeq slotPos prev) c =
    c\<lparr>cl_meta := fst (ms_WriteAt (cl_meta c) colID segSeq slotPos (cl_capacity c) prev)\<rparr>"

fun undo_key :: "undo_entry \<Rightarrow> u64" where
  "undo_key (UndoAppend k _ _ _) = k"
| "undo_key (UndoDelete k _ _ _) = k"
| "undo_key (UndoReplace k _ _) = k"
| "undo_key (UndoMeta k _ _ _ _) = k"

definition run_undo :: "undo_entry \<Rightarrow> Engine \<Rightarrow> Engine" where
  "run_undo u e = on_coll (undo_key u) (undo_coll u) e"

definition txn_Commit :: "Engine \<Rightarrow> txn \<Rightarrow> Engine \<times> txn \<times> storage_error option" where
  "txn_Commit e t =
    (if tx_done t then (e, t, Some ErrTxnClosed)
     else let t1 = t\<lparr>tx_done := True\<rparr> in
       if \<not> tx_write t then (e, t1, None)
       else let (ck, seq) = NextSeq (en_clock e);
                e1 = fold (run_stamp seq) (tx_stamp t) (e\<lparr>en_clock := ck\<rparr>)
            in (e1\<lparr>en_writerLocked := False\<rparr>, t1, None))"

definition txn_Abort :: "Engine \<Rightarrow> txn \<Rightarrow> Engine \<times> txn \<times> storage_error option" where
  "txn_Abort e t =
    (if tx_done t then (e, t, Some ErrTxnClosed)
     else let t1 = t\<lparr>tx_done := True\<rparr> in
       if \<not> tx_write t then (e, t1, None)
       else ((fold run_undo (rev (tx_undo t)) e)\<lparr>en_writerLocked := False\<rparr>, t1, None))"

section \<open>Writes\<close>

definition bump_writes :: "collection \<Rightarrow> collection" where
  "bump_writes c = c\<lparr>cl_writes := cl_writes c + 1\<rparr>"

definition unappend :: "segment \<Rightarrow> segment" where
  "unappend s = s\<lparr>sg_nextPos := sg_nextPos s - 1, sg_liveCount := sg_liveCount s - 1\<rparr>"

definition appendPoint ::
  "(f32 \<Rightarrow> int) \<Rightarrow> txn \<Rightarrow> collection \<Rightarrow> u64 \<Rightarrow> PointID \<Rightarrow> f32 list \<Rightarrow> MetaRow \<Rightarrow>
   collection \<times> txn \<times> (storage_error + u32)" where
  "appendPoint conv t c collID pid vec row =
    (if (of_nat (length vec) :: u32) \<noteq> cl_dims c then (c, t, Inl ErrDimensionMismatch)
     else case ForwardLookup (cl_idmap c) pid of
       Inr _ \<Rightarrow> (c, t, Inl ErrDuplicateID)
     | Inl _ \<Rightarrow>
         let (c1, di) = ensureOpen c;
             (seg, slotPos) = seg_append conv (cl_segs c1 ! di) pid vec 0;
             seqNum = sg_seqNum seg;
             c2 = upd_seg di (\<lambda>_. seg) c1;
             (m, err) = writeRow (cl_meta c2) seqNum slotPos (cl_capacity c2) row;
             c3 = c2\<lparr>cl_meta := m\<rparr>
         in case err of
              Some x \<Rightarrow> (upd_seg di unappend c3, t, Inl x)
            | None \<Rightarrow>
                (case id_insert (cl_idmap c3) pid seqNum slotPos of
                   (im, Some x) \<Rightarrow> (upd_seg di unappend (c3\<lparr>cl_idmap := im\<rparr>), t, Inl x)
                 | (im, None) \<Rightarrow>
                     (bump_writes (c3\<lparr>cl_idmap := im\<rparr>),
                      t\<lparr>tx_stamp := tx_stamp t @ [StampVersion collID seqNum slotPos],
                        tx_undo := tx_undo t @ [UndoAppend collID pid seqNum slotPos]\<rparr>,
                      Inr (colPos c3 di slotPos))))"

definition put_coll :: "Engine \<Rightarrow> u64 \<Rightarrow> collection \<Rightarrow> Engine" where
  "put_coll e k c = e\<lparr>en_colls := (en_colls e)(k \<mapsto> c)\<rparr>"

definition Insert ::
  "(f32 \<Rightarrow> int) \<Rightarrow> Engine \<Rightarrow> txn \<Rightarrow> u64 \<Rightarrow> PointID \<Rightarrow> f32 list \<Rightarrow> MetaRow \<Rightarrow> Engine \<times> txn \<times> (storage_error + u32)" where
  "Insert conv e t collID pid vec row =
    (case en_colls e collID of
       None \<Rightarrow> (e, t, Inl ErrUnknownCollection)
     | Some c \<Rightarrow> let (c', t', r) = appendPoint conv t c collID pid vec row in (put_coll e collID c', t', r))"

record Point =
  pt_ID :: PointID
  pt_Vec :: "f32 list"
  pt_Meta :: MetaRow

fun insert_points ::
  "(f32 \<Rightarrow> int) \<Rightarrow> txn \<Rightarrow> collection \<Rightarrow> u64 \<Rightarrow> Point list \<Rightarrow> u32 list \<Rightarrow>
   collection \<times> txn \<times> u32 list \<times> storage_error option" where
  "insert_points conv t c collID [] out = (c, t, out, None)"
| "insert_points conv t c collID (p # ps) out =
    (case appendPoint conv t c collID (pt_ID p) (pt_Vec p) (pt_Meta p) of
       (c', t', Inl err) \<Rightarrow> (c', t', out, Some err)
     | (c', t', Inr pos) \<Rightarrow> insert_points conv t' c' collID ps (out @ [pos]))"

definition InsertBatch ::
  "(f32 \<Rightarrow> int) \<Rightarrow> Engine \<Rightarrow> txn \<Rightarrow> u64 \<Rightarrow> Point list \<Rightarrow> Engine \<times> txn \<times> u32 list \<times> storage_error option" where
  "InsertBatch conv e t collID points =
    (case en_colls e collID of
       None \<Rightarrow> (e, t, [], Some ErrUnknownCollection)
     | Some c \<Rightarrow>
         let (c', t', out, err) = insert_points conv t c collID points [] in (put_coll e collID c', t', out, err))"

definition delete_point :: "txn \<Rightarrow> collection \<Rightarrow> u64 \<Rightarrow> PointID \<Rightarrow> collection \<times> txn \<times> storage_error option" where
  "delete_point t c collID pid =
    (case ForwardLookup (cl_idmap c) pid of
       Inl _ \<Rightarrow> (c, t, Some ErrNotFound)
     | Inr (segSeq, slotPos) \<Rightarrow>
         (case segBySeq c segSeq of
            None \<Rightarrow> (c, t, Some ErrNotFound)
          | Some di \<Rightarrow>
              let c1 = upd_seg di (\<lambda>s. seg_tombstone s slotPos) c in
              (case id_tombstone (cl_idmap c1) pid of
                 (im, Some err) \<Rightarrow> (c1\<lparr>cl_idmap := im\<rparr>, t, Some err)
               | (im, None) \<Rightarrow>
                   (bump_writes (c1\<lparr>cl_idmap := im\<rparr>),
                    t\<lparr>tx_undo := tx_undo t @ [UndoDelete collID pid segSeq slotPos]\<rparr>, None))))"

definition Delete :: "Engine \<Rightarrow> txn \<Rightarrow> u64 \<Rightarrow> PointID \<Rightarrow> Engine \<times> txn \<times> storage_error option" where
  "Delete e t collID pid =
    (case en_colls e collID of
       None \<Rightarrow> (e, t, Some ErrUnknownCollection)
     | Some c \<Rightarrow> let (c', t', r) = delete_point t c collID pid in (put_coll e collID c', t', r))"

definition upsert_point ::
  "(f32 \<Rightarrow> int) \<Rightarrow> txn \<Rightarrow> collection \<Rightarrow> u64 \<Rightarrow> PointID \<Rightarrow> f32 list \<Rightarrow> MetaRow \<Rightarrow>
   collection \<times> txn \<times> (storage_error + u32) \<times> bool" where
  "upsert_point conv t c collID pid vec row =
    (case ForwardLookup (cl_idmap c) pid of
       Inr (segSeq, slotPos) \<Rightarrow>
         let di = (case segBySeq c segSeq of Some d \<Rightarrow> d | None \<Rightarrow> 0);
             c1 = upd_seg di (\<lambda>s. seg_tombstone s slotPos) c;
             c2 = c1\<lparr>cl_idmap := fst (id_tombstone (cl_idmap c1) pid)\<rparr>;
             t1 = t\<lparr>tx_undo := tx_undo t @ [UndoReplace collID segSeq slotPos]\<rparr>;
             (c3, t2, r) = appendPoint conv t1 c2 collID pid vec row
         in (c3, t2, r, False)
     | Inl _ \<Rightarrow> let (c1, t1, r) = appendPoint conv t c collID pid vec row in (c1, t1, r, True))"

definition Upsert ::
  "(f32 \<Rightarrow> int) \<Rightarrow> Engine \<Rightarrow> txn \<Rightarrow> u64 \<Rightarrow> PointID \<Rightarrow> f32 list \<Rightarrow> MetaRow \<Rightarrow>
   Engine \<times> txn \<times> (storage_error + u32) \<times> bool" where
  "Upsert conv e t collID pid vec row =
    (case en_colls e collID of
       None \<Rightarrow> (e, t, Inl ErrUnknownCollection, False)
     | Some c \<Rightarrow>
         let (c', t', r, isnew) = upsert_point conv t c collID pid vec row in (put_coll e collID c', t', r, isnew))"

fun update_cells ::
  "txn \<Rightarrow> collection \<Rightarrow> u64 \<Rightarrow> u32 \<Rightarrow> nat \<Rightarrow> MetaRow \<Rightarrow> collection \<times> txn \<times> storage_error option" where
  "update_cells t c collID segSeq slotPos [] = (c, t, None)"
| "update_cells t c collID segSeq slotPos ((colID, v) # row) =
    (if \<not> ms_has (cl_meta c) colID then (c, t, Some ErrUnknownColumn)
     else let prev = (case ms_ReadAt (cl_meta c) colID segSeq slotPos of Inr x \<Rightarrow> x | Inl _ \<Rightarrow> NullValue) in
       case ms_WriteAt (cl_meta c) colID segSeq slotPos (cl_capacity c) v of
         (m, Some err) \<Rightarrow> (c\<lparr>cl_meta := m\<rparr>, t, Some err)
       | (m, None) \<Rightarrow>
           update_cells (t\<lparr>tx_undo := tx_undo t @ [UndoMeta collID colID segSeq slotPos prev]\<rparr>)
             (c\<lparr>cl_meta := m\<rparr>) collID segSeq slotPos row)"

definition UpdateMeta :: "Engine \<Rightarrow> txn \<Rightarrow> u64 \<Rightarrow> PointID \<Rightarrow> MetaRow \<Rightarrow> Engine \<times> txn \<times> storage_error option" where
  "UpdateMeta e t collID pid row =
    (case en_colls e collID of
       None \<Rightarrow> (e, t, Some ErrUnknownCollection)
     | Some c \<Rightarrow>
         (case ForwardLookup (cl_idmap c) pid of
            Inl _ \<Rightarrow> (e, t, Some ErrNotFound)
          | Inr (segSeq, slotPos) \<Rightarrow>
              (case update_cells t c collID segSeq slotPos row of
                 (c', t', Some err) \<Rightarrow> (put_coll e collID c', t', Some err)
               | (c', t', None) \<Rightarrow> (put_coll e collID (bump_writes c'), t', None))))"

section \<open>Reads\<close>

record PointRecord =
  pr_Pos :: u32
  pr_ID :: PointID
  pr_Vec :: "f32 list"
  pr_Meta :: MetaRow

definition projectMeta :: "collection \<Rightarrow> u32 \<Rightarrow> nat \<Rightarrow> ColID list option \<Rightarrow> MetaRow" where
  "projectMeta c segSeq slotPos proj =
    (let cols = (case proj of None \<Rightarrow> map cd_ID (cl_columns c) | Some cs \<Rightarrow> cs) in
     fold (\<lambda>cid row. case ms_ReadAt (cl_meta c) cid segSeq slotPos of
                        Inr v \<Rightarrow> if \<not> IsNull v then AList.update cid v row else row
                      | Inl _ \<Rightarrow> row) cols [])"

definition fetchLocked ::
  "collection \<Rightarrow> u32 \<Rightarrow> ColID list option \<Rightarrow> Snapshot option \<Rightarrow> storage_error + PointRecord" where
  "fetchLocked c p proj snap =
    (case locate c p of
       None \<Rightarrow> Inl ErrPositionOutOfRange
     | Some (di, slotPos) \<Rightarrow>
         let seg = cl_segs c ! di in
         if sg_nextPos seg \<le> slotPos then Inl ErrPositionOutOfRange
         else if IsTombstoned seg slotPos then Inl ErrDeleted
         else if (case snap of Some sn \<Rightarrow> \<not> IsVisible sn (sg_version seg ! slotPos) 0 | None \<Rightarrow> False)
         then Inl ErrNotVisible
         else Inr \<lparr>pr_Pos = p,
                   pr_ID = (case BackwardMapLookup seg slotPos of Inr i \<Rightarrow> i | Inl _ \<Rightarrow> 0),
                   pr_Vec = (case seg_FetchVector seg slotPos of Inr v \<Rightarrow> v | Inl _ \<Rightarrow> replicate (unat (cl_dims c)) 0),
                   pr_Meta = projectMeta c (sg_seqNum seg) slotPos proj\<rparr>)"

definition Fetch ::
  "Engine \<Rightarrow> u64 \<Rightarrow> u32 \<Rightarrow> ColID list option \<Rightarrow> Snapshot option \<Rightarrow> storage_error + PointRecord" where
  "Fetch e collID p proj snap =
    (case en_colls e collID of None \<Rightarrow> Inl ErrUnknownCollection | Some c \<Rightarrow> fetchLocked c p proj snap)"

definition FetchBatch ::
  "Engine \<Rightarrow> u64 \<Rightarrow> u32 list \<Rightarrow> ColID list option \<Rightarrow> Snapshot option \<Rightarrow> storage_error + PointRecord list" where
  "FetchBatch e collID positions proj snap =
    (case en_colls e collID of
       None \<Rightarrow> Inl ErrUnknownCollection
     | Some c \<Rightarrow> Inr (List.map_filter (\<lambda>p. case fetchLocked c p proj snap of Inr r \<Rightarrow> Some r | Inl _ \<Rightarrow> None) positions))"

definition FetchVector :: "Engine \<Rightarrow> u64 \<Rightarrow> u32 \<Rightarrow> nat \<Rightarrow> storage_error + f32 list" where
  "FetchVector e collID p buflen =
    (case en_colls e collID of
       None \<Rightarrow> Inl ErrUnknownCollection
     | Some c \<Rightarrow>
         (case locate c p of
            None \<Rightarrow> Inl ErrPositionOutOfRange
          | Some (di, slotPos) \<Rightarrow>
              let seg = cl_segs c ! di in
              if IsTombstoned seg slotPos then Inl ErrDeleted
              else if (of_nat buflen :: u32) \<noteq> cl_dims c then Inl ErrDimensionMismatch
              else seg_FetchVector seg slotPos))"

text \<open>The callback of \<^verbatim>\<open>ScanVectors\<close> has a state of its own and says whether to go on.\<close>

fun scan_seg ::
  "collection \<Rightarrow> nat \<Rightarrow> segment \<Rightarrow> Snapshot option \<Rightarrow> ('s \<Rightarrow> u32 \<Rightarrow> f32 list \<Rightarrow> 's \<times> bool) \<Rightarrow> nat list \<Rightarrow> 's \<Rightarrow> 's \<times> bool" where
  "scan_seg c di seg snap cb [] st = (st, True)"
| "scan_seg c di seg snap cb (p # ps) st =
    (if \<not> visibleLive seg p snap then scan_seg c di seg snap cb ps st
     else let buf = (case seg_FetchVector seg p of Inr v \<Rightarrow> v | Inl _ \<Rightarrow> replicate (unat (cl_dims c)) 0);
              (st', more) = cb st (colPos c di p) buf
          in if more then scan_seg c di seg snap cb ps st' else (st', False))"

fun scan_segs ::
  "collection \<Rightarrow> nat \<Rightarrow> segment list \<Rightarrow> Snapshot option \<Rightarrow> ('s \<Rightarrow> u32 \<Rightarrow> f32 list \<Rightarrow> 's \<times> bool) \<Rightarrow> 's \<Rightarrow> 's" where
  "scan_segs c di [] snap cb st = st"
| "scan_segs c di (seg # segs) snap cb st =
    (case scan_seg c di seg snap cb [0..<sg_nextPos seg] st of
       (st', True) \<Rightarrow> scan_segs c (Suc di) segs snap cb st'
     | (st', False) \<Rightarrow> st')"

definition ScanVectors ::
  "Engine \<Rightarrow> u64 \<Rightarrow> Snapshot option \<Rightarrow> ('s \<Rightarrow> u32 \<Rightarrow> f32 list \<Rightarrow> 's \<times> bool) \<Rightarrow> 's \<Rightarrow> storage_error + 's" where
  "ScanVectors e collID snap cb st =
    (case en_colls e collID of
       None \<Rightarrow> Inl ErrUnknownCollection
     | Some c \<Rightarrow> Inr (scan_segs c 0 (cl_segs c) snap cb st))"

definition lookup_id :: "collection \<Rightarrow> PointID \<Rightarrow> storage_error + u32" where
  "lookup_id c pid =
    (case ForwardLookup (cl_idmap c) pid of
       Inl _ \<Rightarrow> Inl ErrNotFound
     | Inr (segSeq, slotPos) \<Rightarrow>
         (case segBySeq c segSeq of None \<Rightarrow> Inl ErrNotFound | Some di \<Rightarrow> Inr (colPos c di slotPos)))"

definition LookupID :: "Engine \<Rightarrow> u64 \<Rightarrow> PointID \<Rightarrow> storage_error + u32" where
  "LookupID e collID pid =
    (case en_colls e collID of None \<Rightarrow> Inl ErrUnknownCollection | Some c \<Rightarrow> lookup_id c pid)"

definition lookup_pos :: "collection \<Rightarrow> u32 \<Rightarrow> storage_error + PointID" where
  "lookup_pos c p =
    (case locate c p of
       None \<Rightarrow> Inl ErrPositionOutOfRange
     | Some (di, slotPos) \<Rightarrow>
         let seg = cl_segs c ! di in
         if sg_nextPos seg \<le> slotPos then Inl ErrPositionOutOfRange
         else if IsTombstoned seg slotPos then Inl ErrDeleted
         else BackwardMapLookup seg slotPos)"

definition LookupPos :: "Engine \<Rightarrow> u64 \<Rightarrow> u32 \<Rightarrow> storage_error + PointID" where
  "LookupPos e collID p =
    (case en_colls e collID of None \<Rightarrow> Inl ErrUnknownCollection | Some c \<Rightarrow> lookup_pos c p)"

section \<open>Filter\<close>

definition row_get :: "collection \<Rightarrow> u32 \<Rightarrow> nat \<Rightarrow> ColID \<Rightarrow> Value" where
  "row_get c segSeq slotPos cid =
    (case ms_ReadAt (cl_meta c) cid segSeq slotPos of Inr v \<Rightarrow> v | Inl _ \<Rightarrow> NullValue)"

definition filter_slot ::
  "collection \<Rightarrow> nat \<Rightarrow> segment \<Rightarrow> Predicate \<Rightarrow> Snapshot option \<Rightarrow> nat \<Rightarrow> PositionBitmap \<Rightarrow> PositionBitmap" where
  "filter_slot c di seg pred snap slotPos bm =
    (if \<not> visibleLive seg slotPos snap then bm
     else if eval (row_get c (sg_seqNum seg) slotPos) pred then bm_Set bm (colPos c di slotPos) else bm)"

definition filter_block ::
  "collection \<Rightarrow> nat \<Rightarrow> segment \<Rightarrow> Predicate \<Rightarrow> Snapshot option \<Rightarrow> nat \<Rightarrow> PositionBitmap \<Rightarrow> PositionBitmap" where
  "filter_block c di seg pred snap b bm =
    (if blockSkippable pred (zoneMapsFor (cl_meta c) (sg_seqNum seg)) b then bm
     else let lo = b * zoneBlockSize; hi = min (lo + zoneBlockSize) (sg_nextPos seg)
          in fold (filter_slot c di seg pred snap) [lo..<hi] bm)"

definition filter_seg ::
  "collection \<Rightarrow> Predicate \<Rightarrow> Snapshot option \<Rightarrow> nat \<times> segment \<Rightarrow> PositionBitmap \<Rightarrow> PositionBitmap" where
  "filter_seg c pred snap = (\<lambda>(di, seg) bm.
     fold (filter_block c di seg pred snap) [0..<(sg_nextPos seg + zoneBlockSize - 1) div zoneBlockSize] bm)"

definition filter_coll :: "collection \<Rightarrow> Predicate \<Rightarrow> Snapshot option \<Rightarrow> PositionBitmap" where
  "filter_coll c pred snap =
     fold (filter_seg c pred snap) (zip [0..<length (cl_segs c)] (cl_segs c))
       (NewPositionBitmap (of_nat (length (cl_segs c)) * of_nat (cl_capacity c)))"

definition MetadataFilter :: "Engine \<Rightarrow> u64 \<Rightarrow> Predicate \<Rightarrow> Snapshot option \<Rightarrow> storage_error + PositionBitmap" where
  "MetadataFilter e collID pred snap =
    (case en_colls e collID of None \<Rightarrow> Inl ErrUnknownCollection | Some c \<Rightarrow> Inr (filter_coll c pred snap))"

section \<open>Lifecycle and compaction\<close>

definition SealSegment :: "Engine \<Rightarrow> u64 \<Rightarrow> Engine \<times> storage_error option" where
  "SealSegment e collID =
    (case en_colls e collID of
       None \<Rightarrow> (e, Some ErrUnknownCollection)
     | Some c \<Rightarrow>
         (case cl_openIdx c of
            None \<Rightarrow> (e, None)
          | Some i \<Rightarrow> (put_coll e collID ((upd_seg i (\<lambda>s. s\<lparr>sg_sealed := True\<rparr>) c)\<lparr>cl_openIdx := None\<rparr>), None)))"

definition WarmCache :: "Engine \<Rightarrow> u64 \<Rightarrow> storage_error option" where
  "WarmCache e collID = (if en_colls e collID = None then Some ErrUnknownCollection else None)"

definition en_Close :: "Engine \<Rightarrow> Engine" where
  "en_Close e = e\<lparr>en_colls := Map.empty\<rparr>"

record liveRef =
  lr_oldPos :: u32
  lr_segSeq :: u32
  lr_slotPos :: nat
  lr_id :: PointID
  lr_version :: CommitSeq

definition gather_seg :: "collection \<Rightarrow> nat \<times> segment \<Rightarrow> liveRef list" where
  "gather_seg c = (\<lambda>(di, seg).
     List.map_filter (\<lambda>p. if IsTombstoned seg p then None
       else Some \<lparr>lr_oldPos = colPos c di p, lr_segSeq = sg_seqNum seg, lr_slotPos = p,
                  lr_id = (case BackwardMapLookup seg p of Inr i \<Rightarrow> i | Inl _ \<Rightarrow> 0),
                  lr_version = sg_version seg ! p\<rparr>) [0..<sg_nextPos seg])"

definition gather :: "collection \<Rightarrow> liveRef list" where
  "gather c = concat (map (gather_seg c) (zip [0..<length (cl_segs c)] (cl_segs c)))"

record compact_state =
  cs_segs :: "segment list"
  cs_meta :: metadataStore
  cs_seq :: u32
  cs_repoint :: "Repoint list"

text \<open>One iteration of the copy loop; the current segment is the last of the new ones.\<close>

definition copy_cols :: "collection \<Rightarrow> liveRef \<Rightarrow> u32 \<Rightarrow> nat \<Rightarrow> metadataStore \<Rightarrow> metadataStore" where
  "copy_cols c lr seqNum newSlot m =
     fold (\<lambda>cd m. fst (ms_WriteAt m (cd_ID cd) seqNum newSlot (cl_capacity c)
             (row_get c (lr_segSeq lr) (lr_slotPos lr) (cd_ID cd)))) (cl_columns c) m"

definition next_seg :: "collection \<Rightarrow> compact_state \<Rightarrow> compact_state" where
  "next_seg c st =
    (if cs_segs st = [] \<or> full (last (cs_segs st)) then
       let sealed = (if cs_segs st = [] then []
                     else butlast (cs_segs st) @ [(last (cs_segs st))\<lparr>sg_sealed := True\<rparr>])
       in st\<lparr>cs_segs := sealed @ [newSegment (cs_seq st) (cl_elem c) (cl_dims c) (cl_stride c) (cl_capacity c) (cl_codec c)],
             cs_seq := cs_seq st + 1\<rparr>
     else st)"

definition copy_live :: "(f32 \<Rightarrow> int) \<Rightarrow> collection \<Rightarrow> liveRef \<Rightarrow> compact_state \<times> f32 list \<Rightarrow> compact_state \<times> f32 list" where
  "copy_live conv c lr = (\<lambda>(st0, buf0).
    let st = next_seg c st0;
        curDir = length (cs_segs st) - 1;
        di = (case segBySeq c (lr_segSeq lr) of Some d \<Rightarrow> d | None \<Rightarrow> 0);
        buf = (case seg_FetchVector (cl_segs c ! di) (lr_slotPos lr) of Inr v \<Rightarrow> v | Inl _ \<Rightarrow> buf0);
        (cur, newSlot) = seg_append conv (last (cs_segs st)) (lr_id lr) buf (lr_version lr);
        newPos = of_nat curDir * of_nat (cl_capacity c) + of_nat newSlot
    in (st\<lparr>cs_segs := butlast (cs_segs st) @ [cur],
           cs_meta := copy_cols c lr (sg_seqNum cur) newSlot (cs_meta st),
           cs_repoint := cs_repoint st @ [\<lparr>rp_OldPos = lr_oldPos lr, rp_NewPos = newPos, rp_PointID = lr_id lr\<rparr>]\<rparr>, buf))"

definition compact_coll :: "(f32 \<Rightarrow> int) \<Rightarrow> collection \<Rightarrow> collection \<times> Repoint list" where
  "compact_coll conv c =
    (let st0 = \<lparr>cs_segs = [], cs_meta = newMetadataStore (cl_columns c), cs_seq = cl_nextSeq c, cs_repoint = []\<rparr>;
         (st, _) = fold (copy_live conv c) (gather c) (st0, replicate (unat (cl_dims c)) 0);
         newLoc = (\<lambda>p. (sg_seqNum (cs_segs st ! (unat p div cl_capacity c)), unat p mod cl_capacity c));
         im = applyRepoint (cl_idmap c) (cs_repoint st) newLoc
     in (rebuildDir (c\<lparr>cl_idmap := im, cl_segs := cs_segs st, cl_meta := cs_meta st, cl_nextSeq := cs_seq st\<rparr>),
         cs_repoint st))"

text \<open>None: blocked on the writer lock.\<close>

definition Compact :: "(f32 \<Rightarrow> int) \<Rightarrow> Engine \<Rightarrow> u64 \<Rightarrow> u32 \<Rightarrow> u32 \<Rightarrow> (Engine \<times> storage_error option) option" where
  "Compact conv e collID lo hi =
    (if en_writerLocked e then None
     else if collID \<in> en_compacting e then Some (e, Some ErrCompactionActive)
     else case en_colls e collID of
       None \<Rightarrow> Some (e, Some ErrUnknownCollection)
     | Some c \<Rightarrow>
         let (c', rp) = compact_coll conv c;
             e1 = put_coll e collID c'
         in Some (e1, case en_repointHook e of None \<Rightarrow> None | Some h \<Rightarrow> h collID rp))"

definition defaultTombstoneRatio :: f64 where "defaultTombstoneRatio = of_nat (ieee_quot 52 11 1 5)"

definition ShouldCompact :: "Engine \<Rightarrow> u64 \<Rightarrow> bool" where
  "ShouldCompact e collID =
    (case en_colls e collID of
       None \<Rightarrow> False
     | Some c \<Rightarrow>
         let (live, dead) = liveTotal c in
         if live + dead = 0 then False
         else let r = f64_div (f64_of_int (int dead)) (f64_of_int (int (live + dead)))
              in f64_lt defaultTombstoneRatio r \<or> f64_eq defaultTombstoneRatio r)"

end
