(* ===== verification/Storage_Stats.thy ===== *)
theory Storage_Stats
  imports Storage_Engine
begin

text \<open>
  Statistics for the planner, from \<^verbatim>\<open>src/storage/engine.go\<close>: collection counters, per-column null
  fraction, distinct count, bounds and the equi-depth histogram.
\<close>

section \<open>Histograms\<close>

text \<open>\<^verbatim>\<open>sort.Float64s\<close> sorts NaN before every other value.\<close>

definition f64_rank :: "f64 \<Rightarrow> int" where
  "f64_rank x = (if f64_nan x then - (2 ^ 64) else order_key 52 11 (unat x))"

definition Float64s :: "f64 list \<Rightarrow> f64 list" where
  "Float64s nums = sort_key f64_rank nums"

function hist_buckets :: "nat \<Rightarrow> f64 list \<Rightarrow> HistogramBucket list" where
  "hist_buckets per nums =
    (if nums = [] \<or> per = 0 then []
     else let b = take per nums
          in \<lparr>hb_Lo = hd b, hb_Hi = last b, hb_Count = length b\<rparr> # hist_buckets per (drop per nums))"
  by pat_completeness auto
termination by (relation "measure (\<lambda>(per, nums). length nums)") auto

declare hist_buckets.simps [simp del]

definition buildHistogram :: "f64 list \<Rightarrow> nat \<Rightarrow> HistogramBucket list" where
  "buildHistogram nums buckets =
    (if nums = [] \<or> buckets = 0 then []
     else let sorted = Float64s nums;
              bk = (if length sorted < buckets then length sorted else buckets);
              per = length sorted div bk;
              per = (if per = 0 then 1 else per)
          in hist_buckets per sorted)"

section \<open>Column statistics\<close>

text \<open>The key strings of distinct counting: a tag and the text, bytes, truth value or the shortest
  decimal form of the number, which determines a number that is not NaN.\<close>

datatype distinct_key = KeyText bytes | KeyBytes bytes | KeyBool bool | KeyNum f64 | KeyNaN

fun distinctKey :: "Value \<Rightarrow> distinct_key" where
  "distinctKey (TextV s) = KeyText s"
| "distinctKey (BytesV b) = KeyBytes b"
| "distinctKey (BoolV b) = KeyBool b"
| "distinctKey v = (case asFloat v of
     None \<Rightarrow> KeyNum 0
   | Some f \<Rightarrow> if f64_nan f then KeyNaN else KeyNum f)"

record stats_acc =
  sa_total :: nat
  sa_nulls :: nat
  sa_keys :: "distinct_key list"
  sa_minmax :: "(Value \<times> Value) option"
  sa_nums :: "f64 list"

definition stats_value :: "Value \<Rightarrow> stats_acc \<Rightarrow> stats_acc" where
  "stats_value v a0 =
    (let a = a0\<lparr>sa_total := sa_total a0 + 1\<rparr> in
     if IsNull v then a\<lparr>sa_nulls := sa_nulls a + 1\<rparr>
     else a\<lparr>sa_keys := List.insert (distinctKey v) (sa_keys a),
            sa_minmax := Some (case sa_minmax a of
                None \<Rightarrow> (v, v)
              | Some (mn, mx) \<Rightarrow> (if less v mn then v else mn, if less mx v then v else mx)),
            sa_nums := sa_nums a @ (case asFloat v of Some f \<Rightarrow> [f] | None \<Rightarrow> [])\<rparr>)"

definition stats_seg :: "collection \<Rightarrow> ColID \<Rightarrow> segment \<Rightarrow> stats_acc \<Rightarrow> stats_acc" where
  "stats_seg c colID seg a =
     fold (\<lambda>p a. if IsTombstoned seg p then a else stats_value (row_get c (sg_seqNum seg) p colID) a)
       [0..<sg_nextPos seg] a"

definition computeColumnStats :: "collection \<Rightarrow> ColID \<Rightarrow> ColumnStats" where
  "computeColumnStats c colID =
    (let a = fold (stats_seg c colID) (cl_segs c)
           \<lparr>sa_total = 0, sa_nulls = 0, sa_keys = [], sa_minmax = None, sa_nums = []\<rparr>;
         (mn, mx) = (case sa_minmax a of None \<Rightarrow> (NullValue, NullValue) | Some mm \<Rightarrow> mm)
     in \<lparr>st_ColID = colID,
         st_NullFraction = (if 0 < sa_total a
            then f64_div (f64_of_int (int (sa_nulls a))) (f64_of_int (int (sa_total a))) else 0),
         st_DistinctCount = length (sa_keys a), st_Min = mn, st_Max = mx,
         st_Histogram = buildHistogram (sa_nums a) 100\<rparr>)"

definition en_ColumnStats :: "Engine \<Rightarrow> u64 \<Rightarrow> ColID \<Rightarrow> storage_error + ColumnStats" where
  "en_ColumnStats e collID colID =
    (case en_colls e collID of
       None \<Rightarrow> Inl ErrUnknownCollection
     | Some c \<Rightarrow>
         (case cl_colStats c colID of
            Some cs \<Rightarrow> Inr cs
          | None \<Rightarrow> if \<not> ms_has (cl_meta c) colID then Inl ErrUnknownColumn else Inr (computeColumnStats c colID)))"

definition Analyze :: "Engine \<Rightarrow> u64 \<Rightarrow> Engine \<times> storage_error option" where
  "Analyze e collID =
    (case en_colls e collID of
       None \<Rightarrow> (e, Some ErrUnknownCollection)
     | Some c \<Rightarrow>
         let st = fold (\<lambda>cd m. m(cd_ID cd \<mapsto> computeColumnStats c (cd_ID cd))) (cl_columns c) Map.empty
         in (put_coll e collID (c\<lparr>cl_colStats := st, cl_writes := 0\<rparr>), None))"

section \<open>Collection statistics\<close>

record CollectionStats =
  cs_TotalPoints :: nat
  cs_LivePoints :: nat
  cs_TombstoneCount :: nat
  cs_SegmentCount :: nat
  cs_Dims :: u32
  cs_Stride :: u32
  cs_StalenessScore :: f64
  cs_WritesSinceAnalyze :: u64

definition en_CollectionStats :: "Engine \<Rightarrow> u64 \<Rightarrow> storage_error + CollectionStats" where
  "en_CollectionStats e collID =
    (case en_colls e collID of
       None \<Rightarrow> Inl ErrUnknownCollection
     | Some c \<Rightarrow>
         let (live, dead) = liveTotal c;
             st = (if 0 < cl_writes c
                   then let r = f64_div (f64_of_int (uint (cl_writes c))) (f64_of_int 10000)
                        in if f64_lt f64_one r then f64_one else r
                   else 0)
         in Inr \<lparr>cs_TotalPoints = live + dead, cs_LivePoints = live, cs_TombstoneCount = dead,
                 cs_SegmentCount = length (cl_segs c), cs_Dims = cl_dims c, cs_Stride = cl_stride c,
                 cs_StalenessScore = st, cs_WritesSinceAnalyze = cl_writes c\<rparr>)"

definition VectorSegments :: "Engine \<Rightarrow> u64 \<Rightarrow> storage_error + segment list" where
  "VectorSegments e collID =
    (case en_colls e collID of None \<Rightarrow> Inl ErrUnknownCollection | Some c \<Rightarrow> Inr (cl_segs c))"

definition en_IdMapStats :: "Engine \<Rightarrow> u64 \<Rightarrow> storage_error + (nat \<times> nat)" where
  "en_IdMapStats e collID =
    (case en_colls e collID of None \<Rightarrow> Inl ErrUnknownCollection | Some c \<Rightarrow> Inr (id_stats (cl_idmap c)))"

section \<open>Properties\<close>

lemma hist_counts:
  "0 < per \<Longrightarrow> sum_list (map hb_Count (hist_buckets per nums)) = length nums"
  by (induction per nums rule: hist_buckets.induct) (subst hist_buckets.simps, auto simp: Let_def)

lemma hist_bounds:
  "0 < per \<Longrightarrow> sorted (map f64_rank nums) \<Longrightarrow> b \<in> set (hist_buckets per nums) \<Longrightarrow>
   f64_rank (hb_Lo b) \<le> f64_rank (hb_Hi b) \<and> hb_Lo b \<in> set nums \<and> hb_Hi b \<in> set nums \<and> hb_Count b \<le> per"
proof (induction per nums rule: hist_buckets.induct)
  case (1 per nums)
  show ?case
  proof (cases "nums = []")
    case True
    then show ?thesis using "1.prems"(3) by (simp add: hist_buckets.simps)
  next
    case False
    let ?b = "take per nums"
    have ne: "?b \<noteq> []" using False "1.prems"(1) by simp
    have sub: "set ?b \<subseteq> set nums" "set (drop per nums) \<subseteq> set nums" by (auto dest: in_set_takeD in_set_dropD)
    have srt: "sorted (map f64_rank ?b)" "sorted (map f64_rank (drop per nums))"
      using "1.prems"(2) by (simp_all flip: take_map drop_map add: sorted_wrt_take sorted_wrt_drop)
    have "f64_rank (hd ?b) \<le> f64_rank (last ?b)"
      using srt(1) ne by (cases ?b) (auto simp: last_ConsR)
    moreover have "b = \<lparr>hb_Lo = hd ?b, hb_Hi = last ?b, hb_Count = length ?b\<rparr> \<or> b \<in> set (hist_buckets per (drop per nums))"
      using "1.prems"(1,3) False by (subst (asm) hist_buckets.simps) (auto simp: Let_def)
    ultimately show ?thesis
      using "1.IH" [OF _ refl] False "1.prems"(1) srt(2) sub hd_in_set [OF ne] last_in_set [OF ne] by auto
  qed
qed

lemma set_Float64s [simp]: "set (Float64s nums) = set nums" "length (Float64s nums) = length nums"
  by (simp_all add: Float64s_def)



end
