(* ===== verification/Storage_Inv.thy ===== *)
theory Storage_Inv
  imports Storage_Engine
begin

text \<open>
  Invariants of segments and collections: the id map and the backward arrays of the segments
  are inverse to each other on the live slots, the directory finds every segment by its
  sequence number, and the live and dead counters count.  Every write keeps them, on its
  error paths too.
\<close>

section \<open>Codecs\<close>

lemma length_concat_const: "(\<And>x. length (f x) = n) \<Longrightarrow> length (concat (map f xs)) = n * length xs"
  by (induction xs) auto

lemma length_set_bits [simp]: "length (set_bits xs i dst) = length dst"
  by (induction xs i dst rule: set_bits.induct) auto

fun codec_dims :: "vecCodec \<Rightarrow> nat" where
  "codec_dims (fp32Codec n) = n"
| "codec_dims (fp16Codec n) = n"
| "codec_dims (int8Codec n s) = n"
| "codec_dims (binaryCodec n) = n"

lemma length_encode: "codec_dims cd \<le> length vec \<Longrightarrow> length (encode conv cd vec) = rawBytes cd"
  by (cases cd) (simp_all add: length_concat_const [where n = 4] length_concat_const [where n = 2] mult.commute min_def)

lemma length_decode [simp]: "length (decode cd src) = codec_dims cd"
  by (cases cd) simp_all

lemma get_at_concat:
  assumes "\<And>x. length (f x) = n" and "i < length xs"
  shows "get_at (i * n) n (concat (map f xs)) = f (xs ! i)"
  using assms(2)
proof (induction xs arbitrary: i)
  case (Cons x xs)
  then show ?case using assms(1) by (cases i) (auto simp: get_at_def)
qed simp

lemma fp32_lossless: "n \<le> length vec \<Longrightarrow> decode (fp32Codec n) (encode conv (fp32Codec n) vec) = take n vec"
  by (rule nth_equalityI)
    (simp_all add: get_at_concat [where f = "le_put 4 :: u32 \<Rightarrow> bytes" and n = 4] codec_simps)

section \<open>Segments\<close>

definition seg_ok :: "segment \<Rightarrow> bool" where
  "seg_ok s \<longleftrightarrow>
     length (sg_data s) = sg_capacity s * unat (sg_stride s) \<and> rawBytes (sg_codec s) \<le> unat (sg_stride s) \<and>
     length (sg_version s) = sg_capacity s \<and> length (sg_backward s) = sg_capacity s \<and>
     length (sg_tomb s) = (sg_capacity s + 63) div 64 \<and> sg_nextPos s \<le> sg_capacity s \<and>
     (\<forall>p. sg_nextPos s \<le> p \<longrightarrow> p < sg_capacity s \<longrightarrow> \<not> bit_at (sg_tomb s) p) \<and>
     sg_liveCount s = card {p. p < sg_nextPos s \<and> \<not> bit_at (sg_tomb s) p} \<and>
     sg_deadCount s = card {p. p < sg_nextPos s \<and> bit_at (sg_tomb s) p}"

definition live_slot :: "segment \<Rightarrow> nat \<Rightarrow> bool" where
  "live_slot s p \<longleftrightarrow> p < sg_nextPos s \<and> \<not> IsTombstoned s p"

lemma tomb_bit_and: "(w :: u64) AND tomb_bit p = 0 \<longleftrightarrow> \<not> bit w (p mod 64)"
  by (simp add: tomb_bit_def and_exp_eq_0_iff_not_bit)

lemma tomb_range: "seg_ok s \<Longrightarrow> p < sg_capacity s \<Longrightarrow> p div 64 < length (sg_tomb s)"
  using in_range [of "sg_tomb s" "sg_capacity s" p] by (simp add: seg_ok_def)

lemma IsTombstoned_iff: "seg_ok s \<Longrightarrow> IsTombstoned s p \<longleftrightarrow> sg_capacity s \<le> p \<or> bit_at (sg_tomb s) p"
  using tomb_range [of s p] by (auto simp: IsTombstoned_def tomb_bit_and bit_at_def)

lemma live_slot_iff: "seg_ok s \<Longrightarrow> live_slot s p \<longleftrightarrow> p < sg_nextPos s \<and> \<not> bit_at (sg_tomb s) p"
  by (auto simp: live_slot_def IsTombstoned_iff) (auto simp: seg_ok_def)

lemma bit_at_or:
  assumes "p div 64 < length ws"
  shows "bit_at (ws[p div 64 := (ws ! (p div 64)) OR tomb_bit p]) q \<longleftrightarrow> q = p \<or> bit_at ws q"
  using assms div_mod_eq [of q p] by (auto simp: bit_at_def nth_list_update bit_simps tomb_bit_def)

lemma bit_at_clear:
  assumes "p div 64 < length ws"
  shows "bit_at (ws[p div 64 := (ws ! (p div 64)) AND NOT (tomb_bit p)]) q \<longleftrightarrow> q \<noteq> p \<and> bit_at ws q"
  using assms div_mod_eq [of q p] by (auto simp: bit_at_def nth_list_update bit_simps tomb_bit_def)

lemma card_insert_slot: "finite A \<Longrightarrow> p \<notin> A \<Longrightarrow> B = insert p A \<Longrightarrow> card B = card A + 1"
  by simp

lemma newSegment_ok:
  "rawBytes codec \<le> unat stride \<Longrightarrow> seg_ok (newSegment seqNum elem dims stride capacity codec)"
  by (simp add: seg_ok_def newSegment_def bit_at_def)

lemma newSegment_live [simp]: "\<not> live_slot (newSegment seqNum elem dims stride capacity codec) p"
  by (simp add: live_slot_def newSegment_def)

lemma append_ok:
  assumes ok: "seg_ok s" and room: "\<not> full s" and vec: "codec_dims (sg_codec s) \<le> length vec"
    and s': "seg_append conv s pid vec ver = (s', pos)"
  shows "seg_ok s'" and "pos = sg_nextPos s" and "live_slot s' p \<longleftrightarrow> p = pos \<or> live_slot s p"
    and "sg_backward s' = (sg_backward s)[pos := pid]" and "sg_version s' = (sg_version s)[pos := ver]"
    and "seg_FetchVector s' pos = Inr (decode (sg_codec s) (encode conv (sg_codec s) vec))"
    and "p < pos \<Longrightarrow> seg_FetchVector s' p = seg_FetchVector s p"
    and "sg_seqNum s' = sg_seqNum s" and "sg_capacity s' = sg_capacity s" and "sg_codec s' = sg_codec s"
    and "sg_stride s' = sg_stride s" and "sg_sealed s' = sg_sealed s" and "sg_nextPos s' = pos + 1"
    and "pos < sg_capacity s" and "sg_tomb s' = sg_tomb s"
proof -
  let ?st = "unat (sg_stride s)"
  have pos: "pos = sg_nextPos s" using s' by (simp add: seg_append_def Let_def)
  have s'_def: "s' = s\<lparr>sg_data := put_at (pos * ?st) (encode conv (sg_codec s) vec) (sg_data s),
           sg_backward := (sg_backward s)[pos := pid], sg_version := (sg_version s)[pos := ver],
           sg_nextPos := pos + 1, sg_liveCount := sg_liveCount s + 1\<rparr>"
    using s' by (auto simp: seg_append_def Let_def)
  show "pos < sg_capacity s" using room pos by (simp add: full_def)
  then have lt: "pos < sg_capacity s" .
  have len: "length (encode conv (sg_codec s) vec) = rawBytes (sg_codec s)" by (rule length_encode [OF vec])
  have raw: "rawBytes (sg_codec s) \<le> ?st" "length (sg_data s) = sg_capacity s * ?st"
    using ok by (simp_all add: seg_ok_def)
  have "Suc pos * ?st \<le> sg_capacity s * ?st" using lt by (intro mult_le_mono1) simp
  then have fits: "pos * ?st + rawBytes (sg_codec s) \<le> length (sg_data s)" using raw by simp
  have clr: "\<not> bit_at (sg_tomb s) pos" using ok lt pos by (simp add: seg_ok_def)
  have "{p. p < pos + 1 \<and> \<not> bit_at (sg_tomb s) p} = insert pos {p. p < pos \<and> \<not> bit_at (sg_tomb s) p}"
    using clr by (auto simp: less_Suc_eq)
  moreover have "{p. p < pos + 1 \<and> bit_at (sg_tomb s) p} = {p. p < pos \<and> bit_at (sg_tomb s) p}"
    using clr by (auto simp: less_Suc_eq)
  ultimately show ok': "seg_ok s'"
    using ok lt pos by (simp add: seg_ok_def s'_def)
  show "live_slot s' p \<longleftrightarrow> p = pos \<or> live_slot s p"
    using clr pos by (auto simp: live_slot_iff [OF ok'] live_slot_iff [OF ok]) (auto simp: s'_def)
  show "seg_FetchVector s' pos = Inr (decode (sg_codec s) (encode conv (sg_codec s) vec))"
    using fits len by (simp add: seg_FetchVector_def s'_def get_put_same)
  show "p < pos \<Longrightarrow> seg_FetchVector s' p = seg_FetchVector s p"
  proof -
    assume p: "p < pos"
    have "Suc p * ?st \<le> pos * ?st" using p by (intro mult_le_mono1) simp
    then have "p * ?st + rawBytes (sg_codec s) \<le> pos * ?st" using raw(1) by simp
    then show ?thesis using p pos by (simp add: seg_FetchVector_def s'_def get_put_before)
  qed
qed (use s' in \<open>auto simp: seg_append_def Let_def\<close>)

lemma tombstone_ok:
  assumes ok: "seg_ok s" and p: "live_slot s p"
  shows "seg_ok (seg_tombstone s p)" and "live_slot (seg_tombstone s p) q \<longleftrightarrow> q \<noteq> p \<and> live_slot s q"
    and "sg_seqNum (seg_tombstone s p) = sg_seqNum s" and "sg_capacity (seg_tombstone s p) = sg_capacity s"
    and "sg_codec (seg_tombstone s p) = sg_codec s" and "sg_stride (seg_tombstone s p) = sg_stride s"
    and "sg_backward (seg_tombstone s p) = sg_backward s" and "sg_nextPos (seg_tombstone s p) = sg_nextPos s"
    and "sg_version (seg_tombstone s p) = sg_version s" and "sg_data (seg_tombstone s p) = sg_data s"
    and "bit_at (sg_tomb (seg_tombstone s p)) q \<longleftrightarrow> q = p \<or> bit_at (sg_tomb s) q"
proof -
  have lp: "p < sg_nextPos s" "\<not> bit_at (sg_tomb s) p" using p by (simp_all add: live_slot_iff [OF ok])
  then have lt: "p < sg_capacity s" using ok by (simp add: seg_ok_def)
  let ?s = "seg_tombstone s p"
  have nt: "\<not> IsTombstoned s p" using lp lt by (simp add: IsTombstoned_iff [OF ok])
  have tb: "bit_at (sg_tomb ?s) q \<longleftrightarrow> q = p \<or> bit_at (sg_tomb s) q" for q
    using nt lt bit_at_or [OF tomb_range [OF ok lt]] by (simp add: seg_tombstone_def)
  then show "bit_at (sg_tomb ?s) q \<longleftrightarrow> q = p \<or> bit_at (sg_tomb s) q" .
  have "{q. q < sg_nextPos s \<and> \<not> bit_at (sg_tomb s) q}
      = insert p {q. q < sg_nextPos s \<and> \<not> bit_at (sg_tomb ?s) q}" using lp tb by auto
  then have c1: "card {q. q < sg_nextPos s \<and> \<not> bit_at (sg_tomb s) q}
      = card {q. q < sg_nextPos s \<and> \<not> bit_at (sg_tomb ?s) q} + 1"
    by (rule card_insert_slot [rotated 2]) (use tb in auto)
  have "{q. q < sg_nextPos s \<and> bit_at (sg_tomb ?s) q} = insert p {q. q < sg_nextPos s \<and> bit_at (sg_tomb s) q}"
    using lp tb by auto
  then have c2: "card {q. q < sg_nextPos s \<and> bit_at (sg_tomb ?s) q}
      = card {q. q < sg_nextPos s \<and> bit_at (sg_tomb s) q} + 1"
    by (rule card_insert_slot [rotated 2]) (use lp in auto)
  show sel: "sg_seqNum ?s = sg_seqNum s" "sg_capacity ?s = sg_capacity s" "sg_codec ?s = sg_codec s"
    "sg_stride ?s = sg_stride s" "sg_backward ?s = sg_backward s" "sg_nextPos ?s = sg_nextPos s"
    "sg_version ?s = sg_version s" "sg_data ?s = sg_data s"
    by (simp_all add: seg_tombstone_def)
  have cnt: "sg_liveCount ?s = sg_liveCount s - 1" "sg_deadCount ?s = sg_deadCount s + 1"
    "length (sg_tomb ?s) = length (sg_tomb s)"
    using nt lt c1 ok by (auto simp: seg_tombstone_def seg_ok_def)
  show ok': "seg_ok ?s"
    using ok lp(1) c1 c2 by (auto simp: seg_ok_def sel cnt tb)
  show "live_slot ?s q \<longleftrightarrow> q \<noteq> p \<and> live_slot s q"
    by (auto simp: live_slot_iff [OF ok'] live_slot_iff [OF ok] tb sel)
qed

text \<open>Taking back the last slot of a segment.\<close>

lemma unappend_ok:
  assumes ok: "seg_ok s" and n: "sg_nextPos s = p + 1" and p: "live_slot s p"
  shows "seg_ok (unappend s)" and "live_slot (unappend s) q \<longleftrightarrow> q \<noteq> p \<and> live_slot s q" and "0 < sg_liveCount s"
proof -
  have lp: "\<not> bit_at (sg_tomb s) p" using p by (simp add: live_slot_iff [OF ok])
  have "{q. q < p + 1 \<and> \<not> bit_at (sg_tomb s) q} = insert p {q. q < p \<and> \<not> bit_at (sg_tomb s) q}"
    using lp by (auto simp: less_Suc_eq)
  then have c1: "sg_liveCount s = card {q. q < p \<and> \<not> bit_at (sg_tomb s) q} + 1"
    using ok n by (simp add: seg_ok_def)
  have c2: "{q. q < p + 1 \<and> bit_at (sg_tomb s) q} = {q. q < p \<and> bit_at (sg_tomb s) q}"
    using lp by (auto simp: less_Suc_eq)
  show "0 < sg_liveCount s" using c1 by simp
  have clr: "\<not> bit_at (sg_tomb s) q" if "p \<le> q" "q < sg_capacity s" for q
    using that lp ok n by (cases "q = p") (auto simp: seg_ok_def)
  show ok': "seg_ok (unappend s)"
    using ok n c1 c2 clr by (auto simp: seg_ok_def unappend_def)
  show "live_slot (unappend s) q \<longleftrightarrow> q \<noteq> p \<and> live_slot s q"
    using n by (auto simp: live_slot_iff [OF ok'] live_slot_iff [OF ok]) (auto simp: unappend_def)
qed

section \<open>Collections\<close>

definition seg_in :: "collection \<Rightarrow> segment \<Rightarrow> bool" where
  "seg_in c s \<longleftrightarrow> seg_ok s \<and> sg_capacity s = cl_capacity c \<and> sg_codec s = cl_codec c \<and>
     sg_stride s = cl_stride c \<and> sg_seqNum s < cl_nextSeq c"

text \<open>Where a point is: the slots whose backward entry names it.\<close>

definition placed :: "segment list \<Rightarrow> PointID \<Rightarrow> u32 \<Rightarrow> nat \<Rightarrow> bool" where
  "placed segs pid q p \<longleftrightarrow>
     (\<exists>di < length segs. sg_seqNum (segs ! di) = q \<and> live_slot (segs ! di) p \<and> sg_backward (segs ! di) ! p = pid)"

definition coll_ok :: "collection \<Rightarrow> bool" where
  "coll_ok c \<longleftrightarrow> 0 < cl_capacity c \<and> cl_capacity c < 2 ^ 32 \<and>
     rawBytes (cl_codec c) \<le> unat (cl_stride c) \<and> codec_dims (cl_codec c) = unat (cl_dims c) \<and>
     (\<forall>s \<in> set (cl_segs c). seg_in c s) \<and>
     (\<forall>q di. cl_dirOf c q = Some di \<longleftrightarrow> di < length (cl_segs c) \<and> sg_seqNum (cl_segs c ! di) = q) \<and>
     (\<forall>i. cl_openIdx c = Some i \<longrightarrow> i < length (cl_segs c)) \<and>
     (\<forall>pid q p. id_fwd (cl_idmap c) pid = Some (q, p) \<longleftrightarrow> placed (cl_segs c) pid q p)"

lemma coll_okD:
  assumes "coll_ok c"
  shows "0 < cl_capacity c" and "rawBytes (cl_codec c) \<le> unat (cl_stride c)"
    and "codec_dims (cl_codec c) = unat (cl_dims c)"
    and "di < length (cl_segs c) \<Longrightarrow> seg_in c (cl_segs c ! di)"
    and "cl_dirOf c q = Some di \<longleftrightarrow> di < length (cl_segs c) \<and> sg_seqNum (cl_segs c ! di) = q"
    and "cl_openIdx c = Some i \<Longrightarrow> i < length (cl_segs c)"
    and "id_fwd (cl_idmap c) pid = Some (q, p) \<longleftrightarrow> placed (cl_segs c) pid q p"
  using assms by (auto simp: coll_ok_def)

lemma seq_unique:
  assumes "coll_ok c" and "i < length (cl_segs c)" and "j < length (cl_segs c)"
    and "sg_seqNum (cl_segs c ! i) = sg_seqNum (cl_segs c ! j)"
  shows "i = j"
  using assms coll_okD(5) [OF assms(1)] by (metis option.inject)

lemma placed_seg:
  assumes ok: "coll_ok c" and di: "di < length (cl_segs c)"
  shows "placed (cl_segs c) pid (sg_seqNum (cl_segs c ! di)) p \<longleftrightarrow>
    live_slot (cl_segs c ! di) p \<and> sg_backward (cl_segs c ! di) ! p = pid"
  using di seq_unique [OF ok] by (auto simp: placed_def)

text \<open>Replacing one segment and the id map together.\<close>

lemma coll_ok_upd:
  assumes ok: "coll_ok c" and di: "di < length (cl_segs c)" and s: "seg_in c s"
    and seq: "sg_seqNum s = sg_seqNum (cl_segs c ! di)"
    and fwd: "\<And>pid q p. id_fwd im pid = Some (q, p) \<longleftrightarrow>
      (if q = sg_seqNum s then live_slot s p \<and> sg_backward s ! p = pid else id_fwd (cl_idmap c) pid = Some (q, p))"
    and c': "cl_segs c' = (cl_segs c)[di := s]" "cl_idmap c' = im" "cl_dirOf c' = cl_dirOf c"
      "cl_openIdx c' = cl_openIdx c" "cl_capacity c' = cl_capacity c" "cl_codec c' = cl_codec c"
      "cl_stride c' = cl_stride c" "cl_dims c' = cl_dims c" "cl_nextSeq c' = cl_nextSeq c"
  shows "coll_ok c'"
proof -
  have nth: "cl_segs c' ! j = (if j = di then s else cl_segs c ! j)" for j
    using di c'(1) by (simp add: nth_list_update)
  have len: "length (cl_segs c') = length (cl_segs c)" using c'(1) by simp
  have "seg_in c' x" if "x \<in> set (cl_segs c')" for x
  proof -
    have "x = s \<or> x \<in> set (cl_segs c)" using that c'(1) set_update_subset_insert by fastforce
    then have "seg_in c x" using s ok by (auto simp: coll_ok_def)
    then show ?thesis using c' by (simp add: seg_in_def)
  qed
  moreover have "placed (cl_segs c') pid q p \<longleftrightarrow>
      (if q = sg_seqNum s then live_slot s p \<and> sg_backward s ! p = pid else placed (cl_segs c) pid q p)" for pid q p
  proof (cases "q = sg_seqNum s")
    case True
    then show ?thesis
      using di seq seq_unique [OF ok _ di] unfolding placed_def len nth by (auto split: if_splits)
  next
    case False
    then show ?thesis using seq unfolding placed_def len nth by (auto split: if_splits)
  qed
  moreover have "sg_seqNum (cl_segs c' ! j) = sg_seqNum (cl_segs c ! j)" for j using nth seq by simp
  ultimately show ?thesis
    using ok fwd c'(2-9) by (simp add: coll_ok_def len)
qed

end
