(* ===== verification/Storage_Ops.thy ===== *)
theory Storage_Ops
  imports Storage_Inv
begin

text \<open>
  The write operations on a collection: each keeps the invariant and touches only the point it
  names, on success and on every error path.
\<close>

section \<open>Metadata cells\<close>

lemma read_col_writeAt: "col_readAt (col_writeAt cs p v) q = (if q = p then v else col_readAt cs q)"
  by (auto simp: col_readAt_def col_writeAt_def nth_append nth_list_update)

lemma read_empty [simp]: "cg_vals cs = [] \<Longrightarrow> col_readAt cs p = NullValue"
  by (simp add: col_readAt_def)

lemma map_of_write_cols:
  assumes "write_cols q p cap row m = (m', err)"
  shows "map_of m' k = map_of m k \<or>
      map_of m' k = map_option (\<lambda>col. write_cell col q p cap (cell_of row k)) (map_of m k)"
    and "err = None \<Longrightarrow> map_of m' k = map_option (\<lambda>col. write_cell col q p cap (cell_of row k)) (map_of m k)"
  using assms
  by (induction m arbitrary: m') (auto simp: Let_def split: if_splits prod.splits)

definition read_cell :: "column option \<Rightarrow> u32 \<Rightarrow> nat \<Rightarrow> Value option" where
  "read_cell col q p = map_option (\<lambda>c. case co_segs c q of None \<Rightarrow> NullValue | Some cs \<Rightarrow> col_readAt cs p) col"

lemma row_get_read_cell:
  "row_get c q p k = (case read_cell (map_of (cl_meta c) k) q p of None \<Rightarrow> NullValue | Some v \<Rightarrow> v)"
  by (auto simp: row_get_def ms_ReadAt_def read_cell_def split: option.split)

lemma row_get_cong: "cl_meta c' = cl_meta c \<Longrightarrow> row_get c' = row_get c"
  by (intro ext) (simp add: row_get_def)

lemma read_write_cell:
  "read_cell (map_option (\<lambda>col. write_cell col q p cap (v col)) co) q' p' =
   (if q' = q \<and> p' = p then map_option v co else read_cell co q' p')"
  by (cases co) (auto simp: read_cell_def write_cell_def read_col_writeAt col_segment_def split: option.split)

lemma writeRow_reads:
  assumes "writeRow m q p cap row = (m', err)"
  shows "(q', p') \<noteq> (q, p) \<Longrightarrow> read_cell (map_of m' k) q' p' = read_cell (map_of m k) q' p'"
    and "err = None \<Longrightarrow> read_cell (map_of m' k) q p = map_option (\<lambda>_. cell_of row k) (map_of m k)"
    and "map_of m' k = None \<longleftrightarrow> map_of m k = None"
proof -
  obtain err' where w: "write_cols q p cap row m = (m', err')" "err = None \<Longrightarrow> err' = None"
    using assms by (auto simp: writeRow_def split: prod.splits option.splits if_splits)
  note r = map_of_write_cols [OF w(1), of k]
  show "(q', p') \<noteq> (q, p) \<Longrightarrow> read_cell (map_of m' k) q' p' = read_cell (map_of m k) q' p'"
    using r(1) read_write_cell [of q p cap "\<lambda>_. cell_of row k" "map_of m k" q' p'] by auto
  show "err = None \<Longrightarrow> read_cell (map_of m' k) q p = map_option (\<lambda>_. cell_of row k) (map_of m k)"
    using r(2) w(2) read_write_cell [of q p cap "\<lambda>_. cell_of row k" "map_of m k" q p] by auto
  show "map_of m' k = None \<longleftrightarrow> map_of m k = None" using r(1) by auto
qed

section \<open>What a collection stores\<close>

text \<open>The vector, the version and the metadata of a point.\<close>

definition stored :: "collection \<Rightarrow> PointID \<Rightarrow> ((storage_error + f32 list) \<times> CommitSeq \<times> (ColID \<Rightarrow> Value)) option" where
  "stored c pid =
    (case id_fwd (cl_idmap c) pid of
       None \<Rightarrow> None
     | Some (q, p) \<Rightarrow>
         (case cl_dirOf c q of
            None \<Rightarrow> None
          | Some di \<Rightarrow> Some (seg_FetchVector (cl_segs c ! di) p, sg_version (cl_segs c ! di) ! p, row_get c q p)))"

lemma stored_at:
  assumes "coll_ok c" and "di < length (cl_segs c)" and "id_fwd (cl_idmap c) pid = Some (sg_seqNum (cl_segs c ! di), p)"
  shows "stored c pid = Some (seg_FetchVector (cl_segs c ! di) p, sg_version (cl_segs c ! di) ! p,
    row_get c (sg_seqNum (cl_segs c ! di)) p)"
  using assms coll_okD(5) [OF assms(1), of "sg_seqNum (cl_segs c ! di)" di] by (simp add: stored_def)

lemma fwd_place:
  assumes "coll_ok c" and "id_fwd (cl_idmap c) pid = Some (q, p)"
  obtains di where "di < length (cl_segs c)" and "q = sg_seqNum (cl_segs c ! di)" and "live_slot (cl_segs c ! di) p"
    and "sg_backward (cl_segs c ! di) ! p = pid" and "cl_dirOf c q = Some di"
  using assms coll_okD(7) [OF assms(1), of pid q p] coll_okD(5) [OF assms(1)] by (auto simp: placed_def)

lemma stored_Some: "coll_ok c \<Longrightarrow> stored c pid = None \<longleftrightarrow> id_fwd (cl_idmap c) pid = None"
proof -
  assume ok: "coll_ok c"
  show ?thesis
  proof (cases "id_fwd (cl_idmap c) pid")
    case (Some a)
    obtain q p where a: "a = (q, p)" by (cases a)
    obtain di where "cl_dirOf c q = Some di" by (rule fwd_place [OF ok]) (use Some a in auto)
    then show ?thesis using Some a by (simp add: stored_def)
  qed (simp add: stored_def)
qed

section \<open>The open segment\<close>

lemma seal_irrelevant [simp]:
  "seg_ok (s\<lparr>sg_sealed := b\<rparr>) = seg_ok s" "live_slot (s\<lparr>sg_sealed := b\<rparr>) p = live_slot s p"
  "seg_FetchVector (s\<lparr>sg_sealed := b\<rparr>) p = seg_FetchVector s p"
  by (simp_all add: seg_ok_def live_slot_def IsTombstoned_def seg_FetchVector_def)

lemma seal_ok:
  assumes ok: "coll_ok c" and i: "i < length (cl_segs c)"
  shows "coll_ok (upd_seg i (\<lambda>s. s\<lparr>sg_sealed := True\<rparr>) c)"
proof (rule coll_ok_upd [OF ok i])
  show "seg_in c ((cl_segs c ! i)\<lparr>sg_sealed := True\<rparr>)" using coll_okD(4) [OF ok i] by (simp add: seg_in_def)
  show "id_fwd (cl_idmap c) pid = Some (q, p) \<longleftrightarrow>
      (if q = sg_seqNum ((cl_segs c ! i)\<lparr>sg_sealed := True\<rparr>)
       then live_slot ((cl_segs c ! i)\<lparr>sg_sealed := True\<rparr>) p \<and> sg_backward ((cl_segs c ! i)\<lparr>sg_sealed := True\<rparr>) ! p = pid
       else id_fwd (cl_idmap c) pid = Some (q, p))" for pid q p
    using coll_okD(7) [OF ok, of pid q p] placed_seg [OF ok i] by auto
qed (simp_all add: upd_seg_def)

definition add_segment :: "collection \<Rightarrow> collection" where
  "add_segment c =
    (let seg = newSegment (cl_nextSeq c) (cl_elem c) (cl_dims c) (cl_stride c) (cl_capacity c) (cl_codec c);
         n = length (cl_segs c)
     in c\<lparr>cl_nextSeq := cl_nextSeq c + 1, cl_segs := cl_segs c @ [seg],
          cl_dirOf := (cl_dirOf c)(sg_seqNum seg \<mapsto> n), cl_openIdx := Some n\<rparr>)"

lemma u32_less_Suc:
  fixes n k :: u32
  assumes "n \<noteq> - 1"
  shows "n < n + 1" and "k < n \<Longrightarrow> k < n + 1"
proof -
  have "n + 1 \<noteq> 0" using assms by (metis add.commute add_eq_0_iff)
  then have "unat (n + 1) = Suc (unat n)" by (metis add.commute unatSuc)
  then show "n < n + 1" and "k < n \<Longrightarrow> k < n + 1" by (simp_all add: word_less_nat_alt)
qed

lemma add_segment_ok:
  assumes ok: "coll_ok c" and room: "cl_nextSeq c \<noteq> - 1"
  shows "coll_ok (add_segment c)"
proof -
  let ?n = "newSegment (cl_nextSeq c) (cl_elem c) (cl_dims c) (cl_stride c) (cl_capacity c) (cl_codec c)"
  have segs: "cl_segs (add_segment c) = cl_segs c @ [?n]" by (simp add: add_segment_def Let_def)
  have seq: "sg_seqNum ?n = cl_nextSeq c" by (simp add: newSegment_def)
  have old: "seg_in c s \<and> sg_seqNum s \<noteq> cl_nextSeq c" if "s \<in> set (cl_segs c)" for s
    using ok that by (auto simp: coll_ok_def seg_in_def)
  have "seg_in (add_segment c) s" if "s \<in> set (cl_segs c @ [?n])" for s
    using that old newSegment_ok [OF coll_okD(2) [OF ok], of "cl_nextSeq c" "cl_elem c" "cl_dims c" "cl_capacity c"]
      u32_less_Suc [OF room]
    by (auto simp: seg_in_def add_segment_def Let_def newSegment_def)
  moreover have "placed (cl_segs c @ [?n]) pid q p \<longleftrightarrow> placed (cl_segs c) pid q p" for pid q p
    unfolding placed_def by (auto simp: nth_append less_Suc_eq)
  moreover have "cl_dirOf (add_segment c) q = Some di \<longleftrightarrow>
      di < length (cl_segs c @ [?n]) \<and> sg_seqNum ((cl_segs c @ [?n]) ! di) = q" for q di
  proof -
    have "cl_dirOf (add_segment c) q = Some di \<longleftrightarrow>
        (if q = cl_nextSeq c then di = length (cl_segs c) else cl_dirOf c q = Some di)"
      by (auto simp: add_segment_def Let_def seq)
    also have "\<dots> \<longleftrightarrow> di < length (cl_segs c @ [?n]) \<and> sg_seqNum ((cl_segs c @ [?n]) ! di) = q"
      using coll_okD(5) [OF ok, of q di] old [of "cl_segs c ! di"] seq by (auto simp: nth_append less_Suc_eq)
    finally show ?thesis .
  qed
  moreover have "cl_capacity (add_segment c) = cl_capacity c" "cl_codec (add_segment c) = cl_codec c"
    "cl_stride (add_segment c) = cl_stride c" "cl_dims (add_segment c) = cl_dims c"
    "cl_idmap (add_segment c) = cl_idmap c" "cl_openIdx (add_segment c) = Some (length (cl_segs c))"
    by (simp_all add: add_segment_def Let_def)
  ultimately show ?thesis using ok unfolding coll_ok_def segs by simp
qed

lemma stored_add_segment:
  assumes "coll_ok c" and "cl_nextSeq c \<noteq> - 1"
  shows "stored (add_segment c) pid = stored c pid"
proof (cases "id_fwd (cl_idmap c) pid")
  case (Some a)
  obtain q p where a: "a = (q, p)" by (cases a)
  obtain di where d: "di < length (cl_segs c)" "q = sg_seqNum (cl_segs c ! di)" "cl_dirOf c q = Some di"
    by (rule fwd_place [OF assms(1)]) (use Some a in auto)
  have "q \<noteq> cl_nextSeq c" using coll_okD(4) [OF assms(1) d(1)] d(2) by (auto simp: seg_in_def)
  then have "cl_dirOf (add_segment c) q = Some di"
    using d(3) by (simp add: add_segment_def Let_def newSegment_def)
  moreover have "row_get (add_segment c) = row_get c"
    by (rule row_get_cong) (simp add: add_segment_def Let_def)
  ultimately show ?thesis
    using Some a d by (simp add: stored_def) (simp add: add_segment_def Let_def nth_append)
qed (simp add: stored_def add_segment_def Let_def)

lemma ensureOpen_eq:
  "ensureOpen c =
    (case cl_openIdx c of
       None \<Rightarrow> (add_segment c, length (cl_segs c))
     | Some i \<Rightarrow> if \<not> full (cl_segs c ! i) then (c, i)
                 else (add_segment (upd_seg i (\<lambda>s. s\<lparr>sg_sealed := True\<rparr>) c), length (cl_segs c)))"
  by (simp add: ensureOpen_def add_segment_def Let_def upd_seg_def split: option.split)

lemma ensureOpen_ok:
  assumes ok: "coll_ok c" and room: "cl_nextSeq c \<noteq> - 1" and e: "ensureOpen c = (c1, di)"
  shows "coll_ok c1" and "di < length (cl_segs c1)" and "\<not> full (cl_segs c1 ! di)"
    and "stored c1 pid = stored c pid" and "cl_idmap c1 = cl_idmap c" and "cl_meta c1 = cl_meta c"
    and "cl_capacity c1 = cl_capacity c" and "cl_codec c1 = cl_codec c" and "cl_dims c1 = cl_dims c"
    and "length (cl_segs c1) \<le> Suc (length (cl_segs c))"
proof -
  have fresh: "coll_ok (add_segment x) \<and> length (cl_segs x) < length (cl_segs (add_segment x)) \<and>
      \<not> full (cl_segs (add_segment x) ! length (cl_segs x))" if "coll_ok x" "cl_nextSeq x \<noteq> - 1" for x
    using add_segment_ok [OF that] coll_okD(1) [OF that(1)]
    by (simp add: add_segment_def Let_def full_def newSegment_def)
  consider (keep) i where "cl_openIdx c = Some i" "\<not> full (cl_segs c ! i)" "c1 = c" "di = i"
    | (none) "cl_openIdx c = None" "c1 = add_segment c" "di = length (cl_segs c)"
    | (roll) i where "cl_openIdx c = Some i" "full (cl_segs c ! i)"
        "c1 = add_segment (upd_seg i (\<lambda>s. s\<lparr>sg_sealed := True\<rparr>) c)" "di = length (cl_segs c)"
    using e unfolding ensureOpen_eq by (auto split: option.splits if_splits)
  then have "coll_ok c1 \<and> di < length (cl_segs c1) \<and> \<not> full (cl_segs c1 ! di) \<and> stored c1 pid = stored c pid \<and>
    cl_idmap c1 = cl_idmap c \<and> cl_meta c1 = cl_meta c \<and> cl_capacity c1 = cl_capacity c \<and> cl_codec c1 = cl_codec c \<and>
    cl_dims c1 = cl_dims c \<and> length (cl_segs c1) \<le> Suc (length (cl_segs c))"
  proof cases
    case (keep i)
    then show ?thesis using ok coll_okD(6) [OF ok] by simp
  next
    case none
    then show ?thesis
      using fresh [OF ok room] stored_add_segment [OF ok room] by (simp add: add_segment_def Let_def)
  next
    case (roll i)
    let ?c = "upd_seg i (\<lambda>s. s\<lparr>sg_sealed := True\<rparr>) c"
    have i: "i < length (cl_segs c)" using roll(1) coll_okD(6) [OF ok] by simp
    have r: "coll_ok ?c" "cl_nextSeq ?c \<noteq> - 1" using seal_ok [OF ok i] room by (simp_all add: upd_seg_def)
    have "stored ?c pid = stored c pid"
      using i row_get_cong [of ?c c] by (simp add: stored_def upd_seg_def nth_list_update split: option.split)
    then show ?thesis
      using roll(3,4) fresh [OF r] stored_add_segment [OF r] by (simp add: add_segment_def Let_def upd_seg_def)
  qed
  then show "coll_ok c1" and "di < length (cl_segs c1)" and "\<not> full (cl_segs c1 ! di)"
    and "stored c1 pid = stored c pid" and "cl_idmap c1 = cl_idmap c" and "cl_meta c1 = cl_meta c"
    and "cl_capacity c1 = cl_capacity c" and "cl_codec c1 = cl_codec c" and "cl_dims c1 = cl_dims c"
    and "length (cl_segs c1) \<le> Suc (length (cl_segs c))"
    by auto
qed

section \<open>Inserting a point\<close>

lemma stored_same:
  assumes ok: "coll_ok c" and di: "di < length (cl_segs c)" and c': "cl_segs c' = (cl_segs c)[di := s]"
    "cl_dirOf c' = cl_dirOf c" "id_fwd (cl_idmap c') pid = id_fwd (cl_idmap c) pid"
    and s: "\<And>p. live_slot (cl_segs c ! di) p \<Longrightarrow> sg_backward (cl_segs c ! di) ! p = pid \<Longrightarrow>
      seg_FetchVector s p = seg_FetchVector (cl_segs c ! di) p \<and> sg_version s ! p = sg_version (cl_segs c ! di) ! p"
    and m: "\<And>q p. id_fwd (cl_idmap c) pid = Some (q, p) \<Longrightarrow> row_get c' q p = row_get c q p"
  shows "stored c' pid = stored c pid"
proof (cases "id_fwd (cl_idmap c) pid")
  case (Some a)
  obtain q p where a: "a = (q, p)" by (cases a)
  obtain dj where d: "dj < length (cl_segs c)" "live_slot (cl_segs c ! dj) p" "cl_dirOf c q = Some dj"
    "sg_backward (cl_segs c ! dj) ! p = pid"
    by (rule fwd_place [OF ok]) (use Some a in auto)
  then show ?thesis
    using Some a c' s m di by (cases "dj = di") (simp_all add: stored_def)
qed (simp add: stored_def c')

lemma dims_le_length: "of_nat (length vec) = (d :: u32) \<Longrightarrow> unat d \<le> length vec"
  by (auto simp: unat_of_nat)

lemma unappend_fields [simp]:
  "sg_seqNum (unappend s) = sg_seqNum s" "sg_capacity (unappend s) = sg_capacity s" "sg_codec (unappend s) = sg_codec s"
  "sg_stride (unappend s) = sg_stride s" "sg_backward (unappend s) = sg_backward s" "sg_version (unappend s) = sg_version s"
  "sg_nextPos (unappend s) = sg_nextPos s - 1"
  by (simp_all add: unappend_def)

lemma fetch_unappend: "p < sg_nextPos s - 1 \<Longrightarrow> seg_FetchVector (unappend s) p = seg_FetchVector s p"
  by (simp add: seg_FetchVector_def unappend_def)

text \<open>The segment part of an insert, kept or taken back.\<close>

lemma append_kept:
  assumes ok: "coll_ok c" and di: "di < length (cl_segs c)" and room: "\<not> full (cl_segs c ! di)"
    and vec: "of_nat (length vec) = cl_dims c" and new: "id_fwd (cl_idmap c) pid = None"
    and ap: "seg_append conv (cl_segs c ! di) pid vec 0 = (s, pos)"
    and m: "writeRow (cl_meta c) (sg_seqNum s) pos cap row = (m, None)"
    and im: "id_fwd im = (id_fwd (cl_idmap c))(pid \<mapsto> (sg_seqNum s, pos))"
    and c': "c' = (upd_seg di (\<lambda>_. s) c)\<lparr>cl_meta := m, cl_idmap := im, cl_writes := w\<rparr>"
  shows "coll_ok c'" and "pid' \<noteq> pid \<Longrightarrow> stored c' pid' = stored c pid'"
    and "stored c' pid = Some (Inr (decode (cl_codec c) (encode conv (cl_codec c) vec)), 0,
      \<lambda>k. if map_of (cl_meta c) k = None then NullValue else cell_of row k)"
    and "cl_dirOf c' (sg_seqNum s) = Some di"
proof -
  have sin: "seg_in c (cl_segs c ! di)" by (rule coll_okD(4) [OF ok di])
  then have sok: "seg_ok (cl_segs c ! di)" and cd: "sg_codec (cl_segs c ! di) = cl_codec c" by (simp_all add: seg_in_def)
  have vl: "codec_dims (sg_codec (cl_segs c ! di)) \<le> length vec"
    using coll_okD(3) [OF ok] dims_le_length [OF vec] cd by simp
  note a = append_ok [OF sok room vl ap]
  have fresh: "\<not> (live_slot (cl_segs c ! di) p \<and> sg_backward (cl_segs c ! di) ! p = pid)" for p
    using new coll_okD(7) [OF ok, of pid "sg_seqNum (cl_segs c ! di)" p] placed_seg [OF ok di] by auto
  have lt: "p < pos" if "live_slot (cl_segs c ! di) p" for p using that a(2) by (simp add: live_slot_def)
  have lp: "pos < length (sg_backward (cl_segs c ! di))" "pos < length (sg_version (cl_segs c ! di))"
    using sok a(14) by (simp_all add: seg_ok_def)
  have sel: "cl_segs c' = (cl_segs c)[di := s]" "cl_dirOf c' = cl_dirOf c" "cl_idmap c' = im" "cl_meta c' = m"
    using c' by (simp_all add: upd_seg_def)
  show ok': "coll_ok c'"
  proof (rule coll_ok_upd [OF ok di, where s = s and im = im])
    show "seg_in c s" using sin a(1,8-11) by (simp add: seg_in_def)
    show "id_fwd im pid' = Some (q, p) \<longleftrightarrow> (if q = sg_seqNum s then live_slot s p \<and> sg_backward s ! p = pid'
        else id_fwd (cl_idmap c) pid' = Some (q, p))" for pid' q p
    proof -
      have old: "id_fwd (cl_idmap c) pid' = Some (sg_seqNum s, p) \<longleftrightarrow>
          live_slot (cl_segs c ! di) p \<and> sg_backward (cl_segs c ! di) ! p = pid'"
        using coll_okD(7) [OF ok, of pid' "sg_seqNum s" p] placed_seg [OF ok di, of pid' p] a(8) by simp
      have bk: "sg_backward s ! p = (if p = pos then pid else sg_backward (cl_segs c ! di) ! p)"
        using a(4) lp(1) by (simp add: nth_list_update)
      show ?thesis
      proof (cases "q = sg_seqNum s")
        case True
        then show ?thesis
          using im old bk a(3) [of p] fresh [of p] lt [of pos] by (cases "pid' = pid") (auto simp: new)
      next
        case False
        then show ?thesis using im new by (cases "pid' = pid") auto
      qed
    qed
  qed (simp_all add: c' upd_seg_def a(8))
  show dir: "cl_dirOf c' (sg_seqNum s) = Some di"
    using coll_okD(5) [OF ok, of "sg_seqNum s" di] di a(8) sel(2) by simp
  show "stored c' pid' = stored c pid'" if ne: "pid' \<noteq> pid"
  proof (rule stored_same [OF ok di sel(1,2)])
    show "id_fwd (cl_idmap c') pid' = id_fwd (cl_idmap c) pid'" using im ne sel(3) by simp
    show "seg_FetchVector s p = seg_FetchVector (cl_segs c ! di) p \<and> sg_version s ! p = sg_version (cl_segs c ! di) ! p"
      if "live_slot (cl_segs c ! di) p" for p
      using a(5,7) lt [OF that] by (simp add: nth_list_update)
    show "row_get c' q p = row_get c q p" if f: "id_fwd (cl_idmap c) pid' = Some (q, p)" for q p
    proof -
      have "(q, p) \<noteq> (sg_seqNum s, pos)"
        using f coll_okD(7) [OF ok, of pid' q p] placed_seg [OF ok di, of pid' p] a(8) lt [of pos] by auto
      then show ?thesis
        using writeRow_reads(1) [OF m] sel(4) by (intro ext) (simp add: row_get_read_cell)
    qed
  qed
  have "row_get c' (sg_seqNum s) pos k = (if map_of (cl_meta c) k = None then NullValue else cell_of row k)" for k
    using writeRow_reads(2) [OF m, of k] sel(4) by (auto simp: row_get_read_cell)
  then show "stored c' pid = Some (Inr (decode (cl_codec c) (encode conv (cl_codec c) vec)), 0,
      \<lambda>k. if map_of (cl_meta c) k = None then NullValue else cell_of row k)"
    using im sel dir di a(5,6) lp(2) cd by (simp add: stored_def fun_eq_iff)
qed

lemma append_taken_back:
  assumes ok: "coll_ok c" and di: "di < length (cl_segs c)" and room: "\<not> full (cl_segs c ! di)"
    and vec: "of_nat (length vec) = cl_dims c" and new: "id_fwd (cl_idmap c) pid = None"
    and ap: "seg_append conv (cl_segs c ! di) pid vec 0 = (s, pos)"
    and m: "writeRow (cl_meta c) (sg_seqNum s) pos cap row = (m, err)"
    and c': "c' = (upd_seg di (\<lambda>_. unappend s) c)\<lparr>cl_meta := m\<rparr>"
  shows "coll_ok c'" and "stored c' pid' = stored c pid'"
proof -
  have sin: "seg_in c (cl_segs c ! di)" by (rule coll_okD(4) [OF ok di])
  then have sok: "seg_ok (cl_segs c ! di)" and cd: "sg_codec (cl_segs c ! di) = cl_codec c" by (simp_all add: seg_in_def)
  have vl: "codec_dims (sg_codec (cl_segs c ! di)) \<le> length vec"
    using coll_okD(3) [OF ok] dims_le_length [OF vec] cd by simp
  note a = append_ok [OF sok room vl ap]
  have lt: "p < pos" if "live_slot (cl_segs c ! di) p" for p using that a(2) by (simp add: live_slot_def)
  have "live_slot s pos" using a(3) by simp
  note u = unappend_ok [OF a(1) a(13) this]
  have live: "live_slot (unappend s) p \<longleftrightarrow> live_slot (cl_segs c ! di) p" for p
    using u(2) [of p] a(3) [of p] lt [of p] by auto
  have sel: "cl_segs c' = (cl_segs c)[di := unappend s]" "cl_dirOf c' = cl_dirOf c" "cl_idmap c' = cl_idmap c" "cl_meta c' = m"
    using c' by (simp_all add: upd_seg_def)
  show "coll_ok c'"
  proof (rule coll_ok_upd [OF ok di, where s = "unappend s" and im = "cl_idmap c"])
    show "seg_in c (unappend s)" using sin u(1) a(8-11) by (simp add: seg_in_def)
    show "id_fwd (cl_idmap c) pid' = Some (q, p) \<longleftrightarrow> (if q = sg_seqNum (unappend s)
        then live_slot (unappend s) p \<and> sg_backward (unappend s) ! p = pid' else id_fwd (cl_idmap c) pid' = Some (q, p))"
      for pid' q p
      using coll_okD(7) [OF ok, of pid' q p] placed_seg [OF ok di, of pid' p] a(4,8) live [of p] lt [of p]
      by (auto simp: nth_list_update)
  qed (simp_all add: c' upd_seg_def a(8))
  show "stored c' pid' = stored c pid'"
  proof (rule stored_same [OF ok di sel(1,2)])
    show "seg_FetchVector (unappend s) p = seg_FetchVector (cl_segs c ! di) p \<and>
        sg_version (unappend s) ! p = sg_version (cl_segs c ! di) ! p" if "live_slot (cl_segs c ! di) p" for p
      using a(5,7,13) lt [OF that] fetch_unappend [of p s] by (simp add: nth_list_update)
    show "row_get c' q p = row_get c q p" if f: "id_fwd (cl_idmap c) pid' = Some (q, p)" for q p
    proof -
      have "(q, p) \<noteq> (sg_seqNum s, pos)"
        using f coll_okD(7) [OF ok, of pid' q p] placed_seg [OF ok di, of pid' p] a(8) lt [of pos] by auto
      then show ?thesis
        using writeRow_reads(1) [OF m] sel(4) by (intro ext) (simp add: row_get_read_cell)
    qed
  qed (simp add: sel)
qed

text \<open>The three ways through \<^verbatim>\<open>appendPoint\<close>.\<close>

lemma appendPoint_run:
  assumes ok: "coll_ok c" and room: "cl_nextSeq c \<noteq> - 1"
    and r: "appendPoint conv t c k pid vec row = (c', t', r)"
  obtains (early) err where "r = Inl err" and "t' = t" and "c' = c"
      and "err = (if (of_nat (length vec) :: u32) \<noteq> cl_dims c then ErrDimensionMismatch else ErrDuplicateID)"
      and "(of_nat (length vec) :: u32) \<noteq> cl_dims c \<or> id_fwd (cl_idmap c) pid \<noteq> None"
  | (rolled) c1 di s pos m err where "ensureOpen c = (c1, di)" and "of_nat (length vec) = cl_dims c1"
      and "id_fwd (cl_idmap c1) pid = None" and "seg_append conv (cl_segs c1 ! di) pid vec 0 = (s, pos)"
      and "writeRow (cl_meta c1) (sg_seqNum s) pos (cl_capacity c1) row = (m, Some err)"
      and "c' = (upd_seg di (\<lambda>_. unappend s) c1)\<lparr>cl_meta := m\<rparr>" and "t' = t" and "r = Inl err"
  | (kept) c1 di s pos m im where "ensureOpen c = (c1, di)" and "of_nat (length vec) = cl_dims c1"
      and "id_fwd (cl_idmap c1) pid = None" and "seg_append conv (cl_segs c1 ! di) pid vec 0 = (s, pos)"
      and "writeRow (cl_meta c1) (sg_seqNum s) pos (cl_capacity c1) row = (m, None)"
      and "id_fwd im = (id_fwd (cl_idmap c1))(pid \<mapsto> (sg_seqNum s, pos))"
      and "c' = (upd_seg di (\<lambda>_. s) c1)\<lparr>cl_meta := m, cl_idmap := im, cl_writes := cl_writes c1 + 1\<rparr>"
      and "t' = t\<lparr>tx_stamp := tx_stamp t @ [StampVersion k (sg_seqNum s) pos],
            tx_undo := tx_undo t @ [UndoAppend k pid (sg_seqNum s) pos]\<rparr>" and "r = Inr (colPos c' di pos)"
proof (cases "(of_nat (length vec) :: u32) \<noteq> cl_dims c \<or> id_fwd (cl_idmap c) pid \<noteq> None")
  case True
  then show thesis
    using r by (intro early) (auto simp: appendPoint_def ForwardLookup_def split: option.splits if_splits)
next
  case False
  then have go: "of_nat (length vec) = cl_dims c" "id_fwd (cl_idmap c) pid = None" by blast+
  obtain c1 di where e: "ensureOpen c = (c1, di)" by fastforce
  note o = ensureOpen_ok [OF ok room e]
  obtain s pos where ap: "seg_append conv (cl_segs c1 ! di) pid vec 0 = (s, pos)" by fastforce
  obtain m err where m: "writeRow (cl_meta c1) (sg_seqNum s) pos (cl_capacity c1) row = (m, err)" by fastforce
  have vec: "of_nat (length vec) = cl_dims c1" and new: "id_fwd (cl_idmap c1) pid = None" using go o(5,9) by simp_all
  let ?c2 = "upd_seg di (\<lambda>_. s) c1"
  have c2: "cl_meta ?c2 = cl_meta c1" "cl_capacity ?c2 = cl_capacity c1" "cl_idmap ?c2 = cl_idmap c1"
    by (simp_all add: upd_seg_def)
  have fl: "ForwardLookup (cl_idmap c) pid = Inl ErrNotFound" using go by (simp add: ForwardLookup_def)
  show thesis
  proof (cases err)
    case (Some x)
    have "appendPoint conv t c k pid vec row = (upd_seg di unappend (?c2\<lparr>cl_meta := m\<rparr>), t, Inl x)"
      using go fl e ap m Some c2 by (simp add: appendPoint_def Let_def)
    moreover have "upd_seg di unappend (?c2\<lparr>cl_meta := m\<rparr>) = (upd_seg di (\<lambda>_. unappend s) c1)\<lparr>cl_meta := m\<rparr>"
      using o(2) by (simp add: upd_seg_def)
    ultimately show thesis using r Some by (intro rolled [OF e vec new ap]) (auto simp: m)
  next
    case None
    define im where "im = (cl_idmap c1)\<lparr>id_fwd := (id_fwd (cl_idmap c1))(pid \<mapsto> (sg_seqNum s, pos)),
        id_dead := id_dead (cl_idmap c1) - {pid}\<rparr>"
    define cf where "cf = ?c2\<lparr>cl_meta := m, cl_idmap := im, cl_writes := cl_writes c1 + 1\<rparr>"
    have "appendPoint conv t c k pid vec row = (cf, t\<lparr>tx_stamp := tx_stamp t @ [StampVersion k (sg_seqNum s) pos],
          tx_undo := tx_undo t @ [UndoAppend k pid (sg_seqNum s) pos]\<rparr>, Inr (colPos cf di pos))"
      using go fl e ap m None c2 new
      by (simp add: appendPoint_def Let_def id_insert_def im_def cf_def bump_writes_def colPos_def upd_seg_def)
    moreover have "id_fwd im = (id_fwd (cl_idmap c1))(pid \<mapsto> (sg_seqNum s, pos))" by (simp add: im_def)
    ultimately show thesis using r None by (intro kept [OF e vec new ap]) (auto simp: m cf_def)
  qed
qed

lemma writeRow_err: "snd (writeRow m q p cap row) \<noteq> Some ErrDuplicateID"
proof -
  have "snd (write_cols q p cap row m) \<in> {None, Some ErrSchemaMismatch}"
    by (induction m) (auto simp: Let_def split: prod.splits if_splits)
  then show ?thesis by (auto simp: writeRow_def split: prod.splits option.splits if_splits)
qed

lemma appendPoint_cases:
  assumes ok: "coll_ok c" and room: "cl_nextSeq c \<noteq> - 1"
    and r: "appendPoint conv t c k pid vec row = (c', t', r)"
  obtains (failed) err where "r = Inl err" and "t' = t" and "coll_ok c'" and "\<forall>pid'. stored c' pid' = stored c pid'"
      and "cl_idmap c' = cl_idmap c"
      and "err = ErrDuplicateID \<longrightarrow> id_fwd (cl_idmap c) pid \<noteq> None"
  | (inserted) di q p where "r = Inr (colPos c' di p)"
      and "id_fwd (cl_idmap c') = (id_fwd (cl_idmap c))(pid \<mapsto> (q, p))" and "cl_dirOf c' q = Some di" and "coll_ok c'"
      and "id_fwd (cl_idmap c) pid = None" and "of_nat (length vec) = cl_dims c"
      and "\<forall>pid'. pid' \<noteq> pid \<longrightarrow> stored c' pid' = stored c pid'"
      and "stored c' pid = Some (Inr (decode (cl_codec c) (encode conv (cl_codec c) vec)), 0,
        \<lambda>k. if map_of (cl_meta c) k = None then NullValue else cell_of row k)"
      and "t' = t\<lparr>tx_stamp := tx_stamp t @ [StampVersion k q p], tx_undo := tx_undo t @ [UndoAppend k pid q p]\<rparr>"
  using ok room r
proof (cases rule: appendPoint_run)
  case (early err)
  then show thesis using ok by (intro failed) (auto split: if_splits)
next
  case (rolled c1 di s pos m err)
  note o = ensureOpen_ok [OF ok room rolled(1)]
  show thesis
    using append_taken_back [OF o(1,2,3) rolled(2-6)] o(4,5) rolled(5-8) writeRow_err [of "cl_meta c1" "sg_seqNum s" pos "cl_capacity c1" row]
    by (intro failed) (auto simp: upd_seg_def)
next
  case (kept c1 di s pos m im)
  note o = ensureOpen_ok [OF ok room kept(1)]
  note a = append_kept [OF o(1,2,3) kept(2-7)]
  have "cl_idmap c' = im" using kept(7) by (simp add: upd_seg_def)
  then show thesis
    by (intro inserted [where di = di and q = "sg_seqNum s" and p = pos]) (use kept a o(4-9) in auto)
qed

lemma appendPoint_nextSeq:
  "appendPoint conv t c k pid vec row = (c', t', r) \<Longrightarrow>
   cl_nextSeq c' = cl_nextSeq c \<or> cl_nextSeq c' = cl_nextSeq c + 1"
  by (auto simp: appendPoint_def ensureOpen_eq add_segment_def Let_def upd_seg_def bump_writes_def
      split: if_splits sum.splits option.splits prod.splits)

section \<open>Deleting a point\<close>

lemma tombstone_point:
  assumes ok: "coll_ok c" and f: "id_fwd (cl_idmap c) pid = Some (q, p)" and di: "cl_dirOf c q = Some di"
    and im: "id_fwd im = (id_fwd (cl_idmap c))(pid := None)"
    and c': "cl_segs c' = (cl_segs c)[di := seg_tombstone (cl_segs c ! di) p]" "cl_idmap c' = im" "cl_dirOf c' = cl_dirOf c"
      "cl_openIdx c' = cl_openIdx c" "cl_capacity c' = cl_capacity c" "cl_codec c' = cl_codec c"
      "cl_stride c' = cl_stride c" "cl_dims c' = cl_dims c" "cl_nextSeq c' = cl_nextSeq c" "cl_meta c' = cl_meta c"
  shows "coll_ok c'" and "pid' \<noteq> pid \<Longrightarrow> stored c' pid' = stored c pid'" and "stored c' pid = None"
    and "live_slot (cl_segs c ! di) p" and "di < length (cl_segs c)" and "sg_seqNum (cl_segs c ! di) = q"
proof -
  show d: "di < length (cl_segs c)" and sq: "sg_seqNum (cl_segs c ! di) = q" using coll_okD(5) [OF ok] di by auto
  have sin: "seg_in c (cl_segs c ! di)" by (rule coll_okD(4) [OF ok d])
  have pl: "live_slot (cl_segs c ! di) p" "sg_backward (cl_segs c ! di) ! p = pid"
    using f coll_okD(7) [OF ok, of pid q p] placed_seg [OF ok d, of pid p] sq by auto
  then show "live_slot (cl_segs c ! di) p" by simp
  have sok: "seg_ok (cl_segs c ! di)" using sin by (simp add: seg_in_def)
  note t = tombstone_ok [OF sok pl(1)]
  show "coll_ok c'"
  proof (rule coll_ok_upd [OF ok d _ _ _ c'(1-9)])
    show "seg_in c (seg_tombstone (cl_segs c ! di) p)" using sin t(1,3-6) by (simp add: seg_in_def)
    show "id_fwd im pid' = Some (q', p') \<longleftrightarrow> (if q' = sg_seqNum (seg_tombstone (cl_segs c ! di) p)
        then live_slot (seg_tombstone (cl_segs c ! di) p) p' \<and> sg_backward (seg_tombstone (cl_segs c ! di) p) ! p' = pid'
        else id_fwd (cl_idmap c) pid' = Some (q', p'))" for pid' q' p'
    proof -
      have old: "id_fwd (cl_idmap c) pid' = Some (q, p') \<longleftrightarrow>
          live_slot (cl_segs c ! di) p' \<and> sg_backward (cl_segs c ! di) ! p' = pid'"
        using coll_okD(7) [OF ok, of pid' q p'] placed_seg [OF ok d, of pid' p'] sq by simp
      show ?thesis
      proof (cases "pid' = pid")
        case True
        then show ?thesis using im f old t(2,3,7) sq by auto
      next
        case False
        then show ?thesis using im old pl t(2,3,7) sq by auto
      qed
    qed
  qed (simp add: t(3) sq)
  show "stored c' pid = None" using im c'(2) by (simp add: stored_def)
  show "stored c' pid' = stored c pid'" if "pid' \<noteq> pid"
  proof (rule stored_same [OF ok d c'(1,3)])
    show "id_fwd (cl_idmap c') pid' = id_fwd (cl_idmap c) pid'" using im c'(2) that by simp
    show "row_get c' q p = row_get c q p" for q p using row_get_cong [OF c'(10)] by simp
  qed (simp add: seg_FetchVector_def t)
qed

lemma delete_point_cases:
  assumes ok: "coll_ok c" and r: "delete_point t c k pid = (c', t', r)"
  obtains (absent) "id_fwd (cl_idmap c) pid = None" and "c' = c" and "t' = t" and "r = Some ErrNotFound"
  | (deleted) q p where "id_fwd (cl_idmap c) pid = Some (q, p)" and "r = None" and "coll_ok c'"
      and "t' = t\<lparr>tx_undo := tx_undo t @ [UndoDelete k pid q p]\<rparr>"
      and "\<forall>pid'. stored c' pid' = (if pid' = pid then None else stored c pid')"
      and "cl_idmap c' = fst (id_tombstone (cl_idmap c) pid)"
proof (cases "id_fwd (cl_idmap c) pid")
  case None
  then show thesis using r by (intro absent) (auto simp: delete_point_def ForwardLookup_def)
next
  case (Some a)
  obtain q p where a: "a = (q, p)" by (cases a)
  obtain di where di: "cl_dirOf c q = Some di" by (rule fwd_place [OF ok]) (use Some a in auto)
  let ?im = "(cl_idmap c)\<lparr>id_fwd := (id_fwd (cl_idmap c))(pid := None), id_dead := insert pid (id_dead (cl_idmap c))\<rparr>"
  let ?c = "bump_writes ((upd_seg di (\<lambda>s. seg_tombstone s p) c)\<lparr>cl_idmap := ?im\<rparr>)"
  have "delete_point t c k pid = (?c, t\<lparr>tx_undo := tx_undo t @ [UndoDelete k pid q p]\<rparr>, None)"
    using Some a di by (simp add: delete_point_def ForwardLookup_def segBySeq_def id_tombstone_def upd_seg_def)
  then have eqs: "c' = ?c" "t' = t\<lparr>tx_undo := tx_undo t @ [UndoDelete k pid q p]\<rparr>" "r = None" using r by auto
  have f: "id_fwd (cl_idmap c) pid = Some (q, p)" using Some a by simp
  have t: "coll_ok ?c" "pid' \<noteq> pid \<Longrightarrow> stored ?c pid' = stored c pid'" "stored ?c pid = None" for pid'
    using tombstone_point [OF ok f di, where im = ?im and c' = ?c] by (simp_all add: bump_writes_def upd_seg_def)
  show thesis
    by (rule deleted [OF f]) (use eqs t f in \<open>auto simp: id_tombstone_def bump_writes_def\<close>)
qed

end
