(* ===== verification/Storage_Txn.thy ===== *)
theory Storage_Txn
  imports Storage_Ops
begin

text \<open>
  Abort: undoing inserts and deletes in the reverse order restores what the collection
  stores, whatever the transaction did in between.
\<close>

section \<open>Undoing one slot\<close>

lemma clear_tomb_same:
  assumes "seg_ok s" and "p < sg_capacity s" and "\<not> bit_at (sg_tomb s) p"
  shows "clear_tomb s p = s"
proof -
  have r: "p div 64 < length (sg_tomb s)" by (rule tomb_range [OF assms(1,2)])
  have "(sg_tomb s ! (p div 64)) AND NOT (tomb_bit p) = sg_tomb s ! (p div 64)"
    by (rule bit_word_eqI) (use assms(3) r in \<open>auto simp: bit_simps tomb_bit_def bit_at_def\<close>)
  then show ?thesis by (simp add: clear_tomb_def)
qed

definition untombstone :: "nat \<Rightarrow> segment \<Rightarrow> segment" where
  "untombstone p s =
    (let s1 = clear_tomb s p
     in s1\<lparr>sg_liveCount := sg_liveCount s1 + 1,
           sg_deadCount := (if 0 < sg_deadCount s1 then sg_deadCount s1 - 1 else sg_deadCount s1)\<rparr>)"

lemma untombstone_fields [simp]:
  "sg_seqNum (untombstone p s) = sg_seqNum s" "sg_capacity (untombstone p s) = sg_capacity s"
  "sg_codec (untombstone p s) = sg_codec s" "sg_stride (untombstone p s) = sg_stride s"
  "sg_backward (untombstone p s) = sg_backward s" "sg_version (untombstone p s) = sg_version s"
  "sg_nextPos (untombstone p s) = sg_nextPos s" "sg_data (untombstone p s) = sg_data s"
  by (simp_all add: untombstone_def clear_tomb_def Let_def)

lemma untombstone_ok:
  assumes ok: "seg_ok s" and p: "p < sg_nextPos s" "bit_at (sg_tomb s) p"
  shows "seg_ok (untombstone p s)" and "bit_at (sg_tomb (untombstone p s)) q \<longleftrightarrow> q \<noteq> p \<and> bit_at (sg_tomb s) q"
    and "live_slot (untombstone p s) q \<longleftrightarrow> q = p \<or> live_slot s q"
proof -
  let ?s = "untombstone p s"
  have lt: "p < sg_capacity s" using ok p(1) by (simp add: seg_ok_def)
  have tb: "bit_at (sg_tomb ?s) q \<longleftrightarrow> q \<noteq> p \<and> bit_at (sg_tomb s) q" for q
    using bit_at_clear [OF tomb_range [OF ok lt]] by (simp add: untombstone_def clear_tomb_def Let_def)
  then show "bit_at (sg_tomb ?s) q \<longleftrightarrow> q \<noteq> p \<and> bit_at (sg_tomb s) q" .
  have "{q. q < sg_nextPos s \<and> bit_at (sg_tomb s) q} = insert p {q. q < sg_nextPos s \<and> bit_at (sg_tomb ?s) q}"
    using p tb by auto
  then have c1: "card {q. q < sg_nextPos s \<and> bit_at (sg_tomb s) q}
      = card {q. q < sg_nextPos s \<and> bit_at (sg_tomb ?s) q} + 1"
    by (rule card_insert_slot [rotated 2]) (use tb in auto)
  have "{q. q < sg_nextPos s \<and> \<not> bit_at (sg_tomb ?s) q} = insert p {q. q < sg_nextPos s \<and> \<not> bit_at (sg_tomb s) q}"
    using p tb by auto
  then have c2: "card {q. q < sg_nextPos s \<and> \<not> bit_at (sg_tomb ?s) q}
      = card {q. q < sg_nextPos s \<and> \<not> bit_at (sg_tomb s) q} + 1"
    by (rule card_insert_slot [rotated 2]) (use p in auto)
  have cnt: "sg_liveCount ?s = sg_liveCount s + 1" "sg_deadCount ?s = sg_deadCount s - 1"
    "length (sg_tomb ?s) = length (sg_tomb s)"
    by (simp_all add: untombstone_def clear_tomb_def Let_def)
  show ok': "seg_ok ?s" using ok p(1) c1 c2 by (auto simp: seg_ok_def cnt tb)
  show "live_slot ?s q \<longleftrightarrow> q = p \<or> live_slot s q"
    using p by (auto simp: live_slot_iff [OF ok'] live_slot_iff [OF ok] tb)
qed

section \<open>Agreement\<close>

definition seg_agree :: "segment \<Rightarrow> segment \<Rightarrow> bool" where
  "seg_agree s s' \<longleftrightarrow> sg_seqNum s' = sg_seqNum s \<and> sg_nextPos s' = sg_nextPos s \<and>
     (\<forall>p < sg_nextPos s. bit_at (sg_tomb s') p = bit_at (sg_tomb s) p \<and> sg_backward s' ! p = sg_backward s ! p \<and>
        sg_version s' ! p = sg_version s ! p \<and> seg_FetchVector s' p = seg_FetchVector s p)"

text \<open>The second collection stores what the first one does; it may have further, empty segments.\<close>

definition agree :: "collection \<Rightarrow> collection \<Rightarrow> bool" where
  "agree c c' \<longleftrightarrow> coll_ok c \<and> coll_ok c' \<and> cl_capacity c' = cl_capacity c \<and> length (cl_segs c) \<le> length (cl_segs c') \<and>
     (\<forall>di < length (cl_segs c). seg_agree (cl_segs c ! di) (cl_segs c' ! di)) \<and>
     (\<forall>di < length (cl_segs c'). length (cl_segs c) \<le> di \<longrightarrow> sg_nextPos (cl_segs c' ! di) = 0) \<and>
     id_fwd (cl_idmap c') = id_fwd (cl_idmap c) \<and>
     (\<forall>di < length (cl_segs c). \<forall>p < sg_nextPos (cl_segs c ! di).
        row_get c' (sg_seqNum (cl_segs c ! di)) p = row_get c (sg_seqNum (cl_segs c ! di)) p)"

lemma agree_refl: "coll_ok c \<Longrightarrow> agree c c"
  by (simp add: agree_def seg_agree_def)

lemma seg_agree_trans: "seg_agree s t \<Longrightarrow> seg_agree t u \<Longrightarrow> seg_agree s u"
  by (simp add: seg_agree_def)

lemma agree_trans:
  assumes "agree c d" and "agree d e"
  shows "agree c e"
proof -
  have len: "length (cl_segs c) \<le> length (cl_segs d)" "length (cl_segs d) \<le> length (cl_segs e)"
    and segs: "di < length (cl_segs c) \<Longrightarrow> seg_agree (cl_segs c ! di) (cl_segs d ! di)"
      "dj < length (cl_segs d) \<Longrightarrow> seg_agree (cl_segs d ! dj) (cl_segs e ! dj)" for di dj
    using assms by (simp_all add: agree_def)
  have ext: "sg_nextPos (cl_segs e ! di) = 0" if "di < length (cl_segs e)" "length (cl_segs c) \<le> di" for di
  proof (cases "di < length (cl_segs d)")
    case True
    then have "sg_nextPos (cl_segs d ! di) = 0" using assms(1) that by (simp add: agree_def)
    then show ?thesis using segs(2) [OF True] by (simp add: seg_agree_def)
  next
    case False
    then show ?thesis using assms(2) that by (simp add: agree_def)
  qed
  have all: "seg_agree (cl_segs c ! di) (cl_segs e ! di)" if "di < length (cl_segs c)" for di
    using segs(1) [of di] segs(2) [of di] that len seg_agree_trans by fastforce
  have rows: "row_get e (sg_seqNum (cl_segs c ! di)) p = row_get c (sg_seqNum (cl_segs c ! di)) p"
    if "di < length (cl_segs c)" "p < sg_nextPos (cl_segs c ! di)" for di p
  proof -
    have "sg_seqNum (cl_segs d ! di) = sg_seqNum (cl_segs c ! di)" "sg_nextPos (cl_segs d ! di) = sg_nextPos (cl_segs c ! di)"
      using segs(1) [OF that(1)] by (simp_all add: seg_agree_def)
    moreover have "row_get d (sg_seqNum (cl_segs c ! di)) p = row_get c (sg_seqNum (cl_segs c ! di)) p"
      using assms(1) that by (simp add: agree_def)
    moreover have "p < sg_nextPos (cl_segs d ! di) \<Longrightarrow>
        row_get e (sg_seqNum (cl_segs d ! di)) p = row_get d (sg_seqNum (cl_segs d ! di)) p"
      using assms(2) that(1) len(1) by (simp add: agree_def)
    ultimately show ?thesis using that(2) by simp
  qed
  show ?thesis using assms len all ext rows by (simp add: agree_def)
qed

lemma agree_stored:
  assumes "agree c d"
  shows "stored d pid = stored c pid"
proof (cases "id_fwd (cl_idmap c) pid")
  case (Some a)
  have ok: "coll_ok c" "coll_ok d" using assms by (auto simp: agree_def)
  obtain q p where a: "a = (q, p)" by (cases a)
  obtain di where d: "di < length (cl_segs c)" "q = sg_seqNum (cl_segs c ! di)" "live_slot (cl_segs c ! di) p" "cl_dirOf c q = Some di"
    by (rule fwd_place [OF ok(1)]) (use Some a in auto)
  have sa: "seg_agree (cl_segs c ! di) (cl_segs d ! di)" "di < length (cl_segs d)" using assms d(1) by (auto simp: agree_def)
  have pn: "p < sg_nextPos (cl_segs c ! di)" using d(3) by (simp add: live_slot_def)
  have fd: "id_fwd (cl_idmap d) pid = Some (sg_seqNum (cl_segs d ! di), p)"
    using assms Some a d(2) sa(1) by (simp add: agree_def seg_agree_def)
  have fc: "id_fwd (cl_idmap c) pid = Some (sg_seqNum (cl_segs c ! di), p)" using Some a d(2) by simp
  show ?thesis
    using stored_at [OF ok(2) sa(2) fd] stored_at [OF ok(1) d(1) fc] sa(1) pn assms d(1)
    by (simp add: seg_agree_def agree_def)
qed (use assms in \<open>simp add: stored_def agree_def\<close>)

text \<open>Changing the same segment of the undone collection.\<close>

lemma agree_upd:
  assumes ag: "agree c d" and ok': "coll_ok d'" and di: "di < length (cl_segs c)"
    and d': "cl_segs d' = (cl_segs d)[di := s']" "id_fwd (cl_idmap d') = id_fwd (cl_idmap b)"
    and b: "coll_ok b" "cl_segs b = (cl_segs c)[di := s]" "seg_agree s s'"
      "sg_seqNum s = sg_seqNum (cl_segs c ! di)" "sg_nextPos s \<le> sg_nextPos (cl_segs c ! di)"
    and cp: "cl_capacity b = cl_capacity c" "cl_capacity d' = cl_capacity d"
    and m: "cl_meta d' = cl_meta d" "\<And>dj p. dj < length (cl_segs b) \<Longrightarrow> p < sg_nextPos (cl_segs b ! dj) \<Longrightarrow>
      row_get b (sg_seqNum (cl_segs b ! dj)) p = row_get c (sg_seqNum (cl_segs b ! dj)) p"
  shows "agree b d'"
proof -
  have dd: "di < length (cl_segs d)" using ag di by (simp add: agree_def)
  have nb: "cl_segs b ! j = (if j = di then s else cl_segs c ! j)" for j using b(2) di by (simp add: nth_list_update)
  have nd: "cl_segs d' ! j = (if j = di then s' else cl_segs d ! j)" for j using d'(1) dd by (simp add: nth_list_update)
  have len: "length (cl_segs b) = length (cl_segs c)" "length (cl_segs d') = length (cl_segs d)" using b(2) d'(1) by simp_all
  have rg: "row_get d' = row_get d" by (rule row_get_cong [OF m(1)])
  have rows: "row_get d' (sg_seqNum (cl_segs b ! j)) p = row_get b (sg_seqNum (cl_segs b ! j)) p"
    if "j < length (cl_segs b)" "p < sg_nextPos (cl_segs b ! j)" for j p
  proof -
    have "sg_seqNum (cl_segs b ! j) = sg_seqNum (cl_segs c ! j)" "p < sg_nextPos (cl_segs c ! j)"
      using that(2) b(4,5) nb by (auto split: if_splits)
    then show ?thesis using that ag len m(2) [OF that] rg by (simp add: agree_def)
  qed
  show ?thesis
    unfolding agree_def
    using ag ok' b(1,3) di nb nd len d'(2) rows cp by (auto simp: agree_def)
qed

section \<open>Undoing an insert\<close>

lemma undo_append_agree:
  assumes ok: "coll_ok c" and di: "di < length (cl_segs c)" and room: "\<not> full (cl_segs c ! di)"
    and vec: "of_nat (length vec) = cl_dims c" and new: "id_fwd (cl_idmap c) pid = None"
    and ap: "seg_append conv (cl_segs c ! di) pid vec 0 = (s, pos)"
    and m: "writeRow (cl_meta c) (sg_seqNum s) pos cap row = (m, None)"
    and im: "id_fwd im = (id_fwd (cl_idmap c))(pid \<mapsto> (sg_seqNum s, pos))"
    and c': "c' = (upd_seg di (\<lambda>_. s) c)\<lparr>cl_meta := m, cl_idmap := im, cl_writes := w\<rparr>"
    and ag: "agree c' d"
  shows "agree c (undo_coll (UndoAppend k pid (sg_seqNum s) pos) d)"
proof -
  have sin: "seg_in c (cl_segs c ! di)" by (rule coll_okD(4) [OF ok di])
  then have sok: "seg_ok (cl_segs c ! di)" and cd: "sg_codec (cl_segs c ! di) = cl_codec c" by (simp_all add: seg_in_def)
  have vl: "codec_dims (sg_codec (cl_segs c ! di)) \<le> length vec"
    using coll_okD(3) [OF ok] dims_le_length [OF vec] cd by simp
  note a = append_ok [OF sok room vl ap]
  have segs': "cl_segs c' = (cl_segs c)[di := s]" "cl_meta c' = m" "cl_idmap c' = im" using c' by (simp_all add: upd_seg_def)
  let ?t = "cl_segs d ! di"
  have okd: "coll_ok d" and dd: "di < length (cl_segs d)" and st: "seg_agree s ?t" and fd: "id_fwd (cl_idmap d) = id_fwd im"
    using ag segs' di by (auto simp: agree_def)
  have tin: "seg_in d ?t" by (rule coll_okD(4) [OF okd dd])
  then have tok: "seg_ok ?t" by (simp add: seg_in_def)
  have tn: "sg_nextPos ?t = pos + 1" "sg_seqNum ?t = sg_seqNum s" using st a(13) by (simp_all add: seg_agree_def)
  have tl: "live_slot ?t pos"
    using st a(3) [of pos] tn by (simp add: live_slot_iff [OF tok] live_slot_iff [OF a(1)] seg_agree_def)
  note u = unappend_ok [OF tok tn(1) tl]
  have cap: "pos < sg_capacity ?t" using tok tn(1) by (simp add: seg_ok_def)
  have clr: "\<not> bit_at (sg_tomb ?t) pos" using tl by (simp add: live_slot_iff [OF tok])
  have ct: "clear_tomb ?t pos = ?t" by (rule clear_tomb_same [OF tok cap clr])
  have dir: "cl_dirOf d (sg_seqNum s) = Some di" using coll_okD(5) [OF okd, of "sg_seqNum s" di] dd tn(2) by simp
  define d' where "d' = undo_coll (UndoAppend k pid (sg_seqNum s) pos) d"
  have sel: "cl_segs d' = (cl_segs d)[di := unappend ?t]" "id_fwd (cl_idmap d') = (id_fwd (cl_idmap d))(pid := None)"
    "cl_dirOf d' = cl_dirOf d" "cl_openIdx d' = cl_openIdx d" "cl_capacity d' = cl_capacity d" "cl_codec d' = cl_codec d"
    "cl_stride d' = cl_stride d" "cl_dims d' = cl_dims d" "cl_nextSeq d' = cl_nextSeq d" "cl_meta d' = cl_meta d"
    using dir ct tn(1) u(3) fd im
    by (simp_all add: d'_def Let_def on_seg_def upd_seg_def id_tombstone_def unappend_def)
  have ok': "coll_ok d'"
  proof (rule coll_ok_upd [OF okd dd _ _ _ sel(1) refl sel(3-9)])
    show "seg_in d (unappend ?t)" using tin u(1) by (simp add: seg_in_def)
    show "id_fwd (cl_idmap d') pid' = Some (q, p) \<longleftrightarrow> (if q = sg_seqNum (unappend ?t)
        then live_slot (unappend ?t) p \<and> sg_backward (unappend ?t) ! p = pid' else id_fwd (cl_idmap d) pid' = Some (q, p))"
      for pid' q p
    proof -
      have old: "id_fwd (cl_idmap d) pid' = Some (sg_seqNum ?t, p) \<longleftrightarrow> live_slot ?t p \<and> sg_backward ?t ! p = pid'"
        using coll_okD(7) [OF okd, of pid' "sg_seqNum ?t" p] placed_seg [OF okd dd, of pid' p] by simp
      have own: "id_fwd (cl_idmap d) pid' = Some (sg_seqNum ?t, pos) \<longleftrightarrow> pid' = pid"
      proof -
        have "id_fwd (cl_idmap d) pid = Some (sg_seqNum ?t, pos)" using fd im tn(2) by simp
        then show ?thesis using coll_okD(7) [OF okd, of _ "sg_seqNum ?t" pos] placed_seg [OF okd dd, of _ pos] by auto
      qed
      show ?thesis
      proof (cases "q = sg_seqNum ?t")
        case True
        then show ?thesis
          using sel(2) old u(2) [of p] own fd im tn(2) by (cases "pid' = pid"; cases "p = pos") auto
      next
        case False
        then show ?thesis using sel(2) fd im tn(2) by auto
      qed
    qed
  qed simp
  have sa: "seg_agree (cl_segs c ! di) (unappend ?t)"
  proof -
    have "bit_at (sg_tomb (unappend ?t)) p = bit_at (sg_tomb (cl_segs c ! di)) p \<and>
        sg_backward (unappend ?t) ! p = sg_backward (cl_segs c ! di) ! p \<and>
        sg_version (unappend ?t) ! p = sg_version (cl_segs c ! di) ! p \<and>
        seg_FetchVector (unappend ?t) p = seg_FetchVector (cl_segs c ! di) p" if "p < pos" for p
      using st that a(4,5,7,13,15) fetch_unappend [of p ?t] tn(1)
      by (simp add: seg_agree_def nth_list_update unappend_def [of ?t])
    then show ?thesis using tn a(2,8) by (simp add: seg_agree_def)
  qed
  have "agree c d'"
  proof (rule agree_upd [OF ag ok' _ sel(1)])
    show "id_fwd (cl_idmap d') = id_fwd (cl_idmap c)" using sel(2) fd im new by (simp add: fun_upd_idem)
    show "cl_segs c = (cl_segs c')[di := cl_segs c ! di]" using segs'(1) di by simp
    show "sg_nextPos (cl_segs c ! di) \<le> sg_nextPos (cl_segs c' ! di)" using segs'(1) di a(2,13) by simp
    show "row_get c (sg_seqNum (cl_segs c ! dj)) p = row_get c' (sg_seqNum (cl_segs c ! dj)) p"
      if j: "dj < length (cl_segs c)" "p < sg_nextPos (cl_segs c ! dj)" for dj p
    proof -
      have "(sg_seqNum (cl_segs c ! dj), p) \<noteq> (sg_seqNum s, pos)"
        using j seq_unique [OF ok j(1) di] a(2,8) by auto
      then show ?thesis using writeRow_reads(1) [OF m] segs'(2) by (intro ext) (simp add: row_get_read_cell)
    qed
  qed (use di segs' ok sa sel(5,10) a(8) c' in \<open>auto simp: upd_seg_def\<close>)
  then show ?thesis by (simp add: d'_def)
qed

section \<open>Undoing a delete\<close>

lemma undo_delete_agree:
  assumes ok: "coll_ok c" and f: "id_fwd (cl_idmap c) pid = Some (q, p)" and dir: "cl_dirOf c q = Some di"
    and ok2: "coll_ok c'" and c': "cl_segs c' = (cl_segs c)[di := seg_tombstone (cl_segs c ! di) p]"
      "id_fwd (cl_idmap c') = (id_fwd (cl_idmap c))(pid := None)" "cl_meta c' = cl_meta c" "cl_capacity c' = cl_capacity c"
    and ag: "agree c' d"
  shows "agree c (undo_coll (UndoDelete k pid q p) d)"
proof -
  have di: "di < length (cl_segs c)" and sq: "sg_seqNum (cl_segs c ! di) = q" using coll_okD(5) [OF ok] dir by auto
  have sok: "seg_ok (cl_segs c ! di)" using coll_okD(4) [OF ok di] by (simp add: seg_in_def)
  have pl: "live_slot (cl_segs c ! di) p" "sg_backward (cl_segs c ! di) ! p = pid"
    using f coll_okD(7) [OF ok, of pid q p] placed_seg [OF ok di, of pid p] sq by auto
  note t = tombstone_ok [OF sok pl(1)]
  let ?s = "seg_tombstone (cl_segs c ! di) p" and ?t = "cl_segs d ! di"
  have okd: "coll_ok d" and dd: "di < length (cl_segs d)" and st: "seg_agree ?s ?t"
    and fd: "id_fwd (cl_idmap d) = (id_fwd (cl_idmap c))(pid := None)"
    using ag c' di by (auto simp: agree_def)
  have tin: "seg_in d ?t" by (rule coll_okD(4) [OF okd dd])
  then have tok: "seg_ok ?t" by (simp add: seg_in_def)
  have pn: "p < sg_nextPos (cl_segs c ! di)" using pl(1) by (simp add: live_slot_def)
  have tn: "sg_nextPos ?t = sg_nextPos (cl_segs c ! di)" "sg_seqNum ?t = q" "bit_at (sg_tomb ?t) p" "p < sg_nextPos ?t"
    using st t(3,8,11) pn sq by (simp_all add: seg_agree_def)
  note u = untombstone_ok [OF tok tn(4,3)]
  have dird: "cl_dirOf d q = Some di" using coll_okD(5) [OF okd, of q di] dd tn(2) by simp
  define d' where "d' = undo_coll (UndoDelete k pid q p) d"
  have sel: "cl_segs d' = (cl_segs d)[di := untombstone p ?t]" "id_fwd (cl_idmap d') = (id_fwd (cl_idmap d))(pid \<mapsto> (q, p))"
    "cl_dirOf d' = cl_dirOf d" "cl_openIdx d' = cl_openIdx d" "cl_capacity d' = cl_capacity d" "cl_codec d' = cl_codec d"
    "cl_stride d' = cl_stride d" "cl_dims d' = cl_dims d" "cl_nextSeq d' = cl_nextSeq d" "cl_meta d' = cl_meta d"
    using dird by (simp_all add: d'_def Let_def on_seg_def upd_seg_def reassign_def untombstone_def)
  have bk: "sg_backward ?t ! p = pid" using st pn pl(2) t(7,8) by (simp add: seg_agree_def)
  have ok': "coll_ok d'"
  proof (rule coll_ok_upd [OF okd dd _ _ _ sel(1) refl sel(3-9)])
    show "seg_in d (untombstone p ?t)" using tin u(1) by (simp add: seg_in_def)
    show "id_fwd (cl_idmap d') pid' = Some (q', p') \<longleftrightarrow> (if q' = sg_seqNum (untombstone p ?t)
        then live_slot (untombstone p ?t) p' \<and> sg_backward (untombstone p ?t) ! p' = pid'
        else id_fwd (cl_idmap d) pid' = Some (q', p'))" for pid' q' p'
    proof -
      have old: "id_fwd (cl_idmap d) pid' = Some (q, p') \<longleftrightarrow> live_slot ?t p' \<and> sg_backward ?t ! p' = pid'"
        using coll_okD(7) [OF okd, of pid' q p'] placed_seg [OF okd dd, of pid' p'] tn(2) by simp
      have nl: "\<not> live_slot ?t p" using tn(3) by (simp add: live_slot_iff [OF tok])
      show ?thesis
      proof (cases "pid' = pid")
        case True
        then have "\<not> (live_slot ?t p' \<and> sg_backward ?t ! p' = pid)" using old fd by simp
        then show ?thesis using True sel(2) u(3) bk tn(2) fd by auto
      next
        case False
        then show ?thesis using sel(2) old u(3) bk tn(2) by auto
      qed
    qed
  qed simp
  have sa: "seg_agree (cl_segs c ! di) (untombstone p ?t)"
  proof -
    have "bit_at (sg_tomb (untombstone p ?t)) x = bit_at (sg_tomb (cl_segs c ! di)) x \<and>
        sg_backward (untombstone p ?t) ! x = sg_backward (cl_segs c ! di) ! x \<and>
        sg_version (untombstone p ?t) ! x = sg_version (cl_segs c ! di) ! x \<and>
        seg_FetchVector (untombstone p ?t) x = seg_FetchVector (cl_segs c ! di) x"
      if "x < sg_nextPos (cl_segs c ! di)" for x
      using st that u(2) [of x] t(5-11) pl(1) tn(1)
      by (auto simp: seg_agree_def seg_FetchVector_def live_slot_iff [OF sok])
    then show ?thesis using tn sq by (simp add: seg_agree_def)
  qed
  have "agree c d'"
  proof (rule agree_upd [OF ag ok' _ sel(1)])
    show "id_fwd (cl_idmap d') = id_fwd (cl_idmap c)" using sel(2) fd f by (simp add: fun_upd_idem)
    show "cl_segs c = (cl_segs c')[di := cl_segs c ! di]" using c'(1) di by simp
    show "row_get c (sg_seqNum (cl_segs c ! dj)) x = row_get c' (sg_seqNum (cl_segs c ! dj)) x" for dj x
      using row_get_cong [OF c'(3)] by simp
  qed (use di c' ok sa sel(5,10) t sq in auto)
  then show ?thesis by (simp add: d'_def)
qed

section \<open>One operation and its undo\<close>

lemma ensureOpen_agree:
  assumes ok: "coll_ok c" and room: "cl_nextSeq c \<noteq> - 1" and e: "ensureOpen c = (c1, di)"
  shows "agree c c1"
proof -
  note o = ensureOpen_ok [OF ok room e]
  have new: "sg_nextPos (newSegment q el dm st cp cd) = 0" for q el dm st cp cd by (simp add: newSegment_def)
  have sl: "seg_agree s (s\<lparr>sg_sealed := b\<rparr>)" "seg_agree s s" for s b by (simp_all add: seg_agree_def)
  have up: "seg_agree (xs ! dj) (xs[x := (xs ! x)\<lparr>sg_sealed := b\<rparr>] ! dj)" for xs :: "segment list" and x dj b
    using sl by (cases "x = dj"; cases "x < length xs") (simp_all add: list_update_beyond)
  have segs: "length (cl_segs c) \<le> length (cl_segs c1) \<and>
      (\<forall>dj < length (cl_segs c). seg_agree (cl_segs c ! dj) (cl_segs c1 ! dj)) \<and>
      (\<forall>dj < length (cl_segs c1). length (cl_segs c) \<le> dj \<longrightarrow> sg_nextPos (cl_segs c1 ! dj) = 0)"
    using e new sl up unfolding ensureOpen_eq
    by (auto simp: add_segment_def Let_def upd_seg_def nth_append less_Suc_eq
        split: option.splits if_splits)
  have "row_get c1 = row_get c" by (rule row_get_cong [OF o(6)])
  then show ?thesis using ok o(1,5,7) segs by (simp add: agree_def)
qed

lemma taken_back_agree:
  assumes ok: "coll_ok c" and di: "di < length (cl_segs c)" and room: "\<not> full (cl_segs c ! di)"
    and vec: "of_nat (length vec) = cl_dims c" and new: "id_fwd (cl_idmap c) pid = None"
    and ap: "seg_append conv (cl_segs c ! di) pid vec 0 = (s, pos)"
    and m: "writeRow (cl_meta c) (sg_seqNum s) pos cap row = (m, err)"
    and c': "c' = (upd_seg di (\<lambda>_. unappend s) c)\<lparr>cl_meta := m\<rparr>"
  shows "agree c c'"
proof -
  have sin: "seg_in c (cl_segs c ! di)" by (rule coll_okD(4) [OF ok di])
  then have sok: "seg_ok (cl_segs c ! di)" and cd: "sg_codec (cl_segs c ! di) = cl_codec c" by (simp_all add: seg_in_def)
  have vl: "codec_dims (sg_codec (cl_segs c ! di)) \<le> length vec"
    using coll_okD(3) [OF ok] dims_le_length [OF vec] cd by simp
  note a = append_ok [OF sok room vl ap]
  have sa: "seg_agree (cl_segs c ! di) (unappend s)"
    using a(2,4,5,7,8,13,15) fetch_unappend [of _ s] by (auto simp: seg_agree_def nth_list_update) (simp_all add: unappend_def)
  have nth: "cl_segs c' ! j = (if j = di then unappend s else cl_segs c ! j)" for j
    using c' di by (simp add: upd_seg_def nth_list_update)
  have rows: "row_get c' (sg_seqNum (cl_segs c ! j)) p = row_get c (sg_seqNum (cl_segs c ! j)) p"
    if j: "j < length (cl_segs c)" "p < sg_nextPos (cl_segs c ! j)" for j p
  proof -
    have "(sg_seqNum (cl_segs c ! j), p) \<noteq> (sg_seqNum s, pos)"
      using j seq_unique [OF ok j(1) di] a(2,8) by auto
    then show ?thesis using writeRow_reads(1) [OF m] c' by (intro ext) (simp add: row_get_read_cell)
  qed
  have "seg_agree x x" for x by (simp add: seg_agree_def)
  then show ?thesis
    using ok append_taken_back(1) [OF ok di room vec new ap m c'] sa nth rows c' by (simp add: agree_def upd_seg_def)
qed

text \<open>An operation registers at most one undo entry, and running it brings any collection that
  agrees with the result back to one that agrees with the start.\<close>

definition undoable :: "collection \<Rightarrow> txn \<Rightarrow> collection \<Rightarrow> txn \<Rightarrow> bool" where
  "undoable c t c' t' \<longleftrightarrow> coll_ok c' \<and>
     (\<exists>us. tx_undo t' = tx_undo t @ us \<and> (\<forall>d. agree c' d \<longrightarrow> agree c (fold undo_coll (rev us) d))) \<and>
     tx_write t' = tx_write t \<and> tx_done t' = tx_done t"

lemma undoable_refl: "coll_ok c \<Longrightarrow> undoable c t c t"
  by (simp add: undoable_def)

lemma undoable_trans:
  assumes "undoable c t c1 t1" and "undoable c1 t1 c2 t2"
  shows "undoable c t c2 t2"
proof -
  obtain us vs where us: "tx_undo t1 = tx_undo t @ us" "\<forall>d. agree c1 d \<longrightarrow> agree c (fold undo_coll (rev us) d)"
    and vs: "tx_undo t2 = tx_undo t1 @ vs" "\<forall>d. agree c2 d \<longrightarrow> agree c1 (fold undo_coll (rev vs) d)"
    using assms by (auto simp: undoable_def)
  have "tx_undo t2 = tx_undo t @ (us @ vs)" "\<forall>d. agree c2 d \<longrightarrow> agree c (fold undo_coll (rev (us @ vs)) d)"
    using us vs by simp_all
  then show ?thesis using assms unfolding undoable_def by metis
qed

lemma appendPoint_undoable:
  assumes ok: "coll_ok c" and room: "cl_nextSeq c \<noteq> - 1" and r: "appendPoint conv t c k pid vec row = (c', t', r)"
  shows "undoable c t c' t'"
  using assms
proof (cases rule: appendPoint_run)
  case (early err)
  then show ?thesis using ok by (simp add: undoable_refl)
next
  case (rolled c1 di s pos m err)
  note o = ensureOpen_ok [OF ok room rolled(1)]
  have ag: "agree c c'"
    using agree_trans [OF ensureOpen_agree [OF ok room rolled(1)] taken_back_agree [OF o(1,2,3) rolled(2-6)]] .
  then have "coll_ok c'" by (simp add: agree_def)
  then show ?thesis using rolled(7) agree_trans [OF ag] by (auto simp: undoable_def)
next
  case (kept c1 di s pos m im)
  note o = ensureOpen_ok [OF ok room kept(1)]
  have "agree c (undo_coll (UndoAppend k pid (sg_seqNum s) pos) d)" if "agree c' d" for d
    using agree_trans [OF ensureOpen_agree [OF ok room kept(1)] undo_append_agree [OF o(1,2,3) kept(2-7) that]] .
  then show ?thesis
    using append_kept(1) [OF o(1,2,3) kept(2-7)] kept(8) by (auto simp: undoable_def)
qed

lemma delete_undoable:
  assumes ok: "coll_ok c" and r: "delete_point t c k pid = (c', t', r)"
  shows "undoable c t c' t'" and "cl_nextSeq c' = cl_nextSeq c"
proof -
  show "undoable c t c' t'"
    using ok r
  proof (cases rule: delete_point_cases)
    case absent
    then show ?thesis using ok by (simp add: undoable_refl)
  next
    case (deleted q p)
    obtain di where di: "cl_dirOf c q = Some di" by (rule fwd_place [OF ok deleted(1)])
    have sel: "cl_segs c' = (cl_segs c)[di := seg_tombstone (cl_segs c ! di) p]" "cl_meta c' = cl_meta c"
      "cl_capacity c' = cl_capacity c"
      using r deleted(1,2) di
      by (auto simp: delete_point_def ForwardLookup_def segBySeq_def id_tombstone_def upd_seg_def bump_writes_def)
    have fw: "id_fwd (cl_idmap c') = (id_fwd (cl_idmap c))(pid := None)"
      using deleted(1,6) by (simp add: id_tombstone_def)
    have "agree c (undo_coll (UndoDelete k pid q p) d)" if "agree c' d" for d
      by (rule undo_delete_agree [OF ok deleted(1) di deleted(3) sel(1) fw sel(2,3) that])
    then show ?thesis using deleted(3,4) by (auto simp: undoable_def)
  qed
  show "cl_nextSeq c' = cl_nextSeq c"
    using r by (auto simp: delete_point_def upd_seg_def bump_writes_def Let_def split: sum.splits option.splits prod.splits)
qed

section \<open>Aborting a transaction\<close>

lemma unat_all_ones: "unat (- 1 :: u32) = 4294967295"
  by (simp add: unsigned_minus_1_eq_mask mask_eq_exp_minus_1)

text \<open>The writes of a transaction on one collection, run in order whatever they return.\<close>

datatype write_op = InsertOp PointID "f32 list" MetaRow | DeleteOp PointID

fun run_write :: "(f32 \<Rightarrow> int) \<Rightarrow> u64 \<Rightarrow> write_op \<Rightarrow> Engine \<times> txn \<Rightarrow> Engine \<times> txn" where
  "run_write conv k (InsertOp pid vec row) (e, t) = (case Insert conv e t k pid vec row of (e', t', _) \<Rightarrow> (e', t'))"
| "run_write conv k (DeleteOp pid) (e, t) = (case Delete e t k pid of (e', t', _) \<Rightarrow> (e', t'))"

lemma run_write_step:
  assumes e: "en_colls e k = Some c" and ok: "coll_ok c" and room: "cl_nextSeq c \<noteq> - 1"
    and r: "run_write conv k op (e, t) = (e', t')"
  obtains c' where "e' = put_coll e k c'" and "undoable c t c' t'"
    and "cl_nextSeq c' = cl_nextSeq c \<or> cl_nextSeq c' = cl_nextSeq c + 1"
proof (cases op)
  case (InsertOp pid vec row)
  obtain c' t'' x where a: "appendPoint conv t c k pid vec row = (c', t'', x)" by (metis prod_cases3)
  show thesis
    using r InsertOp e a appendPoint_undoable [OF ok room a] appendPoint_nextSeq [OF a]
    by (intro that [of c']) (simp_all add: Insert_def)
next
  case (DeleteOp pid)
  obtain c' t'' x where a: "delete_point t c k pid = (c', t'', x)" by (metis prod_cases3)
  show thesis
    using r DeleteOp e a delete_undoable [OF ok a] by (intro that [of c']) (simp_all add: Delete_def)
qed

lemma run_writes_undoable:
  assumes "en_colls e k = Some c" and "coll_ok c" and "unat (cl_nextSeq c) + length ops < 2 ^ 32"
    and "fold (run_write conv k) ops (e, t) = (e', t')"
  shows "\<exists>c'. e' = e\<lparr>en_colls := (en_colls e)(k \<mapsto> c')\<rparr> \<and> undoable c t c' t'"
  using assms
proof (induction ops arbitrary: e t c)
  case Nil
  then have "e' = e" "t' = t" by simp_all
  moreover have "e = e\<lparr>en_colls := (en_colls e)(k \<mapsto> c)\<rparr>" using Nil(1) by (simp add: fun_upd_idem)
  ultimately show ?case using undoable_refl [OF Nil(2)] by metis
next
  case (Cons op ops)
  have bnd: "Suc (unat (cl_nextSeq c)) < 2 ^ 32" using Cons(4) by simp
  have room: "cl_nextSeq c \<noteq> - 1" using bnd unat_all_ones by auto
  obtain e1 t1 where s: "run_write conv k op (e, t) = (e1, t1)" by fastforce
  obtain c1 where c1: "e1 = put_coll e k c1" "undoable c t c1 t1"
      "cl_nextSeq c1 = cl_nextSeq c \<or> cl_nextSeq c1 = cl_nextSeq c + 1"
    by (rule run_write_step [OF Cons(2,3) room s])
  have "unat (cl_nextSeq c + 1) = Suc (unat (cl_nextSeq c))"
    using bnd by (simp add: unat_word_ariths)
  then have "unat (cl_nextSeq c1) + length ops < 2 ^ 32" using c1(3) Cons(4) by auto
  moreover have "en_colls e1 k = Some c1" "coll_ok c1" using c1(1,2) by (simp_all add: put_coll_def undoable_def)
  moreover have "fold (run_write conv k) ops (e1, t1) = (e', t')" using Cons(5) s by simp
  ultimately obtain c' where "e' = e1\<lparr>en_colls := (en_colls e1)(k \<mapsto> c')\<rparr>" "undoable c1 t1 c' t'"
    using Cons(1) by blast
  moreover have "e1\<lparr>en_colls := (en_colls e1)(k \<mapsto> c')\<rparr> = e\<lparr>en_colls := (en_colls e)(k \<mapsto> c')\<rparr>" for c'
    using c1(1) by (simp only: put_coll_def) (simp add: fun_eq_iff)
  ultimately show ?case using undoable_trans [OF c1(2)] by metis
qed

lemma run_undo_coll:
  assumes "\<forall>u \<in> set us. undo_key u = k"
  shows "fold run_undo us (e\<lparr>en_colls := (en_colls e)(k \<mapsto> c)\<rparr>) =
    e\<lparr>en_colls := (en_colls e)(k \<mapsto> fold undo_coll us c)\<rparr>"
  using assms by (induction us arbitrary: c) (simp_all add: run_undo_def on_coll_def)

lemma run_write_keys:
  assumes "run_write conv k op (e, t) = (e', t')" and "\<forall>u \<in> set (tx_undo t). undo_key u = k"
  shows "\<forall>u \<in> set (tx_undo t'). undo_key u = k"
proof -
  have ap: "\<forall>u \<in> set (tx_undo t'). undo_key u = k" if "appendPoint conv t c k pid vec row = (c', t', x)" for c pid vec row c' x
    using that assms(2) by (auto simp: appendPoint_def Let_def split: if_splits sum.splits option.splits prod.splits)
  have dp: "\<forall>u \<in> set (tx_undo t'). undo_key u = k" if "delete_point t c k pid = (c', t', x)" for c pid c' x
    using that assms(2) by (auto simp: delete_point_def Let_def split: if_splits sum.splits option.splits prod.splits)
  show ?thesis
    using assms ap dp by (cases op) (auto simp: Insert_def Delete_def split: option.splits prod.splits)
qed

lemma run_writes_keys:
  assumes "fold (run_write conv k) ops (e, t) = (e', t')" and "\<forall>u \<in> set (tx_undo t). undo_key u = k"
  shows "\<forall>u \<in> set (tx_undo t'). undo_key u = k"
  using assms
proof (induction ops arbitrary: e t)
  case (Cons op ops)
  obtain e1 t1 where s: "run_write conv k op (e, t) = (e1, t1)" by fastforce
  show ?case using Cons(1) [OF _ run_write_keys [OF s Cons(3)]] Cons(2) s by simp
qed simp

lemma agree_lookup:
  assumes "agree c c'"
  shows "lookup_id c' pid = lookup_id c pid"
proof (cases "id_fwd (cl_idmap c) pid")
  case None
  then show ?thesis using assms by (simp add: agree_def lookup_id_def ForwardLookup_def)
next
  case (Some l)
  obtain q p where l: "l = (q, p)" by fastforce
  have ok: "coll_ok c" "coll_ok c'" using assms by (simp_all add: agree_def)
  obtain di where di: "cl_dirOf c q = Some di" "di < length (cl_segs c)" "sg_seqNum (cl_segs c ! di) = q"
    by (rule fwd_place [OF ok(1) Some [unfolded l]]) auto
  have "cl_dirOf c' q = Some di"
    using assms di coll_okD(5) [OF ok(2), of q di] by (auto simp: agree_def seg_agree_def)
  then show ?thesis
    using assms di Some l by (simp add: agree_def lookup_id_def ForwardLookup_def segBySeq_def colPos_def)
qed

lemma abort_agree:
  assumes "en_colls e k = Some c" and "coll_ok c" and "unat (cl_nextSeq c) + length ops < 2 ^ 32"
    and "Begin e True = Some (e1, t1)"
    and "fold (run_write conv k) ops (e1, t1) = (e2, t2)"
    and "txn_Abort e2 t2 = (e3, t3, err)"
  obtains c2 where "en_colls e2 k = Some c2" and "agree c (fold undo_coll (rev (tx_undo t2)) c2)"
    and "e3 = e1\<lparr>en_colls := (en_colls e)(k \<mapsto> fold undo_coll (rev (tx_undo t2)) c2), en_writerLocked := False\<rparr>" and "err = None"
proof -
  have b: "en_colls e1 = en_colls e" "tx_write t1" "\<not> tx_done t1" "tx_undo t1 = []"
    using assms(4) by (auto simp: Begin_def Let_def split: if_splits prod.splits)
  have k1: "en_colls e1 k = Some c" using assms(1) b(1) by simp
  obtain c2 where c2: "e2 = e1\<lparr>en_colls := (en_colls e1)(k \<mapsto> c2)\<rparr>" "undoable c t1 c2 t2"
    using run_writes_undoable [OF k1 assms(2,3,5)] by blast
  have ag: "agree c (fold undo_coll (rev (tx_undo t2)) c2)" and w: "tx_write t2" "\<not> tx_done t2"
    using c2(2) b agree_refl by (auto simp: undoable_def)
  have "\<forall>u \<in> set (rev (tx_undo t2)). undo_key u = k" using run_writes_keys [OF assms(5)] b(4) by simp
  note u = run_undo_coll [OF this, of e1 c2]
  show thesis
    by (rule that [OF _ ag]) (use assms(6) w u c2(1) b(1) in \<open>auto simp: txn_Abort_def Let_def\<close>)
qed

text \<open>C6: aborting a write transaction takes back everything it did.  However many inserts and
  deletes it ran, and whichever of them failed, the collection afterwards stores the same
  points with the same vectors, commit stamps and metadata, finds them at the same positions,
  keeps its invariant and frees the writer lock.\<close>

theorem abort_restores:
  assumes "en_colls e k = Some c" and "coll_ok c" and "unat (cl_nextSeq c) + length ops < 2 ^ 32"
    and "Begin e True = Some (e1, t1)"
    and "fold (run_write conv k) ops (e1, t1) = (e2, t2)"
    and "txn_Abort e2 t2 = (e3, t3, err)"
  shows "err = None \<and> \<not> en_writerLocked e3 \<and> (\<forall>j. j \<noteq> k \<longrightarrow> en_colls e3 j = en_colls e j) \<and>
    (\<exists>c3. en_colls e3 k = Some c3 \<and> coll_ok c3 \<and>
       (\<forall>pid. stored c3 pid = stored c pid \<and> lookup_id c3 pid = lookup_id c pid))"
proof -
  obtain c2 where c2: "agree c (fold undo_coll (rev (tx_undo t2)) c2)"
      "e3 = e1\<lparr>en_colls := (en_colls e)(k \<mapsto> fold undo_coll (rev (tx_undo t2)) c2), en_writerLocked := False\<rparr>" "err = None"
    by (rule abort_agree [OF assms])
  show ?thesis using c2(2,3) c2(1) agree_stored [OF c2(1)] agree_lookup [OF c2(1)] by (simp add: agree_def)
qed

lemma computeStride_bound:
  assumes "elem_rawBytes el dims < 2 ^ 32 - 32"
  shows "elem_rawBytes el dims \<le> unat (computeStride el dims)"
proof -
  let ?r = "elem_rawBytes el dims" and ?a = "elemAlign el"
  have a: "0 < ?a" "?a \<le> 32" by (cases el; simp)+
  have d: "(?r + ?a - 1) div ?a * ?a = ?r + ?a - 1 - (?r + ?a - 1) mod ?a" by (rule minus_mod_eq_div_mult [symmetric])
  have m: "(?r + ?a - 1) mod ?a \<le> ?a - 1" using mod_less_divisor [OF a(1), of "?r + ?a - 1"] by linarith
  have "?r \<le> (?r + ?a - 1) div ?a * ?a" "(?r + ?a - 1) div ?a * ?a < 2 ^ 32"
    using d m a assms by linarith+
  moreover have "unat (of_nat n :: u32) = n" if "n < 2 ^ 32" for n using that by (simp add: unat_of_nat)
  ultimately show ?thesis by (simp only: computeStride_def Let_def)
qed

lemma newCollection_ok:
  assumes "newCollection d = Some c" and raw: "elem_rawBytes (df_Elem d) (df_Dims d) < 2 ^ 32 - 32"
  shows "coll_ok c" and "cl_nextSeq c = 0" and "cl_segs c = []" and "id_fwd (cl_idmap c) = Map.empty"
proof -
  obtain cp where cp: "segCapacity d (computeStride (df_Elem d) (df_Dims d)) = Some cp"
    using assms(1) by (auto simp: newCollection_def Let_def split: option.splits)
  have "cp \<noteq> 0" using cp by (auto simp: segCapacity_def Let_def split: if_splits)
  then have c0: "0 < unat cp" by (simp add: unat_gt_0)
  have lt: "unat cp < 2 ^ 32" using unsigned_less [of cp] by simp
  have rb: "rawBytes (codecFor (df_Elem d) (df_Dims d) (df_Int8Scale d)) = elem_rawBytes (df_Elem d) (df_Dims d)"
    "codec_dims (codecFor (df_Elem d) (df_Dims d) (df_Int8Scale d)) = unat (df_Dims d)"
    by (cases "df_Elem d"; simp add: codecFor_def)+
  show "cl_nextSeq c = 0" and "cl_segs c = []" and "id_fwd (cl_idmap c) = Map.empty"
    using assms(1) cp by (auto simp: newCollection_def newIDMap_def)
  show "coll_ok c"
    using assms(1) cp c0 lt rb computeStride_bound [OF raw]
    by (auto simp: newCollection_def coll_ok_def newIDMap_def placed_def)
qed

definition demo_def :: CollectionDef where
  "demo_def = \<lparr>df_ID = 1, df_Name = ''docs'', df_Dims = 2, df_Elem = ElemFP32, df_Metric = 0,
     df_Columns = [], df_SegmentCapacity = 2, df_Int8Scale = 0\<rparr>"

definition demo_coll :: collection where "demo_coll = the (newCollection demo_def)"

definition demo_engine :: Engine where "demo_engine = put_coll NewEngine 1 demo_coll"

definition demo_ops :: "write_op list" where
  "demo_ops = [InsertOp 7 [f32_one, 0] [], InsertOp 7 [0, 0] [], InsertOp 8 [0, f32_one] [], DeleteOp 7,
     InsertOp 9 [f32_one] [], InsertOp 7 [f32_one, f32_one] [], DeleteOp 99]"

lemma demo_coll_ok: "coll_ok demo_coll" "cl_nextSeq demo_coll = 0"
proof -
  have "newCollection demo_def = Some demo_coll"
    by (simp add: demo_coll_def newCollection_def segCapacity_def demo_def_def Let_def)
  from newCollection_ok(1,2) [OF this] show "coll_ok demo_coll" "cl_nextSeq demo_coll = 0"
    by (simp_all add: demo_def_def)
qed

theorem abort_restores_witness:
  "\<exists>e1 t1 e2 t2 e3 t3 err. Begin demo_engine True = Some (e1, t1) \<and>
     fold (run_write (\<lambda>_. 0) 1) demo_ops (e1, t1) = (e2, t2) \<and> txn_Abort e2 t2 = (e3, t3, err) \<and>
     err = None \<and> \<not> en_writerLocked e3 \<and>
     (\<exists>c3. en_colls e3 1 = Some c3 \<and> (\<forall>pid. stored c3 pid = stored demo_coll pid))"
proof -
  obtain e1 t1 where b: "Begin demo_engine True = Some (e1, t1)"
    by (cases "NextTxn (NewClock 1)") (simp add: Begin_def demo_engine_def put_coll_def NewEngine_def Let_def)
  obtain e2 t2 where w: "fold (run_write (\<lambda>_. 0) 1) demo_ops (e1, t1) = (e2, t2)" by fastforce
  obtain e3 t3 err where a: "txn_Abort e2 t2 = (e3, t3, err)" by (metis prod_cases3)
  have k: "en_colls demo_engine 1 = Some demo_coll" by (simp add: demo_engine_def put_coll_def)
  have n: "unat (cl_nextSeq demo_coll) + length demo_ops < 2 ^ 32" by (simp add: demo_coll_ok(2) demo_ops_def)
  show ?thesis using abort_restores [OF k demo_coll_ok(1) n b w a] b w a by blast
qed

end
