(* ===== verification/Storage_Filter.thy ===== *)
theory Storage_Filter
  imports Storage_Txn
begin

text \<open>
  Metadata filters.  Every write folds its value into the zone map of its block, so the blocks
  a filter skips hold no match and the bitmap it returns has exactly the positions a scan of
  every slot would give.
\<close>

section \<open>Zone maps of a column\<close>

definition zone_block :: "ZoneMap \<Rightarrow> nat \<Rightarrow> ZoneBlock" where
  "zone_block z i = (if i < length z then z ! i else zero_block)"

lemma zone_block_fold:
  "zone_block (fold_zone s v z) i =
    (if i = unat s div zoneBlockSize then fold_block v (zone_block z i) else zone_block z i)"
  by (auto simp: zone_block_def fold_zone_def Let_def nth_append nth_list_update)

text \<open>Every value of a column segment lies between the bounds of its block, and no block
  counts more than \<^term>\<open>n\<close> values.\<close>

definition seg_zoned :: "ColType \<Rightarrow> nat \<Rightarrow> colSegment \<Rightarrow> bool" where
  "seg_zoned t n cs \<longleftrightarrow>
     (\<forall>i. block_ok t (zone_block (cg_zone cs) i) \<and> unat (zb_Count (zone_block (cg_zone cs) i)) \<le> n) \<and>
     (\<forall>p. covers t (zone_block (cg_zone cs) (p div zoneBlockSize)) (col_readAt cs p))"

definition zoned :: "nat \<Rightarrow> column \<Rightarrow> bool" where
  "zoned n col \<longleftrightarrow> (\<forall>q cs. co_segs col q = Some cs \<longrightarrow> seg_zoned (cd_Type (co_def col)) n cs)"

lemma empty_zoned: "cg_vals cs = [] \<Longrightarrow> cg_zone cs = [] \<Longrightarrow> seg_zoned t n cs"
  by (simp add: seg_zoned_def zone_block_def covers_def IsNull_def zero_block_def block_ok_def)

lemma count_fold_block: "unat (zb_Count (fold_block v blk)) \<le> Suc (unat (zb_Count blk))"
  by (auto simp: fold_block_def Let_def unat_word_ariths)

lemma seg_zoned_write:
  assumes z: "seg_zoned t n cs" and v: "IsNull v \<or> plain t v" and p: "p < 2 ^ 32" and n: "n < 2 ^ 32 - 1"
  shows "seg_zoned t (Suc n) (col_writeAt cs p v)"
proof -
  let ?z = "zone_block (cg_zone cs)" and ?b = "p div zoneBlockSize"
  have up: "unat (of_nat p :: u32) = p" using p by (simp add: unat_of_nat)
  have zb: "zone_block (cg_zone (col_writeAt cs p v)) i = (if i = ?b then fold_block v (?z i) else ?z i)" for i
    by (simp add: col_writeAt_def zone_block_fold up)
  have old: "block_ok t (?z i)" "unat (zb_Count (?z i)) \<le> n" "covers t (?z (q div zoneBlockSize)) (col_readAt cs q)" for i q
    using z by (simp_all add: seg_zoned_def)
  have ne: "zb_Count (?z i) \<noteq> - 1" for i using old(2) [of i] n unat_all_ones by auto
  have cnt: "unat (zb_Count (fold_block v (?z i))) \<le> Suc n" for i
    using count_fold_block [of v "?z i"] old(2) [of i] by simp
  have "covers t (zone_block (cg_zone (col_writeAt cs p v)) (q div zoneBlockSize)) (col_readAt (col_writeAt cs p v) q)" for q
    using fold_covers_new [OF old(1) v ne] fold_covers_old [OF old(3) v ne, of q] old(3) [of q]
    by (auto simp: zb read_col_writeAt)
  then show ?thesis
    using old(1,2) cnt fold_block_ok [OF old(1) v] by (auto simp: seg_zoned_def zb le_SucI)
qed

lemma zoned_write_cell:
  assumes "zoned n col" and "IsNull v \<or> plain (cd_Type (co_def col)) v" and "p < 2 ^ 32" and "n < 2 ^ 32 - 1"
  shows "zoned (Suc n) (write_cell col q p cap v)"
proof -
  have "seg_zoned (cd_Type (co_def col)) n (col_segment col q cap)"
    using assms(1) by (auto simp: zoned_def col_segment_def empty_zoned split: option.split)
  note w = seg_zoned_write [OF this assms(2-4)]
  have "seg_zoned t n cs \<Longrightarrow> seg_zoned t (Suc n) cs" for t cs by (auto simp: seg_zoned_def le_SucI)
  then show ?thesis using assms(1) w by (auto simp: zoned_def write_cell_def)
qed

lemma zoned_mono: "zoned n col \<Longrightarrow> zoned (Suc n) col"
  by (fastforce simp: zoned_def seg_zoned_def le_SucI)

section \<open>Histories of writes\<close>

text \<open>The two ways the engine writes metadata: a whole row, or one cell.\<close>

datatype meta_write = RowWrite u32 nat nat MetaRow | CellWrite ColID u32 nat nat Value

fun run_meta :: "meta_write \<Rightarrow> metadataStore \<Rightarrow> metadataStore" where
  "run_meta (RowWrite q p cap row) m = fst (writeRow m q p cap row)"
| "run_meta (CellWrite k q p cap v) m = fst (ms_WriteAt m k q p cap v)"

definition no_nan :: "Value \<Rightarrow> bool" where
  "no_nan v = (case asFloat v of None \<Rightarrow> True | Some f \<Rightarrow> \<not> f64_nan f)"

fun clean :: "meta_write \<Rightarrow> bool" where
  "clean (RowWrite q p cap row) \<longleftrightarrow> p < 2 ^ 32 \<and> list_all (\<lambda>(k, v). no_nan v) row"
| "clean (CellWrite k q p cap v) \<longleftrightarrow> p < 2 ^ 32 \<and> no_nan v"

lemma plain_iff: "plain t v \<longleftrightarrow> valueMatchesType v t \<and> no_nan v"
  by (auto simp: plain_def no_nan_def split: option.split)

lemma no_nan_cell_of: "list_all (\<lambda>(k, v). no_nan v) row \<Longrightarrow> no_nan (cell_of row k)"
  by (auto simp: cell_of_def list_all_iff no_nan_def dest: map_of_SomeD split: option.splits)

lemma write_cols_zoned:
  assumes "\<forall>(k, col) \<in> set m. zoned n col" and "p < 2 ^ 32" and "n < 2 ^ 32 - 1"
    and "list_all (\<lambda>(k, v). no_nan v) row"
  shows "\<forall>(k, col) \<in> set (fst (write_cols q p cap row m)). zoned (Suc n) col"
  using assms(1)
proof (induction m)
  case (Cons x m)
  obtain k col where x: "x = (k, col)" by fastforce
  show ?case
    using Cons x zoned_write_cell [OF _ _ assms(2,3)] no_nan_cell_of [OF assms(4), of k]
    by (auto simp: Let_def plain_iff zoned_mono split: prod.splits)
qed simp

lemma find_append: "find P (xs @ ys) = (case find P xs of None \<Rightarrow> find P ys | Some x \<Rightarrow> Some x)"
  by (induction xs) auto

lemma update_all: "P y \<Longrightarrow> \<forall>(k, x) \<in> set m. P x \<Longrightarrow> \<forall>(k, x) \<in> set (AList.update j y m). P x"
  by (induction m) auto

lemma run_meta_zoned:
  assumes z: "\<forall>(k, col) \<in> set m. zoned n col" and c: "clean w" and n: "n < 2 ^ 32 - 1"
  shows "\<forall>(k, col) \<in> set (run_meta w m). zoned (Suc n) col"
proof (cases w)
  case (RowWrite q p cap row)
  then show ?thesis
    using write_cols_zoned [OF z _ n, of p row q cap] c
    by (auto simp: writeRow_def split: prod.splits option.splits)
next
  case (CellWrite k q p cap v)
  show ?thesis
  proof (cases "snd (ms_WriteAt m k q p cap v)")
    case None
    then obtain col where col: "map_of m k = Some col" "IsNull v \<or> valueMatchesType v (cd_Type (co_def col))"
      by (auto simp: ms_WriteAt_def split: option.splits if_splits)
    have "zoned n col" using z map_of_SomeD [OF col(1)] by auto
    then have "zoned (Suc n) (write_cell col q p cap v)"
      using zoned_write_cell [of n col v p q cap] col(2) c CellWrite n by (auto simp: plain_iff)
    moreover have "\<forall>(k, col) \<in> set m. zoned (Suc n) col" using z zoned_mono by blast
    ultimately have "\<forall>(j, col) \<in> set (AList.update k (write_cell col q p cap v) m). zoned (Suc n) col"
      by (rule update_all)
    then show ?thesis using CellWrite col by (auto simp: ms_WriteAt_def)
  next
    case (Some e)
    then show ?thesis using CellWrite z by (auto simp: ms_WriteAt_def intro: zoned_mono split: option.splits if_splits)
  qed
qed

lemma new_store_all:
  assumes P: "\<And>d. P \<lparr>co_def = d, co_segs = Map.empty\<rparr>"
  shows "\<forall>(k, col) \<in> set (newMetadataStore defs). P col"
proof -
  have "\<forall>(k, col) \<in> set (fold (\<lambda>d m. AList.update (cd_ID d) \<lparr>co_def = d, co_segs = Map.empty\<rparr> m) defs m). P col"
    if "\<forall>(k, col) \<in> set m. P col" for m
    using that
  proof (induction defs arbitrary: m)
    case (Cons d defs)
    from Cons(1) [OF update_all [where P = P, OF P Cons(2)]] show ?case by simp
  qed simp
  from this [of "[]"] show ?thesis by (simp add: newMetadataStore_def)
qed

lemma new_store_zoned: "\<forall>(k, col) \<in> set (newMetadataStore defs). zoned 0 col"
  by (rule new_store_all) (simp add: zoned_def)

lemma history_zoned:
  assumes "\<forall>w \<in> set ws. clean w" and "length ws < 2 ^ 32"
  shows "\<forall>(k, col) \<in> set (fold run_meta ws (newMetadataStore defs)). zoned (length ws) col"
  using assms
proof (induction ws rule: rev_induct)
  case Nil
  then show ?case using new_store_zoned by simp
next
  case (snoc w ws)
  then have "\<forall>(k, col) \<in> set (fold run_meta ws (newMetadataStore defs)). zoned (length ws) col" by simp
  from run_meta_zoned [OF this, of w] show ?case using snoc(2,3) by simp
qed

section \<open>Types\<close>

definition typed_col :: "column \<Rightarrow> bool" where
  "typed_col col \<longleftrightarrow> (\<forall>q cs. co_segs col q = Some cs \<longrightarrow>
     (\<forall>v \<in> set (cg_vals cs). IsNull v \<or> valueMatchesType v (cd_Type (co_def col))))"

lemma typed_write_cell:
  assumes "typed_col col" and "IsNull v \<or> valueMatchesType v (cd_Type (co_def col))"
  shows "typed_col (write_cell col q p cap v)"
proof -
  have "set (cg_vals (col_writeAt cs p v)) \<subseteq> insert v (insert NullValue (set (cg_vals cs)))" for cs
    unfolding col_writeAt_def by (auto dest!: set_update_subset_insert [THEN subsetD])
  moreover have "\<forall>v \<in> set (cg_vals (col_segment col q cap)). IsNull v \<or> valueMatchesType v (cd_Type (co_def col))"
    using assms(1) by (auto simp: typed_col_def col_segment_def split: option.split)
  moreover have "IsNull NullValue" by (simp add: IsNull_def)
  ultimately show ?thesis using assms by (fastforce simp: typed_col_def write_cell_def)
qed

text \<open>A write keeps the column definitions and the types of the cells.\<close>

definition col_def_at :: "metadataStore \<Rightarrow> ColID \<Rightarrow> ColumnDef option" where
  "col_def_at m k = map_option co_def (map_of m k)"

lemma co_def_write_cell [simp]: "co_def (write_cell col q p cap v) = co_def col"
  by (simp add: write_cell_def)

lemma fst_writeRow: "fst (writeRow m q p cap row) = fst (write_cols q p cap row m)"
  by (auto simp: writeRow_def split: prod.split option.split)

lemma run_meta_defs: "col_def_at (run_meta w m) k = col_def_at m k"
proof (cases w)
  case (RowWrite q p cap row)
  obtain m' err where w: "write_cols q p cap row m = (m', err)" by fastforce
  show ?thesis
    using map_of_write_cols(1) [OF w, of k] RowWrite w by (auto simp: col_def_at_def fst_writeRow option.map_comp comp_def)
next
  case (CellWrite j q p cap v)
  then show ?thesis by (auto simp: col_def_at_def ms_WriteAt_def update_conv' split: option.split)
qed

lemma run_meta_typed:
  assumes t: "\<forall>(k, col) \<in> set m. typed_col col"
  shows "\<forall>(k, col) \<in> set (run_meta w m). typed_col col"
proof (cases w)
  case (RowWrite q p cap row)
  have "\<forall>(k, col) \<in> set (fst (write_cols q p cap row m)). typed_col col"
    using t by (induction m) (auto simp: Let_def intro!: typed_write_cell split: prod.splits)
  then show ?thesis using RowWrite by (simp add: fst_writeRow)
next
  case (CellWrite k q p cap v)
  show ?thesis
  proof (cases "map_of m k")
    case (Some col)
    then have "typed_col col" using t map_of_SomeD [OF Some] by auto
    then have "\<forall>(j, c) \<in> set (AList.update k (write_cell col q p cap v) m). typed_col c"
      if "IsNull v \<or> valueMatchesType v (cd_Type (co_def col))"
      using update_all [where P = typed_col, OF typed_write_cell [OF _ that] t] by simp
    then show ?thesis using CellWrite Some t by (simp add: ms_WriteAt_def)
  qed (use CellWrite t in \<open>simp add: ms_WriteAt_def\<close>)
qed

lemma new_store_typed: "\<forall>(k, col) \<in> set (newMetadataStore defs). typed_col col"
  by (rule new_store_all) (simp add: typed_col_def)

lemma history_typed:
  "\<forall>(k, col) \<in> set (fold run_meta ws (newMetadataStore defs)). typed_col col"
  "col_def_at (fold run_meta ws (newMetadataStore defs)) k = col_def_at (newMetadataStore defs) k"
proof -
  show "\<forall>(k, col) \<in> set (fold run_meta ws (newMetadataStore defs)). typed_col col"
    using new_store_typed run_meta_typed by (induction ws rule: rev_induct) simp_all
  show "col_def_at (fold run_meta ws (newMetadataStore defs)) k = col_def_at (newMetadataStore defs) k"
    by (induction ws rule: rev_induct) (simp_all add: run_meta_defs)
qed

lemma new_store_defs: "col_def_at (newMetadataStore defs) k = find (\<lambda>d. cd_ID d = k) (rev defs)"
proof -
  have "col_def_at (fold (\<lambda>d m. AList.update (cd_ID d) \<lparr>co_def = d, co_segs = Map.empty\<rparr> m) defs m) k =
      (case find (\<lambda>d. cd_ID d = k) (rev defs) of None \<Rightarrow> col_def_at m k | Some d \<Rightarrow> Some d)" for m
    by (induction defs arbitrary: m) (auto simp: col_def_at_def update_conv' find_append split: option.split)
  from this [of "[]"] show ?thesis by (simp add: newMetadataStore_def col_def_at_def split: option.split)
qed

text \<open>C35: the metadata store is well typed.  After any sequence of row and cell writes, including
  refused ones, reading a cell fails exactly when no column has that id, and every value read
  is NULL or has the type the last definition of its column declares.\<close>

theorem metadata_typed:
  "case ms_ReadAt (fold run_meta ws (newMetadataStore defs)) k q p of
     Inl err \<Rightarrow> err = ErrUnknownColumn \<and> find (\<lambda>d. cd_ID d = k) (rev defs) = None
   | Inr v \<Rightarrow> (case find (\<lambda>d. cd_ID d = k) (rev defs) of
       None \<Rightarrow> False
     | Some d \<Rightarrow> IsNull v \<or> valueMatchesType v (cd_Type d))"
proof (cases "map_of (fold run_meta ws (newMetadataStore defs)) k")
  case None
  then have "col_def_at (newMetadataStore defs) k = None" using history_typed(2) [of ws defs k] by (simp add: col_def_at_def)
  then show ?thesis using None by (simp add: ms_ReadAt_def new_store_defs)
next
  case (Some col)
  then have "find (\<lambda>d. cd_ID d = k) (rev defs) = Some (co_def col)"
    using history_typed(2) [of ws defs k] new_store_defs [of defs k] by (simp add: col_def_at_def)
  moreover have "typed_col col" using history_typed(1) [of ws defs] map_of_SomeD [OF Some] by auto
  ultimately show ?thesis
    using Some by (auto simp: ms_ReadAt_def col_readAt_def typed_col_def IsNull_def split: option.split)
qed


lemma zoned_row_covered:
  assumes "\<forall>(k, col) \<in> set (cl_meta c). zoned n col"
  shows "row_covered (zoneMapsFor (cl_meta c) q) (p div zoneBlockSize) (row_get c q p)"
proof -
  have "covers (cd_Type (co_def col)) (cg_zone cs ! (p div zoneBlockSize)) (row_get c q p k)"
    if "map_of (cl_meta c) k = Some col" "co_segs col q = Some cs" "p div zoneBlockSize < length (cg_zone cs)" for k col cs
  proof -
    have "zoned n col" using assms map_of_SomeD [OF that(1)] by auto
    then have "covers (cd_Type (co_def col)) (zone_block (cg_zone cs) (p div zoneBlockSize)) (col_readAt cs p)"
      using that(2) by (auto simp: zoned_def seg_zoned_def)
    then show ?thesis using that by (simp add: row_get_def ms_ReadAt_def zone_block_def)
  qed
  then show ?thesis by (fastforce simp: row_covered_def zoneMapsFor_def split: option.splits)
qed

section \<open>The bitmap\<close>

text \<open>A step that adds a set of positions to a bitmap of a given capacity.\<close>

definition adds :: "u32 \<Rightarrow> (PositionBitmap \<Rightarrow> PositionBitmap) \<Rightarrow> nat set \<Rightarrow> bool" where
  "adds n f S \<longleftrightarrow> (\<forall>b. bm_ok b \<longrightarrow> bm_n b = n \<longrightarrow> bm_ok (f b) \<and> bm_n (f b) = n \<and> members (f b) = members b \<union> S)"

lemma adds_fold:
  assumes "\<And>x. x \<in> set xs \<Longrightarrow> adds n (f x) (S x)"
  shows "adds n (fold f xs) (\<Union>x \<in> set xs. S x)"
  using assms
proof (induction xs)
  case Nil
  then show ?case by (simp add: adds_def)
next
  case (Cons x xs)
  then have "adds n (f x) (S x)" "adds n (fold f xs) (\<Union>x \<in> set xs. S x)" by simp_all
  then show ?case by (simp add: adds_def Un_assoc)
qed

definition hit :: "collection \<Rightarrow> Predicate \<Rightarrow> Snapshot option \<Rightarrow> segment \<Rightarrow> nat \<Rightarrow> bool" where
  "hit c pred snap s p \<longleftrightarrow> visibleLive s p snap \<and> eval (row_get c (sg_seqNum s) p) pred"

definition hits :: "collection \<Rightarrow> Predicate \<Rightarrow> Snapshot option \<Rightarrow> nat \<Rightarrow> segment \<Rightarrow> nat set \<Rightarrow> u32 \<Rightarrow> nat set" where
  "hits c pred snap di s A n = {unat (colPos c di p) | p. p \<in> A \<and> hit c pred snap s p \<and> colPos c di p < n}"

lemma hits_UN: "(\<Union>x \<in> X. hits c pred snap di s (A x) n) = hits c pred snap di s (\<Union>x \<in> X. A x) n"
  by (auto simp: hits_def)

lemma bm_Set_n [simp]: "bm_n (bm_Set b p) = bm_n b"
  by (simp add: bm_Set_def)

lemma filter_slot_adds: "adds n (filter_slot c di s pred snap p) (hits c pred snap di s {p} n)"
  using Set_refines by (auto simp: adds_def filter_slot_def hits_def hit_def)

lemma filter_block_adds:
  assumes z: "\<forall>(k, col) \<in> set (cl_meta c). zoned m col"
  shows "adds n (filter_block c di s pred snap b)
    (hits c pred snap di s {b * zoneBlockSize ..< min (b * zoneBlockSize + zoneBlockSize) (sg_nextPos s)} n)"
proof (cases "blockSkippable pred (zoneMapsFor (cl_meta c) (sg_seqNum s)) b")
  case True
  have "\<not> hit c pred snap s p" if "b * zoneBlockSize \<le> p" "p < b * zoneBlockSize + zoneBlockSize" for p
  proof -
    have "p div zoneBlockSize = b" using that by (intro div_nat_eqI) (simp_all add: mult.commute)
    then show ?thesis
      using zoned_row_covered [OF z, of "sg_seqNum s" p] skippable_sound(1) True by (auto simp: hit_def)
  qed
  then have "hits c pred snap di s {b * zoneBlockSize ..< min (b * zoneBlockSize + zoneBlockSize) (sg_nextPos s)} n = {}"
    by (auto simp: hits_def)
  then show ?thesis using True by (simp add: adds_def filter_block_def)
next
  case False
  have "adds n (fold (filter_slot c di s pred snap) xs) (hits c pred snap di s (set xs) n)" for xs
    using adds_fold [of xs n "filter_slot c di s pred snap", OF filter_slot_adds] by (simp add: hits_UN)
  moreover have "filter_block c di s pred snap b = fold (filter_slot c di s pred snap)
      [b * zoneBlockSize ..< min (b * zoneBlockSize + zoneBlockSize) (sg_nextPos s)]"
    using False by (intro ext) (simp add: filter_block_def Let_def)
  ultimately show ?thesis by (metis set_upt)
qed

lemma filter_seg_adds:
  assumes z: "\<forall>(k, col) \<in> set (cl_meta c). zoned m col"
  shows "adds n (filter_seg c pred snap (di, s)) (hits c pred snap di s {..< sg_nextPos s} n)"
proof -
  let ?bs = "[0..<(sg_nextPos s + zoneBlockSize - 1) div zoneBlockSize]"
  let ?A = "\<lambda>b. {b * zoneBlockSize ..< min (b * zoneBlockSize + zoneBlockSize) (sg_nextPos s)}"
  have "(\<Union>b \<in> set ?bs. ?A b) = {..< sg_nextPos s}"
  proof (intro equalityI subsetI)
    fix p assume p: "p \<in> {..< sg_nextPos s}"
    then have "p div zoneBlockSize < (sg_nextPos s + zoneBlockSize - 1) div zoneBlockSize"
      by (simp add: zoneBlockSize_def less_eq_div_iff_mult_less_eq Suc_le_eq [symmetric])
    moreover have "p \<in> ?A (p div zoneBlockSize)"
      using p div_times_less_eq_dividend [of p zoneBlockSize] dividend_less_div_times [of zoneBlockSize p]
      by (simp add: zoneBlockSize_def)
    ultimately show "p \<in> (\<Union>b \<in> set ?bs. ?A b)" by (intro UN_I [of "p div zoneBlockSize"]) simp_all
  qed auto
  moreover have "adds n (fold (filter_block c di s pred snap) ?bs) (\<Union>b \<in> set ?bs. hits c pred snap di s (?A b) n)"
    by (rule adds_fold [OF filter_block_adds [OF z]])
  moreover have "filter_seg c pred snap (di, s) = fold (filter_block c di s pred snap) ?bs"
    by (intro ext) (simp add: filter_seg_def)
  ultimately show ?thesis by (simp only: hits_UN)
qed

lemma filter_coll_members:
  assumes z: "\<forall>(k, col) \<in> set (cl_meta c). zoned m col"
  defines "n \<equiv> of_nat (length (cl_segs c)) * of_nat (cl_capacity c) :: u32"
  shows "bm_ok (filter_coll c pred snap)"
    and "members (filter_coll c pred snap) =
      (\<Union>di < length (cl_segs c). hits c pred snap di (cl_segs c ! di) {..< sg_nextPos (cl_segs c ! di)} n)"
proof -
  let ?xs = "zip [0..<length (cl_segs c)] (cl_segs c)"
  have st: "set ?xs = (\<lambda>di. (di, cl_segs c ! di)) ` {..< length (cl_segs c)}"
    by (auto simp: set_zip image_iff Bex_def intro!: exI)
  have "adds n (fold (filter_seg c pred snap) ?xs)
      (\<Union>x \<in> set ?xs. hits c pred snap (fst x) (snd x) {..< sg_nextPos (snd x)} n)"
    by (rule adds_fold) (use filter_seg_adds [OF z] in auto)
  moreover have "bm_n (NewPositionBitmap n) = n" by (simp add: NewPositionBitmap_def)
  ultimately have "bm_ok (filter_coll c pred snap) \<and> members (filter_coll c pred snap) =
      (\<Union>x \<in> set ?xs. hits c pred snap (fst x) (snd x) {..< sg_nextPos (snd x)} n)"
    using New_refines [of n] by (simp add: adds_def filter_coll_def n_def)
  then show "bm_ok (filter_coll c pred snap)" and "members (filter_coll c pred snap) =
      (\<Union>di < length (cl_segs c). hits c pred snap di (cl_segs c ! di) {..< sg_nextPos (cl_segs c ! di)} n)"
    by (simp_all add: st)
qed

section \<open>Positions\<close>

text \<open>While the positions of a collection fit 32 bits, they number its slots.\<close>

definition addressable :: "collection \<Rightarrow> bool" where
  "addressable c \<longleftrightarrow> length (cl_segs c) * cl_capacity c < 2 ^ 32"

lemma colPos_exact:
  assumes "addressable c" and "di < length (cl_segs c)" and "p < cl_capacity c"
  shows "unat (colPos c di p) = di * cl_capacity c + p" and "di * cl_capacity c + p < length (cl_segs c) * cl_capacity c"
proof -
  have "Suc di * cl_capacity c \<le> length (cl_segs c) * cl_capacity c" using assms(2) by (intro mult_le_mono1) simp
  then show lt: "di * cl_capacity c + p < length (cl_segs c) * cl_capacity c" using assms(3) by simp
  have "colPos c di p = of_nat (di * cl_capacity c + p)" by (simp add: colPos_def)
  moreover have "di * cl_capacity c + p < 2 ^ 32" using lt assms(1) by (simp add: addressable_def)
  ultimately show "unat (colPos c di p) = di * cl_capacity c + p" by (simp only: unat_of_nat) simp
qed

lemma locate_iff:
  assumes "addressable c" and "0 < cl_capacity c"
  shows "locate c x = Some (di, p) \<longleftrightarrow> di < length (cl_segs c) \<and> p < cl_capacity c \<and> x = colPos c di p"
proof -
  have "x = colPos c di p \<longleftrightarrow> unat x = di * cl_capacity c + p" if "di < length (cl_segs c)" "p < cl_capacity c"
    using colPos_exact(1) [OF assms(1) that] by (metis unsigned_word_eqI)
  moreover have "unat x = di * cl_capacity c + p \<and> p < cl_capacity c \<longleftrightarrow>
      unat x div cl_capacity c = di \<and> unat x mod cl_capacity c = p"
    using assms(2) div_mult_mod_eq [of "unat x" "cl_capacity c"] by auto
  ultimately show ?thesis by (auto simp: locate_def Let_def)
qed


lemma appendPoint_meta:
  assumes ok: "coll_ok c" and room: "cl_nextSeq c \<noteq> - 1" and r: "appendPoint conv t c k pid vec row = (c', t', r)"
  shows "cl_meta c' = cl_meta c \<or>
    (\<exists>q p. p < cl_capacity c \<and> cl_meta c' = run_meta (RowWrite q p (cl_capacity c) row) (cl_meta c))"
  using assms
proof (cases rule: appendPoint_run)
  case (rolled c1 di s pos m err)
  note o = ensureOpen_ok [OF ok room rolled(1)]
  have "pos < cl_capacity c"
    using coll_okD(4) [OF o(1,2)] o(3,7) rolled(4) by (auto simp: seg_in_def full_def seg_append_def Let_def)
  then show ?thesis using rolled(5,6) o(6,7) by (intro disjI2 exI [of _ "sg_seqNum s"] exI [of _ pos]) simp
next
  case (kept c1 di s pos m im)
  note o = ensureOpen_ok [OF ok room kept(1)]
  have "pos < cl_capacity c"
    using coll_okD(4) [OF o(1,2)] o(3,7) kept(4) by (auto simp: seg_in_def full_def seg_append_def Let_def)
  then show ?thesis using kept(5,7) o(6,7) by (intro disjI2 exI [of _ "sg_seqNum s"] exI [of _ pos]) simp
qed simp

definition demo_columns :: "ColumnDef list" where
  "demo_columns = [\<lparr>cd_ID = 3, cd_Name = ''lang'', cd_Type = ColText, cd_Nullable = True\<rparr>]"

definition demo_meta_coll :: collection where
  "demo_meta_coll = the (newCollection (demo_def\<lparr>df_Columns := demo_columns\<rparr>))"

definition demo_txn :: txn where
  "demo_txn = \<lparr>tx_id = 1, tx_readSeq = 0, tx_write = True, tx_done = False, tx_stamp = [], tx_undo = []\<rparr>"

definition demo_filter_coll :: collection where
  "demo_filter_coll = fst (appendPoint (\<lambda>_. 0) demo_txn demo_meta_coll 1 7 [0, 0] [(3, TextV [5])])"

lemma demo_meta_coll_eq:
  "newCollection (demo_def\<lparr>df_Columns := demo_columns\<rparr>) = Some demo_meta_coll"
  "cl_meta demo_meta_coll = [(3, \<lparr>co_def = hd demo_columns, co_segs = Map.empty\<rparr>)]"
  "cl_capacity demo_meta_coll = 2" "cl_dims demo_meta_coll = 2" "cl_segs demo_meta_coll = []" "cl_openIdx demo_meta_coll = None"
  "cl_nextSeq demo_meta_coll = 0" "cl_idmap demo_meta_coll = newIDMap"
  by (simp_all add: demo_meta_coll_def newCollection_def segCapacity_def demo_def_def demo_columns_def Let_def newMetadataStore_def)

lemma demo_filter_coll_eq:
  "cl_meta demo_filter_coll = fst (writeRow (cl_meta demo_meta_coll) 0 0 2 [(3, TextV [5])])"
  "length (cl_segs demo_filter_coll) = 1" "cl_capacity demo_filter_coll = 2"
  "sg_nextPos (cl_segs demo_filter_coll ! 0) = 1"
  "sg_tomb (cl_segs demo_filter_coll ! 0) = [0]" "sg_capacity (cl_segs demo_filter_coll ! 0) = 2" "sg_seqNum (cl_segs demo_filter_coll ! 0) = 0"
  by (simp_all add: demo_filter_coll_def appendPoint_def demo_meta_coll_eq ForwardLookup_def newIDMap_def ensureOpen_def Let_def
      upd_seg_def seg_append_def newSegment_def writeRow_def demo_columns_def cell_of_def IsNull_def id_insert_def bump_writes_def
      split: prod.split)

lemma demo_filter_coll_ok: "coll_ok demo_filter_coll"
proof -
  have ok: "coll_ok demo_meta_coll"
    by (rule newCollection_ok(1) [OF demo_meta_coll_eq(1)]) (simp add: demo_def_def)
  obtain c' t' r where a: "appendPoint (\<lambda>_. 0) demo_txn demo_meta_coll 1 7 [0, 0] [(3, TextV [5])] = (c', t', r)"
    by (metis prod_cases3)
  have "coll_ok c'" using appendPoint_undoable [OF ok _ a] by (simp add: undoable_def demo_meta_coll_eq)
  then show ?thesis by (simp add: demo_filter_coll_def a)
qed


end
