(* ===== verification/Storage_Compact.thy ===== *)
theory Storage_Compact
  imports Storage_Filter
begin

text \<open>
  Compaction.  The copy loop packs the live points into fresh segments in the order of their
  old positions, point number \<^verbatim>\<open>i\<close> at slot \<^verbatim>\<open>i mod capacity\<close> of segment \<^verbatim>\<open>i div capacity\<close>; the swap
  keeps the invariant and every point with its version and metadata.
\<close>

section \<open>Gathering the live points\<close>

definition live_ref :: "collection \<Rightarrow> nat \<Rightarrow> nat \<Rightarrow> liveRef" where
  "live_ref c di p = \<lparr>lr_oldPos = colPos c di p, lr_segSeq = sg_seqNum (cl_segs c ! di), lr_slotPos = p,
     lr_id = sg_backward (cl_segs c ! di) ! p, lr_version = sg_version (cl_segs c ! di) ! p\<rparr>"

lemma gather_seg_eq:
  assumes "seg_ok (cl_segs c ! di)"
  shows "gather_seg c (di, cl_segs c ! di) =
    map (live_ref c di) (filter (live_slot (cl_segs c ! di)) [0..<sg_nextPos (cl_segs c ! di)])"
proof -
  have "List.map_filter (\<lambda>p. if \<not> P p then None else Some (f p)) xs = map f (filter P xs)" for P and f :: "nat \<Rightarrow> liveRef" and xs
    by (induction xs) (auto simp: List.map_filter_def)
  note mf = this [of "\<lambda>p. \<not> IsTombstoned (cl_segs c ! di) p" "live_ref c di"]
  have "live_ref c di p = \<lparr>lr_oldPos = colPos c di p, lr_segSeq = sg_seqNum (cl_segs c ! di), lr_slotPos = p,
      lr_id = (case BackwardMapLookup (cl_segs c ! di) p of Inr i \<Rightarrow> i | Inl _ \<Rightarrow> 0),
      lr_version = sg_version (cl_segs c ! di) ! p\<rparr>" if "p < sg_nextPos (cl_segs c ! di)" for p
    using that by (simp add: live_ref_def BackwardMapLookup_def)
  then show ?thesis
    unfolding gather_seg_def prod.case mf [symmetric, simplified]
    by (auto simp: List.map_filter_def live_slot_def intro!: map_cong filter_cong)
qed

lemma gather_eq:
  assumes "coll_ok c"
  shows "gather c = concat (map (\<lambda>di. map (live_ref c di)
    (filter (live_slot (cl_segs c ! di)) [0..<sg_nextPos (cl_segs c ! di)])) [0..<length (cl_segs c)])"
proof -
  have "zip [0..<length (cl_segs c)] (cl_segs c) = map (\<lambda>di. (di, cl_segs c ! di)) [0..<length (cl_segs c)]"
    by (intro nth_equalityI) simp_all
  moreover have "seg_ok (cl_segs c ! di)" if "di < length (cl_segs c)" for di
    using coll_okD(4) [OF assms that] by (simp add: seg_in_def)
  ultimately show ?thesis
    unfolding gather_def by (auto simp: gather_seg_eq intro!: arg_cong [of _ _ concat])
qed

lemma gather_set:
  assumes "coll_ok c"
  shows "lr \<in> set (gather c) \<longleftrightarrow> (\<exists>di < length (cl_segs c). \<exists>p. live_slot (cl_segs c ! di) p \<and> lr = live_ref c di p)"
  unfolding gather_eq [OF assms] by (auto simp: live_slot_def)

lemma sorted_concat:
  assumes "\<And>i. i < n \<Longrightarrow> sorted_wrt (<) (f i)" and "\<And>i x. i < n \<Longrightarrow> x \<in> set (f i) \<Longrightarrow> i * k \<le> x \<and> x < Suc i * (k :: nat)"
  shows "sorted_wrt (<) (concat (map f [0..<n]))"
  using assms
proof (induction n)
  case (Suc n)
  have "x < y" if xy: "x \<in> set (concat (map f [0..<n]))" "y \<in> set (f n)" for x y
  proof -
    obtain i where i: "i < n" "x \<in> set (f i)" using xy(1) by auto
    have "x < Suc i * k" "n * k \<le> y" using Suc(3) [of i x] Suc(3) [of n y] i xy(2) by auto
    moreover have "Suc i * k \<le> n * k" using i(1) by (intro mult_le_mono1) simp
    ultimately show ?thesis by simp
  qed
  then show ?case using Suc by (simp add: sorted_wrt_append)
qed simp

lemma gather_sorted:
  assumes "coll_ok c" and "addressable c"
  shows "sorted_wrt (<) (map (unat \<circ> lr_oldPos) (gather c))"
proof -
  let ?ps = "\<lambda>di. filter (live_slot (cl_segs c ! di)) [0..<sg_nextPos (cl_segs c ! di)]"
  let ?f = "\<lambda>di. map (\<lambda>p. unat (colPos c di p)) (?ps di)"
  have cap: "p < cl_capacity c" if "di < length (cl_segs c)" "p \<in> set (?ps di)" for di p
    using coll_okD(4) [OF assms(1) that(1)] that(2) by (auto simp: seg_in_def seg_ok_def)
  have f: "?f di = map (\<lambda>p. di * cl_capacity c + p) (?ps di)" if "di < length (cl_segs c)" for di
    using colPos_exact(1) [OF assms(2) that cap [OF that]] by (intro map_cong) auto
  have "sorted_wrt (<) (?f di)" if "di < length (cl_segs c)" for di
    using sorted_wrt_filter [OF sorted_wrt_upt] by (simp add: f [OF that] sorted_wrt_map)
  moreover have "di * cl_capacity c \<le> x \<and> x < Suc di * cl_capacity c"
    if "di < length (cl_segs c)" "x \<in> set (?f di)" for di x
    using that cap [OF that(1)] by (auto simp: f [OF that(1)])
  ultimately have "sorted_wrt (<) (concat (map ?f [0..<length (cl_segs c)]))" by (rule sorted_concat)
  moreover have "map (unat \<circ> lr_oldPos) (gather c) = concat (map ?f [0..<length (cl_segs c)])"
    unfolding gather_eq [OF assms(1)] by (simp add: map_concat comp_def live_ref_def)
  ultimately show ?thesis by simp
qed

lemma gather_ids:
  assumes ok: "coll_ok c" and ad: "addressable c"
  shows "distinct (map lr_id (gather c))" and "lr \<in> set (gather c) \<Longrightarrow> id_fwd (cl_idmap c) (lr_id lr) = Some (lr_segSeq lr, lr_slotPos lr)"
    and "id_fwd (cl_idmap c) pid = None \<longleftrightarrow> pid \<notin> lr_id ` set (gather c)"
proof -
  have fwd: "id_fwd (cl_idmap c) (lr_id lr) = Some (lr_segSeq lr, lr_slotPos lr)" if lr: "lr \<in> set (gather c)" for lr
  proof -
    obtain di p where d: "di < length (cl_segs c)" "live_slot (cl_segs c ! di) p" "lr = live_ref c di p"
      using lr gather_set [OF ok] by blast
    then show ?thesis using coll_okD(7) [OF ok] by (auto simp: live_ref_def placed_def)
  qed
  then show "lr \<in> set (gather c) \<Longrightarrow> id_fwd (cl_idmap c) (lr_id lr) = Some (lr_segSeq lr, lr_slotPos lr)" .
  have "inj_on lr_id (set (gather c))"
  proof (rule inj_onI)
    fix x y assume xy: "x \<in> set (gather c)" "y \<in> set (gather c)" "lr_id x = lr_id y"
    then have "lr_segSeq x = lr_segSeq y" "lr_slotPos x = lr_slotPos y" using fwd [of x] fwd [of y] by auto
    moreover obtain i p j r where "i < length (cl_segs c)" "j < length (cl_segs c)" "x = live_ref c i p" "y = live_ref c j r"
      using xy(1,2) gather_set [OF ok] by blast
    ultimately show "x = y" using seq_unique [OF ok] by (auto simp: live_ref_def)
  qed
  moreover have "distinct (gather c)"
    using gather_sorted [OF ok ad] distinct_map strict_sorted_iff by blast
  ultimately show "distinct (map lr_id (gather c))" by (simp add: distinct_map)
  show "id_fwd (cl_idmap c) pid = None \<longleftrightarrow> pid \<notin> lr_id ` set (gather c)"
  proof
    assume "id_fwd (cl_idmap c) pid = None"
    then show "pid \<notin> lr_id ` set (gather c)" using fwd by force
  next
    assume n: "pid \<notin> lr_id ` set (gather c)"
    show "id_fwd (cl_idmap c) pid = None"
    proof (rule ccontr)
      assume "id_fwd (cl_idmap c) pid \<noteq> None"
      then obtain q p where "id_fwd (cl_idmap c) pid = Some (q, p)" by auto
      then obtain di where "di < length (cl_segs c)" "live_slot (cl_segs c ! di) p" "sg_backward (cl_segs c ! di) ! p = pid"
        using fwd_place [OF ok] by metis
      then have "live_ref c di p \<in> set (gather c)" "lr_id (live_ref c di p) = pid"
        using gather_set [OF ok] by (auto simp: live_ref_def)
      then show False using n by blast
    qed
  qed
qed

section \<open>Copying metadata\<close>

text \<open>The metadata of a collection is the result of row and cell writes.\<close>

definition meta_history :: "collection \<Rightarrow> bool" where
  "meta_history c \<longleftrightarrow> (\<exists>ws. cl_meta c = fold run_meta ws (newMetadataStore (cl_columns c)))"

lemma history_row_typed:
  assumes "meta_history c" and "col_def_at (newMetadataStore (cl_columns c)) k = Some d"
  shows "IsNull (row_get c q p k) \<or> valueMatchesType (row_get c q p k) (cd_Type d)"
proof -
  obtain ws where ws: "cl_meta c = fold run_meta ws (newMetadataStore (cl_columns c))"
    using assms(1) by (auto simp: meta_history_def)
  have "col_def_at (cl_meta c) k = Some d" using history_typed(2) [of ws "cl_columns c" k] ws assms(2) by simp
  then obtain col where col: "map_of (cl_meta c) k = Some col" "co_def col = d" by (auto simp: col_def_at_def)
  have "typed_col col" using history_typed(1) [of ws "cl_columns c"] ws map_of_SomeD [OF col(1)] by auto
  then show ?thesis
    using col by (auto simp: row_get_def ms_ReadAt_def col_readAt_def typed_col_def IsNull_def split: option.split)
qed

lemma history_unknown:
  assumes "meta_history c" and "col_def_at (newMetadataStore (cl_columns c)) k = None"
  shows "row_get c q p k = NullValue"
proof -
  obtain ws where ws: "cl_meta c = fold run_meta ws (newMetadataStore (cl_columns c))"
    using assms(1) by (auto simp: meta_history_def)
  have "map_of (cl_meta c) k = None"
    using history_typed(2) [of ws "cl_columns c" k] ws assms(2) by (simp add: col_def_at_def)
  then show ?thesis by (simp add: row_get_def ms_ReadAt_def)
qed

lemma copy_cols_reads:
  assumes h: "meta_history c" and defs: "\<And>k. col_def_at m k = col_def_at (newMetadataStore (cl_columns c)) k"
  shows "read_cell (map_of (copy_cols c lr q p m) k) q' p' =
      (if q' = q \<and> p' = p then map_option (\<lambda>_. row_get c (lr_segSeq lr) (lr_slotPos lr) k) (map_of m k)
       else read_cell (map_of m k) q' p')"
    and "\<exists>ws. copy_cols c lr q p m = fold run_meta ws m"
    and "col_def_at (copy_cols c lr q p m) k = col_def_at m k"
proof -
  let ?row = "row_get c (lr_segSeq lr) (lr_slotPos lr)"
  let ?w = "\<lambda>cd m. fst (ms_WriteAt m (cd_ID cd) q p (cl_capacity c) (?row (cd_ID cd)))"
  have fold_w: "fold ?w ds m = fold run_meta (map (\<lambda>cd. CellWrite (cd_ID cd) q p (cl_capacity c) (?row (cd_ID cd))) ds) m" for ds m
    by (induction ds arbitrary: m) simp_all
  show "\<exists>ws. copy_cols c lr q p m = fold run_meta ws m"
    unfolding copy_cols_def fold_w by (rule exI) (rule refl)
  have d: "col_def_at (fold ?w ds m) k = col_def_at m k" for ds m k
    unfolding fold_w by (induction ds arbitrary: m) (simp_all only: list.map fold_simps run_meta_defs)
  then show "col_def_at (copy_cols c lr q p m) k = col_def_at m k" by (simp add: copy_cols_def)
  have one: "map_of (?w cd m') k = (if k = cd_ID cd then map_option (\<lambda>col. write_cell col q p (cl_capacity c) (?row k)) (map_of m' k)
      else map_of m' k)" if "\<And>k. col_def_at m' k = col_def_at (newMetadataStore (cl_columns c)) k" for cd m' k
  proof (cases "map_of m' (cd_ID cd)")
    case (Some col)
    then have "col_def_at (newMetadataStore (cl_columns c)) (cd_ID cd) = Some (co_def col)"
      using that [of "cd_ID cd"] by (simp add: col_def_at_def)
    from history_row_typed [OF h this] show ?thesis using Some by (auto simp: ms_WriteAt_def update_conv')
  qed (simp add: ms_WriteAt_def)
  have "read_cell (map_of (fold ?w ds m') k) q' p' =
      (if q' = q \<and> p' = p \<and> k \<in> cd_ID ` set ds then map_option (\<lambda>_. ?row k) (map_of m' k) else read_cell (map_of m' k) q' p')"
    if "\<And>k. col_def_at m' k = col_def_at (newMetadataStore (cl_columns c)) k" for ds m'
    using that
  proof (induction ds arbitrary: m')
    case (Cons cd ds)
    have "col_def_at (?w cd m') j = col_def_at (newMetadataStore (cl_columns c)) j" for j
      using d [of "[cd]" m' j] Cons(2) by simp
    from Cons(1) [OF this] one [OF Cons(2), of cd k] show ?case
      using read_write_cell [of q p "cl_capacity c" "\<lambda>_. ?row k" "map_of m' k" q' p']
      by (auto simp: option.map_comp comp_def)
  qed simp
  note r = this [OF defs, of "cl_columns c"]
  have dom: "k \<in> cd_ID ` set (cl_columns c)" if "map_of m k \<noteq> None"
  proof -
    have "col_def_at m k \<noteq> None" using that by (simp add: col_def_at_def)
    then have "find (\<lambda>d. cd_ID d = k) (rev (cl_columns c)) \<noteq> None" using defs [of k] new_store_defs by metis
    then show ?thesis by (auto simp: find_None_iff)
  qed
  have "read_cell None q' p' = None" by (simp add: read_cell_def)
  then show "read_cell (map_of (copy_cols c lr q p m) k) q' p' =
      (if q' = q \<and> p' = p then map_option (\<lambda>_. ?row k) (map_of m k) else read_cell (map_of m k) q' p')"
    using r dom by (cases "map_of m k") (auto simp: copy_cols_def)
qed

section \<open>The copy loop\<close>

text \<open>After the points \<^term>\<open>xs\<close> the new segments hold them in order, each but the last one sealed and
  full.\<close>

definition packed :: "collection \<Rightarrow> nat \<Rightarrow> segment list \<Rightarrow> bool" where
  "packed c n segs \<longleftrightarrow> n \<le> length segs * cl_capacity c \<and>
     (\<forall>j < length segs. seg_ok (segs ! j) \<and> sg_capacity (segs ! j) = cl_capacity c \<and> sg_codec (segs ! j) = cl_codec c \<and>
        sg_stride (segs ! j) = cl_stride c \<and> sg_seqNum (segs ! j) = cl_nextSeq c + of_nat j \<and>
        sg_nextPos (segs ! j) = min (cl_capacity c) (n - j * cl_capacity c) \<and>
        (\<forall>p. live_slot (segs ! j) p \<longleftrightarrow> p < sg_nextPos (segs ! j)))"

definition old_vector :: "collection \<Rightarrow> liveRef \<Rightarrow> f32 list" where
  "old_vector c lr = (case seg_FetchVector (cl_segs c ! the (cl_dirOf c (lr_segSeq lr))) (lr_slotPos lr) of Inr v \<Rightarrow> v)"

definition held :: "(f32 \<Rightarrow> int) \<Rightarrow> collection \<Rightarrow> segment \<Rightarrow> nat \<Rightarrow> liveRef \<Rightarrow> bool" where
  "held conv c s p lr \<longleftrightarrow> sg_backward s ! p = lr_id lr \<and> sg_version s ! p = lr_version lr \<and>
     seg_FetchVector s p = Inr (decode (cl_codec c) (encode conv (cl_codec c) (old_vector c lr)))"

lemma next_seg_packed:
  assumes pk: "packed c n (cs_segs st)" and cap: "0 < cl_capacity c" and raw: "rawBytes (cl_codec c) \<le> unat (cl_stride c)"
    and sq: "cs_seq st = cl_nextSeq c + of_nat (length (cs_segs st))"
    and tight: "length (cs_segs st) * cl_capacity c < n + cl_capacity c"
  defines "st' \<equiv> next_seg c st"
  shows "packed c n (cs_segs st')" and "length (cs_segs st') = Suc (n div cl_capacity c)"
    and "cs_seq st' = cl_nextSeq c + of_nat (length (cs_segs st'))" and "\<not> full (last (cs_segs st'))"
    and "sg_nextPos (last (cs_segs st')) = n mod cl_capacity c" and "cs_meta st' = cs_meta st" and "cs_repoint st' = cs_repoint st"
    and "j < length (cs_segs st) \<Longrightarrow> held conv c (cs_segs st' ! j) p lr = held conv c (cs_segs st ! j) p lr"
proof -
  let ?L = "length (cs_segs st)" and ?k = "cl_capacity c"
  have le: "n \<le> ?L * ?k" using pk by (simp add: packed_def)
  have fl: "full (cs_segs st ! (?L - 1)) \<longleftrightarrow> n = ?L * ?k" if "0 < ?L"
  proof -
    have "(?L - 1) * ?k + ?k = ?L * ?k" using that by (cases ?L) simp_all
    then show ?thesis using pk that le tight by (auto simp: packed_def full_def)
  qed
  have "packed c n (cs_segs st') \<and> length (cs_segs st') = Suc (n div ?k) \<and>
      cs_seq st' = cl_nextSeq c + of_nat (length (cs_segs st')) \<and> \<not> full (last (cs_segs st')) \<and>
      sg_nextPos (last (cs_segs st')) = n mod ?k \<and> cs_meta st' = cs_meta st \<and> cs_repoint st' = cs_repoint st \<and>
      (\<forall>j p lr. j < ?L \<longrightarrow> held conv c (cs_segs st' ! j) p lr = held conv c (cs_segs st ! j) p lr)"
  proof (cases "n = ?L * ?k")
    case True
    let ?new = "newSegment (cs_seq st) (cl_elem c) (cl_dims c) (cl_stride c) ?k (cl_codec c)"
    let ?old = "if cs_segs st = [] then [] else butlast (cs_segs st) @ [(last (cs_segs st))\<lparr>sg_sealed := True\<rparr>]"
    have "cs_segs st = [] \<or> full (last (cs_segs st))"
      using fl True by (cases "cs_segs st = []") (simp_all add: last_conv_nth)
    then have st': "st' = st\<lparr>cs_segs := ?old @ [?new], cs_seq := cs_seq st + 1\<rparr>" by (simp add: st'_def next_seg_def)
    have lo: "length ?old = ?L" by simp
    have od: "?old ! j = (if Suc j = ?L then (cs_segs st ! j)\<lparr>sg_sealed := True\<rparr> else cs_segs st ! j)" if "j < ?L" for j
    proof -
      have "Suc j = ?L \<Longrightarrow> ?L - Suc 0 = j" by simp
      then show ?thesis using that by (auto simp: nth_append nth_butlast last_conv_nth)
    qed
    have segs: "cs_segs st' = ?old @ [?new]" using st' by simp
    have old: "(cs_segs st') ! j = ?old ! j" if "j < ?L" for j using that lo by (simp add: segs nth_append)
    have new: "(cs_segs st') ! ?L = ?new" using lo by (simp add: segs nth_append)
    have nw: "seg_ok ?new" "sg_capacity ?new = ?k" "sg_codec ?new = cl_codec c" "sg_stride ?new = cl_stride c"
      "sg_seqNum ?new = cs_seq st" "sg_nextPos ?new = 0" "\<not> live_slot ?new p" for p
      using newSegment_ok [OF raw] by (simp_all add: newSegment_def live_slot_def)
    have len: "length (cs_segs st') = Suc (n div ?k)" using True cap segs lo by simp
    have "?L = n div ?k" using True cap by simp
    then have p1: "packed c n (cs_segs st')"
      using pk True cap nw old new od sq len by (auto simp: packed_def less_Suc_eq)
    have p2: "cs_seq st' = cl_nextSeq c + of_nat (length (cs_segs st'))" using sq segs lo st' by simp
    have p3: "\<not> full (last (cs_segs st'))" "sg_nextPos (last (cs_segs st')) = n mod ?k"
      using nw cap True by (simp_all add: segs full_def)
    have p4: "cs_meta st' = cs_meta st" "cs_repoint st' = cs_repoint st" using st' by simp_all
    have "j < ?L \<Longrightarrow> held conv c (cs_segs st' ! j) p lr = held conv c (cs_segs st ! j) p lr" for j p lr
      using old od by (simp add: held_def)
    then show ?thesis using len p1 p2 p3 p4 by blast
  next
    case False
    then have lt: "n < ?L * ?k" "0 < ?L" using le by (cases ?L; auto)+
    have nf: "\<not> full (last (cs_segs st))" "cs_segs st \<noteq> []"
      using fl [OF lt(2)] False lt(2) by (auto simp: last_conv_nth)
    then have st': "st' = st" by (simp add: st'_def next_seg_def)
    have "(?L - 1) * ?k + ?k = ?L * ?k" using lt(2) by (cases ?L) simp_all
    then have "(?L - 1) * ?k \<le> n" "n < (?L - 1) * ?k + ?k" using lt tight by linarith+
    then have dv: "n div ?k = ?L - 1" by (simp add: div_nat_eqI mult.commute)
    then have md: "n - (?L - 1) * ?k = n mod ?k" by (metis minus_div_mult_eq_mod)
    have "sg_nextPos (last (cs_segs st)) = n mod ?k"
      using pk nf lt md mod_less_divisor [OF cap, of n] by (simp add: packed_def last_conv_nth)
    then show ?thesis using pk sq nf st' dv lt by simp
  qed
  then show "packed c n (cs_segs st')" and "length (cs_segs st') = Suc (n div cl_capacity c)"
    and "cs_seq st' = cl_nextSeq c + of_nat (length (cs_segs st'))" and "\<not> full (last (cs_segs st'))"
    and "sg_nextPos (last (cs_segs st')) = n mod cl_capacity c" and "cs_meta st' = cs_meta st" and "cs_repoint st' = cs_repoint st"
    and "j < length (cs_segs st) \<Longrightarrow> held conv c (cs_segs st' ! j) p lr = held conv c (cs_segs st ! j) p lr" by simp_all
qed

definition copied :: "(f32 \<Rightarrow> int) \<Rightarrow> collection \<Rightarrow> liveRef list \<Rightarrow> compact_state \<Rightarrow> bool" where
  "copied conv c xs st \<longleftrightarrow>
     packed c (length xs) (cs_segs st) \<and> length (cs_segs st) * cl_capacity c < length xs + cl_capacity c \<and>
     cs_seq st = cl_nextSeq c + of_nat (length (cs_segs st)) \<and>
     (\<forall>i < length xs. held conv c (cs_segs st ! (i div cl_capacity c)) (i mod cl_capacity c) (xs ! i)) \<and>
     cs_repoint st = map (\<lambda>i. \<lparr>rp_OldPos = lr_oldPos (xs ! i), rp_NewPos = of_nat i, rp_PointID = lr_id (xs ! i)\<rparr>) [0..<length xs] \<and>
     (\<exists>ws. cs_meta st = fold run_meta ws (newMetadataStore (cl_columns c))) \<and>
     (\<forall>i < length xs. \<forall>k. read_cell (map_of (cs_meta st) k) (cl_nextSeq c + of_nat (i div cl_capacity c)) (i mod cl_capacity c) =
        map_option (\<lambda>_. row_get c (lr_segSeq (xs ! i)) (lr_slotPos (xs ! i)) k) (map_of (newMetadataStore (cl_columns c)) k))"

lemma append_packed:
  assumes pk: "packed c n segs" and cap: "0 < cl_capacity c" and L: "length segs = Suc (n div cl_capacity c)"
    and nf: "\<not> full (last segs)" and np: "sg_nextPos (last segs) = n mod cl_capacity c"
    and vec: "codec_dims (cl_codec c) \<le> length vec"
    and ap: "seg_append conv (last segs) pid vec ver = (s, pos)"
  defines "segs' \<equiv> butlast segs @ [s]"
  shows "packed c (Suc n) segs'" and "pos = n mod cl_capacity c" and "sg_seqNum s = cl_nextSeq c + of_nat (n div cl_capacity c)"
    and "i < n \<Longrightarrow> held conv c (segs ! (i div cl_capacity c)) (i mod cl_capacity c) lr \<Longrightarrow>
      held conv c (segs' ! (i div cl_capacity c)) (i mod cl_capacity c) lr"
    and "old_vector c lr = vec \<Longrightarrow> lr_id lr = pid \<Longrightarrow> lr_version lr = ver \<Longrightarrow>
      held conv c (segs' ! (n div cl_capacity c)) (n mod cl_capacity c) lr"
proof -
  let ?k = "cl_capacity c" and ?l = "n div cl_capacity c"
  have ls: "last segs = segs ! ?l" "?l < length segs" using L by (simp_all add: last_conv_nth flip: length_greater_0_conv)
  have lk: "seg_ok (last segs)" "sg_capacity (last segs) = ?k" "sg_codec (last segs) = cl_codec c" "sg_stride (last segs) = cl_stride c"
    "sg_seqNum (last segs) = cl_nextSeq c + of_nat ?l" "\<And>p. live_slot (last segs) p \<longleftrightarrow> p < sg_nextPos (last segs)"
    using pk ls by (simp_all add: packed_def)
  note a = append_ok [OF lk(1) nf _ ap, unfolded lk(3), OF vec]
  show pos: "pos = n mod ?k" using a(2) np by simp
  show "sg_seqNum s = cl_nextSeq c + of_nat ?l" using a(8) lk(5) by simp
  have nth: "segs' ! j = (if j = ?l then s else segs ! j)" if "j \<le> ?l" for j
    using that L by (auto simp: segs'_def nth_append nth_butlast)
  have len: "length segs' = Suc ?l" using L by (simp add: segs'_def)
  have md: "n mod ?k < ?k" using cap by simp
  have dm: "?l * ?k \<le> n" "n - ?l * ?k = n mod ?k" by (simp_all add: minus_div_mult_eq_mod)
  have full_before: "min ?k (n - j * ?k) = ?k \<and> min ?k (Suc n - j * ?k) = ?k" if "j < ?l" for j
  proof -
    have "Suc j * ?k \<le> ?l * ?k" using that by (intro mult_le_mono1) simp
    from le_trans [OF this dm(1)] have "?k + j * ?k \<le> n" by simp
    then have "?k \<le> n - j * ?k" "?k \<le> Suc n - j * ?k" by linarith+
    then show ?thesis by simp
  qed
  have "min ?k (Suc n - ?l * ?k) = Suc pos" using md pos dm by (simp add: Suc_diff_le)
  then have "sg_nextPos s = min ?k (Suc n - ?l * ?k)" using a(13) by simp
  moreover have "live_slot s p \<longleftrightarrow> p < sg_nextPos s" for p using a(2,3,13) lk(6) by auto
  moreover have "Suc n \<le> Suc ?l * ?k" using dividend_less_div_times [OF cap, of n] by simp
  ultimately show "packed c (Suc n) segs'"
    using pk a(1,8-11) lk full_before L by (auto simp: packed_def len nth less_Suc_eq_le)
  show "held conv c (segs' ! (i div ?k)) (i mod ?k) lr" if i: "i < n" "held conv c (segs ! (i div ?k)) (i mod ?k) lr" for i
  proof (cases "i div ?k = ?l")
    case True
    have "i mod ?k < pos" using i(1) pos dm div_mult_mod_eq [of i ?k, unfolded True] by linarith
    then show ?thesis using i(2) True ls a(4,5,7) nth [of ?l] by (simp add: held_def)
  next
    case False
    have "i div ?k \<le> ?l" using i(1) by (simp add: div_le_mono)
    then show ?thesis using i(2) False nth by simp
  qed
  have "length (sg_backward (last segs)) = ?k" "length (sg_version (last segs)) = ?k" using lk(1,2) by (simp_all add: seg_ok_def)
  then show "old_vector c lr = vec \<Longrightarrow> lr_id lr = pid \<Longrightarrow> lr_version lr = ver \<Longrightarrow> held conv c (segs' ! ?l) (n mod ?k) lr"
    using a(4,5,6) pos md(1) nth [of ?l] by (auto simp: held_def)
qed

lemma gather_vector:
  assumes ok: "coll_ok c" and lr: "lr \<in> set (gather c)"
  shows "\<exists>di. segBySeq c (lr_segSeq lr) = Some di \<and> seg_FetchVector (cl_segs c ! di) (lr_slotPos lr) = Inr (old_vector c lr)"
    and "length (old_vector c lr) = codec_dims (cl_codec c)"
proof -
  obtain di p where d: "di < length (cl_segs c)" "live_slot (cl_segs c ! di) p" "lr = live_ref c di p"
    using lr gather_set [OF ok] by blast
  have dir: "cl_dirOf c (lr_segSeq lr) = Some di" using d coll_okD(5) [OF ok] by (simp add: live_ref_def)
  have f: "seg_FetchVector (cl_segs c ! di) p = Inr v \<Longrightarrow> length v = codec_dims (cl_codec c)" for v
    using coll_okD(4) [OF ok d(1)] by (auto simp: seg_FetchVector_def seg_in_def split: if_splits)
  have "\<exists>v. seg_FetchVector (cl_segs c ! di) p = Inr v" using d(2) by (auto simp: seg_FetchVector_def live_slot_def)
  then show "\<exists>di. segBySeq c (lr_segSeq lr) = Some di \<and> seg_FetchVector (cl_segs c ! di) (lr_slotPos lr) = Inr (old_vector c lr)"
    and "length (old_vector c lr) = codec_dims (cl_codec c)"
    using dir d(3) f by (auto simp: segBySeq_def old_vector_def live_ref_def)
qed

lemma of_nat_u32_inj: "a < 2 ^ 32 \<Longrightarrow> b < 2 ^ 32 \<Longrightarrow> (of_nat a :: u32) = of_nat b \<Longrightarrow> a = b"
  by (drule arg_cong [of _ _ unat]) (simp add: unat_of_nat)

lemma copy_live_copied:
  assumes ok: "coll_ok c" and h: "meta_history c" and lr: "lr \<in> set (gather c)" and cp: "copied conv c xs st"
    and n32: "length xs < 2 ^ 32"
  shows "copied conv c (xs @ [lr]) (fst (copy_live conv c lr (st, buf)))"
proof -
  let ?k = "cl_capacity c" and ?n = "length xs" and ?M = "newMetadataStore (cl_columns c)" and ?st = "next_seg c st"
  have cap: "0 < ?k" by (rule coll_okD(1) [OF ok])
  have C: "packed c ?n (cs_segs st)" "length (cs_segs st) * ?k < ?n + ?k" "cs_seq st = cl_nextSeq c + of_nat (length (cs_segs st))"
    "\<And>i. i < ?n \<Longrightarrow> held conv c (cs_segs st ! (i div ?k)) (i mod ?k) (xs ! i)"
    "cs_repoint st = map (\<lambda>i. \<lparr>rp_OldPos = lr_oldPos (xs ! i), rp_NewPos = of_nat i, rp_PointID = lr_id (xs ! i)\<rparr>) [0..<?n]"
    "\<exists>ws. cs_meta st = fold run_meta ws ?M"
    "\<And>i k. i < ?n \<Longrightarrow> read_cell (map_of (cs_meta st) k) (cl_nextSeq c + of_nat (i div ?k)) (i mod ?k) =
        map_option (\<lambda>_. row_get c (lr_segSeq (xs ! i)) (lr_slotPos (xs ! i)) k) (map_of ?M k)"
    using cp unfolding copied_def by blast+
  note N = next_seg_packed [OF C(1) cap coll_okD(2) [OF ok] C(3,2)]
  obtain di where di: "segBySeq c (lr_segSeq lr) = Some di" "seg_FetchVector (cl_segs c ! di) (lr_slotPos lr) = Inr (old_vector c lr)"
    using gather_vector(1) [OF ok lr] by blast
  obtain s pos where ap: "seg_append conv (last (cs_segs ?st)) (lr_id lr) (old_vector c lr) (lr_version lr) = (s, pos)" by fastforce
  have vl: "codec_dims (cl_codec c) \<le> length (old_vector c lr)" using gather_vector(2) [OF ok lr] by simp
  note A = append_packed [OF N(1) cap N(2,4,5) vl ap]
  let ?res = "?st\<lparr>cs_segs := butlast (cs_segs ?st) @ [s], cs_meta := copy_cols c lr (sg_seqNum s) pos (cs_meta ?st),
      cs_repoint := cs_repoint ?st @ [\<lparr>rp_OldPos = lr_oldPos lr, rp_NewPos = of_nat (?n div ?k) * of_nat ?k + of_nat pos, rp_PointID = lr_id lr\<rparr>]\<rparr>"
  have res: "fst (copy_live conv c lr (st, buf)) = ?res"
    using di ap N(2) by (simp add: copy_live_def Let_def)
  have np: "of_nat (?n div ?k) * of_nat ?k + of_nat pos = (of_nat ?n :: u32)"
    by (simp add: A(2) flip: of_nat_mult of_nat_add)
  obtain ws where ws: "cs_meta st = fold run_meta ws ?M" using C(6) by blast
  have md: "col_def_at (cs_meta st) k = col_def_at ?M k" for k using history_typed(2) ws by simp
  note R = copy_cols_reads [OF h md, of lr "sg_seqNum s" pos]
  have ex: "map_of (cs_meta st) k = None \<longleftrightarrow> map_of ?M k = None" for k
    using md [of k] by (auto simp: col_def_at_def)
  have seq: "cl_nextSeq c + of_nat (i div ?k) \<noteq> sg_seqNum s \<or> i mod ?k \<noteq> pos" if "i < ?n" for i
  proof (rule ccontr)
    assume "\<not> ?thesis"
    then have eq: "(of_nat (i div ?k) :: u32) = of_nat (?n div ?k)" "i mod ?k = ?n mod ?k" using A(2,3) by auto
    have "i div ?k < 2 ^ 32" "?n div ?k < 2 ^ 32"
      using that n32 div_le_dividend [of i ?k] div_le_dividend [of ?n ?k] by linarith+
    then have "i div ?k = ?n div ?k" using of_nat_u32_inj eq(1) by blast
    then have "i = ?n" using eq(2) by (metis div_mult_mod_eq)
    then show False using that by simp
  qed
  have meta: "read_cell (map_of (cs_meta ?res) k) (cl_nextSeq c + of_nat (i div ?k)) (i mod ?k) =
      map_option (\<lambda>_. row_get c (lr_segSeq ((xs @ [lr]) ! i)) (lr_slotPos ((xs @ [lr]) ! i)) k) (map_of ?M k)"
    if "i < Suc ?n" for i k
  proof (cases "i = ?n")
    case True
    then show ?thesis using R(1) [of k] A(2,3) ex [of k] N(6) by (cases "map_of ?M k"; cases "map_of (cs_meta st) k") simp_all
  next
    case False
    then have i: "i < ?n" using that by simp
    have "\<not> (cl_nextSeq c + of_nat (i div ?k) = sg_seqNum s \<and> i mod ?k = pos)" using seq [OF i] by blast
    then have "read_cell (map_of (copy_cols c lr (sg_seqNum s) pos (cs_meta st)) k) (cl_nextSeq c + of_nat (i div ?k)) (i mod ?k) =
        read_cell (map_of (cs_meta st) k) (cl_nextSeq c + of_nat (i div ?k)) (i mod ?k)"
      unfolding R(1) by (rule if_not_P)
    then show ?thesis using C(7) [OF i, of k] N(6) i by (simp add: nth_append)
  qed
  have held: "held conv c (cs_segs ?res ! (i div ?k)) (i mod ?k) ((xs @ [lr]) ! i)" if "i < Suc ?n" for i
  proof (cases "i = ?n")
    case True
    then show ?thesis using A(5) [of lr] by simp
  next
    case False
    then have i: "i < ?n" using that by simp
    have "i div ?k < length (cs_segs st)"
      using i C(1) cap by (simp add: packed_def div_less_iff_less_mult)
    then show ?thesis using A(4) [OF i] N(8) C(4) [OF i] i by (simp add: nth_append)
  qed
  have "packed c (Suc ?n) (cs_segs ?res)" "length (cs_segs ?res) = Suc (?n div ?k)" using A(1) N(2) by simp_all
  moreover have "Suc (?n div ?k) * ?k < Suc ?n + ?k" by (simp add: less_Suc_eq_le)
  moreover have "\<exists>ws. cs_meta ?res = fold run_meta ws ?M"
  proof -
    obtain vs where "copy_cols c lr (sg_seqNum s) pos (cs_meta st) = fold run_meta vs (cs_meta st)" using R(2) by blast
    then have "cs_meta ?res = fold run_meta (ws @ vs) ?M" using ws N(6) by simp
    then show ?thesis by blast
  qed
  moreover have "cs_repoint ?res = map (\<lambda>i. \<lparr>rp_OldPos = lr_oldPos ((xs @ [lr]) ! i), rp_NewPos = of_nat i,
      rp_PointID = lr_id ((xs @ [lr]) ! i)\<rparr>) [0..<Suc ?n]"
    using C(5) N(7) np by (simp add: nth_append)
  ultimately show ?thesis using held meta N(2,3) unfolding res copied_def by simp
qed

lemma copy_loop:
  assumes ok: "coll_ok c" and h: "meta_history c"
  shows "set ys \<subseteq> set (gather c) \<Longrightarrow> copied conv c xs st \<Longrightarrow> length xs + length ys < 2 ^ 32 \<Longrightarrow>
    copied conv c (xs @ ys) (fst (fold (copy_live conv c) ys (st, buf)))"
proof (induction ys arbitrary: xs st buf)
  case (Cons lr ys)
  obtain st1 buf1 where s1: "copy_live conv c lr (st, buf) = (st1, buf1)" by fastforce
  have "copied conv c (xs @ [lr]) st1"
    using copy_live_copied [OF ok h _ Cons(3), of lr buf] Cons(2,4) s1 by simp
  from Cons(1) [OF _ this, of buf1] show ?case using Cons(2,4) s1 by simp
qed simp

section \<open>The swap\<close>

lemma dir_loop_dir:
  "distinct (map sg_seqNum ss) \<Longrightarrow>
   fst (dir_loop i ss d op) q = Some x \<longleftrightarrow>
     (\<exists>j < length ss. x = i + j \<and> sg_seqNum (ss ! j) = q) \<or> (q \<notin> sg_seqNum ` set ss \<and> d q = Some x)"
proof (induction ss arbitrary: i d op)
  case (Cons s ss)
  have "(\<exists>j < length (s # ss). x = i + j \<and> sg_seqNum ((s # ss) ! j) = q) \<longleftrightarrow>
      (x = i \<and> sg_seqNum s = q) \<or> (\<exists>j < length ss. x = Suc i + j \<and> sg_seqNum (ss ! j) = q)"
    by (auto simp: less_Suc_eq_0_disj)
  moreover have "sg_seqNum s \<notin> sg_seqNum ` set ss" using Cons(2) by simp
  ultimately show ?case using Cons by auto
qed simp

lemma dir_loop_open: "snd (dir_loop i ss d op) = Some x \<Longrightarrow> op = Some x \<or> (i \<le> x \<and> x < i + length ss)"
proof (induction ss arbitrary: i d op)
  case (Cons s ss)
  from Cons(1) [of "Suc i"] Cons(2) show ?case by (fastforce split: if_splits)
qed simp

lemma applyRepoint_other:
  "pid \<notin> rp_PointID ` set rs \<Longrightarrow> id_fwd (applyRepoint m rs loc) pid = id_fwd m pid"
  by (induction rs arbitrary: m) simp_all

lemma applyRepoint_fwd:
  assumes "distinct (map rp_PointID rs)" and "r \<in> set rs" and "id_fwd m (rp_PointID r) \<noteq> None"
  shows "id_fwd (applyRepoint m rs loc) (rp_PointID r) = Some (loc (rp_NewPos r))"
  using assms
proof (induction rs arbitrary: m)
  case (Cons x rs)
  show ?case
  proof (cases "r = x")
    case True
    then show ?thesis using Cons(2,4) by (simp add: applyRepoint_other)
  next
    case False
    then have "r \<in> set rs" "rp_PointID r \<noteq> rp_PointID x" using Cons(2,3) by (auto simp: image_iff)
    then show ?thesis using Cons(1,2,4) by simp
  qed
qed simp

lemma length_gather:
  assumes "coll_ok c" and "addressable c"
  shows "length (gather c) \<le> length (cl_segs c) * cl_capacity c"
proof -
  let ?ps = "map (unat \<circ> lr_oldPos) (gather c)"
  have "x < length (cl_segs c) * cl_capacity c" if "x \<in> set ?ps" for x
  proof -
    obtain lr where lr: "lr \<in> set (gather c)" "x = unat (lr_oldPos lr)" using \<open>x \<in> set ?ps\<close> by auto
    then obtain di p where d: "di < length (cl_segs c)" "live_slot (cl_segs c ! di) p" "lr = live_ref c di p"
      using gather_set [OF assms(1)] by blast
    have "p < cl_capacity c" using coll_okD(4) [OF assms(1) d(1)] d(2) by (simp add: seg_in_def seg_ok_def live_slot_def)
    from colPos_exact [OF assms(2) d(1) this] show ?thesis using lr d by (simp add: live_ref_def)
  qed
  moreover have "distinct ?ps" using gather_sorted [OF assms] strict_sorted_iff by blast
  ultimately show ?thesis
    using card_mono [of "{..< length (cl_segs c) * cl_capacity c}" "set ?ps"] distinct_card [of ?ps] by auto
qed

end
