(* ===== verification/Storage_Swap.thy ===== *)
theory Storage_Swap
  imports Storage_Compact
begin

text \<open>
  The directory swap of compaction: the rebuilt id map and directory satisfy the invariant,
  and every point is stored as before.
\<close>

text \<open>The slots of the packed segments are the gathered points in order.\<close>

lemma packed_placed:
  assumes pk: "packed c (length xs) segs" and cap: "0 < cl_capacity c"
    and held: "\<And>i. i < length xs \<Longrightarrow> held conv c (segs ! (i div cl_capacity c)) (i mod cl_capacity c) (xs ! i)"
  shows "placed segs pid q p \<longleftrightarrow>
    (\<exists>i < length xs. q = cl_nextSeq c + of_nat (i div cl_capacity c) \<and> p = i mod cl_capacity c \<and> lr_id (xs ! i) = pid)"
proof -
  let ?k = "cl_capacity c" and ?n = "length xs"
  have seg: "sg_seqNum (segs ! j) = cl_nextSeq c + of_nat j" "live_slot (segs ! j) r \<longleftrightarrow> r < ?k \<and> j * ?k + r < ?n"
    if "j < length segs" for j r
    using pk that by (auto simp: packed_def)
  have idx: "i div ?k < length segs" "i mod ?k < ?k" if "i < ?n" for i
    using that pk cap by (simp_all add: packed_def div_less_iff_less_mult)
  show ?thesis
  proof
    assume "placed segs pid q p"
    then obtain j where j: "j < length segs" "sg_seqNum (segs ! j) = q" "live_slot (segs ! j) p" "sg_backward (segs ! j) ! p = pid"
      by (auto simp: placed_def)
    then have i: "j * ?k + p < ?n" "(j * ?k + p) div ?k = j" "(j * ?k + p) mod ?k = p" using seg(2) [OF j(1)] by auto
    then have "lr_id (xs ! (j * ?k + p)) = pid" using held [OF i(1)] j(4) by (simp add: held_def)
    then show "\<exists>i < ?n. q = cl_nextSeq c + of_nat (i div ?k) \<and> p = i mod ?k \<and> lr_id (xs ! i) = pid"
      using i j(2) seg(1) [OF j(1)] by (intro exI [of _ "j * ?k + p"]) simp
  next
    assume "\<exists>i < ?n. q = cl_nextSeq c + of_nat (i div ?k) \<and> p = i mod ?k \<and> lr_id (xs ! i) = pid"
    then obtain i where i: "i < ?n" "q = cl_nextSeq c + of_nat (i div ?k)" "p = i mod ?k" "lr_id (xs ! i) = pid" by blast
    have "live_slot (segs ! (i div ?k)) p" using seg(2) [OF idx(1) [OF i(1)]] idx(2) [OF i(1)] i by simp
    moreover have "sg_backward (segs ! (i div ?k)) ! p = pid" using held [OF i(1)] i by (simp add: held_def)
    ultimately show "placed segs pid q p"
      using seg(1) [OF idx(1) [OF i(1)]] idx(1) [OF i(1)] i(2) unfolding placed_def by blast
  qed
qed

text \<open>What the copy loop leaves for the swap.\<close>

definition swap_ready :: "(f32 \<Rightarrow> int) \<Rightarrow> collection \<Rightarrow> compact_state \<Rightarrow> bool" where
  "swap_ready conv c st \<longleftrightarrow> coll_ok c \<and> addressable c \<and> meta_history c \<and> copied conv c (gather c) st \<and>
     unat (cl_nextSeq c) + length (gather c) < 2 ^ 32"

lemma swap_segs:
  assumes "swap_ready conv c st"
  shows "length (cs_segs st) \<le> length (gather c)" and "distinct (map sg_seqNum (cs_segs st))"
    and "j < length (cs_segs st) \<Longrightarrow> sg_seqNum (cs_segs st ! j) = cl_nextSeq c + of_nat j \<and> sg_seqNum (cs_segs st ! j) < cs_seq st"
    and "length (gather c) < 2 ^ 32"
proof -
  let ?n = "length (gather c)" and ?k = "cl_capacity c" and ?L = "length (cs_segs st)"
  have cap: "0 < ?k" using assms coll_okD(1) by (auto simp: swap_ready_def)
  have C: "packed c ?n (cs_segs st)" "?L * ?k < ?n + ?k" "cs_seq st = cl_nextSeq c + of_nat ?L"
    using assms by (auto simp: swap_ready_def copied_def)
  show n: "?n < 2 ^ 32" using assms by (simp add: swap_ready_def)
  show le: "?L \<le> ?n"
  proof (cases ?L)
    case (Suc l)
    then have "l * ?k < ?n" using C(2) by simp
    then show ?thesis using Suc cap by (metis Suc_leI le_less_trans less_le_not_le mult.commute mult_le_mono1 nat_mult_1 One_nat_def)
  qed simp
  have seq: "sg_seqNum (cs_segs st ! j) = cl_nextSeq c + of_nat j" if "j < ?L" for j using C(1) that by (simp add: packed_def)
  have bnd: "unat (cl_nextSeq c) + ?L < 2 ^ 32" using le assms by (simp add: swap_ready_def)
  have un: "unat (cl_nextSeq c + of_nat j) = unat (cl_nextSeq c) + j" if "j \<le> ?L" for j
    using that bnd by (simp add: unat_word_ariths unat_of_nat)
  have "sg_seqNum (cs_segs st ! j) < cs_seq st" if "j < ?L" for j
    using seq [OF that] un [of j] un [of ?L] that C(3) by (simp add: word_less_nat_alt)
  then show "j < ?L \<Longrightarrow> sg_seqNum (cs_segs st ! j) = cl_nextSeq c + of_nat j \<and> sg_seqNum (cs_segs st ! j) < cs_seq st"
    using seq by blast
  have "i = j" if "i < ?L" "j < ?L" "sg_seqNum (cs_segs st ! i) = sg_seqNum (cs_segs st ! j)" for i j
    using that(3) seq [OF that(1)] seq [OF that(2)] un [of i] un [of j] that(1,2) by (metis add_left_cancel less_imp_le)
  then show "distinct (map sg_seqNum (cs_segs st))" by (auto simp: distinct_conv_nth)
qed

definition new_loc :: "collection \<Rightarrow> compact_state \<Rightarrow> u32 \<Rightarrow> u32 \<times> nat" where
  "new_loc c st p = (sg_seqNum (cs_segs st ! (unat p div cl_capacity c)), unat p mod cl_capacity c)"

lemma repointed:
  assumes r: "swap_ready conv c st"
  shows "id_fwd (applyRepoint (cl_idmap c) (cs_repoint st) (new_loc c st)) pid = Some (q, p) \<longleftrightarrow>
    (\<exists>i < length (gather c). q = cl_nextSeq c + of_nat (i div cl_capacity c) \<and> p = i mod cl_capacity c \<and> lr_id (gather c ! i) = pid)"
proof -
  let ?xs = "gather c" and ?k = "cl_capacity c" and ?im = "applyRepoint (cl_idmap c) (cs_repoint st) (new_loc c st)"
  have ok: "coll_ok c" and ad: "addressable c" using r by (simp_all add: swap_ready_def)
  have pk: "packed c (length ?xs) (cs_segs st)" and
    rp: "cs_repoint st = map (\<lambda>i. \<lparr>rp_OldPos = lr_oldPos (?xs ! i), rp_NewPos = of_nat i, rp_PointID = lr_id (?xs ! i)\<rparr>) [0..<length ?xs]"
    using r by (simp_all add: swap_ready_def copied_def)
  have ids: "map rp_PointID (cs_repoint st) = map lr_id ?xs" unfolding rp by (intro nth_equalityI) simp_all
  have dist: "distinct (map rp_PointID (cs_repoint st))" using gather_ids(1) [OF ok ad] ids by simp
  have dist': "distinct (map lr_id ?xs)" by (rule gather_ids(1) [OF ok ad])
  have at: "id_fwd ?im (lr_id (?xs ! i)) = Some (cl_nextSeq c + of_nat (i div ?k), i mod ?k)" if i: "i < length ?xs" for i
  proof -
    let ?r = "\<lparr>rp_OldPos = lr_oldPos (?xs ! i), rp_NewPos = of_nat i, rp_PointID = lr_id (?xs ! i)\<rparr>"
    have "?r \<in> set (cs_repoint st)" using i by (auto simp: rp)
    moreover have "id_fwd (cl_idmap c) (lr_id (?xs ! i)) \<noteq> None" using gather_ids(2) [OF ok ad] i by simp
    ultimately have "id_fwd ?im (lr_id (?xs ! i)) = Some (new_loc c st (of_nat i))"
      using applyRepoint_fwd [OF dist, of ?r "cl_idmap c" "new_loc c st"] by simp
    moreover have "unat (of_nat i :: u32) = i" using i swap_segs(4) [OF r] by (simp add: unat_of_nat)
    moreover have "i div ?k < length (cs_segs st)"
      using i pk coll_okD(1) [OF ok] by (simp add: packed_def div_less_iff_less_mult)
    ultimately show ?thesis using swap_segs(3) [OF r] by (simp add: new_loc_def)
  qed
  show ?thesis
  proof (cases "pid \<in> lr_id ` set ?xs")
    case True
    then obtain i where i: "i < length ?xs" "lr_id (?xs ! i) = pid" by (auto simp: in_set_conv_nth)
    have "j = i" if "j < length ?xs" "lr_id (?xs ! j) = pid" for j
      using nth_eq_iff_index_eq [OF dist', of j i] that i by simp
    then have "(\<exists>j < length ?xs. q = cl_nextSeq c + of_nat (j div ?k) \<and> p = j mod ?k \<and> lr_id (?xs ! j) = pid) \<longleftrightarrow>
        q = cl_nextSeq c + of_nat (i div ?k) \<and> p = i mod ?k" using i by blast
    moreover have "id_fwd ?im pid = Some (q, p) \<longleftrightarrow> q = cl_nextSeq c + of_nat (i div ?k) \<and> p = i mod ?k"
      using at [OF i(1)] unfolding i(2) by auto
    ultimately show ?thesis by blast
  next
    case False
    have "rp_PointID ` set (cs_repoint st) = lr_id ` set ?xs" using ids by (metis list.set_map)
    then have "id_fwd ?im pid = None"
      using False applyRepoint_other [of pid "cs_repoint st" "cl_idmap c" "new_loc c st"] gather_ids(3) [OF ok ad] by simp
    then show ?thesis using False by auto
  qed
qed

definition swapped :: "collection \<Rightarrow> compact_state \<Rightarrow> collection" where
  "swapped c st = rebuildDir (c\<lparr>cl_idmap := applyRepoint (cl_idmap c) (cs_repoint st) (new_loc c st),
     cl_segs := cs_segs st, cl_meta := cs_meta st, cl_nextSeq := cs_seq st\<rparr>)"

lemma swapped_ok:
  assumes r: "swap_ready conv c st"
  shows "coll_ok (swapped c st)"
proof -
  let ?c = "swapped c st"
  have ok: "coll_ok c" using r by (simp add: swap_ready_def)
  obtain d x where dl: "dir_loop 0 (cs_segs st) Map.empty None = (d, x)" by fastforce
  have sel: "cl_segs ?c = cs_segs st" "cl_dirOf ?c = d" "cl_openIdx ?c = x" "cl_nextSeq ?c = cs_seq st"
    "cl_idmap ?c = applyRepoint (cl_idmap c) (cs_repoint st) (new_loc c st)"
    "cl_capacity ?c = cl_capacity c" "cl_codec ?c = cl_codec c" "cl_stride ?c = cl_stride c" "cl_dims ?c = cl_dims c"
    using dl by (simp_all add: swapped_def rebuildDir_def)
  have pk: "packed c (length (gather c)) (cs_segs st)"
    "\<And>i. i < length (gather c) \<Longrightarrow> held conv c (cs_segs st ! (i div cl_capacity c)) (i mod cl_capacity c) (gather c ! i)"
    using r by (simp_all add: swap_ready_def copied_def)
  have "seg_in ?c s" if "s \<in> set (cs_segs st)" for s
    using that pk(1) swap_segs(3) [OF r] by (auto simp: in_set_conv_nth packed_def seg_in_def sel)
  moreover have "d q = Some di \<longleftrightarrow> di < length (cs_segs st) \<and> sg_seqNum (cs_segs st ! di) = q" for q di
    using dir_loop_dir [OF swap_segs(2) [OF r], of 0 Map.empty None q di] dl by auto
  moreover have "x = Some i \<Longrightarrow> i < length (cs_segs st)" for i
    using dir_loop_open [of 0 "cs_segs st" Map.empty None i] dl by simp
  moreover have "placed (cs_segs st) pid q p \<longleftrightarrow> id_fwd (cl_idmap ?c) pid = Some (q, p)" for pid q p
    unfolding sel(5) repointed [OF r] by (rule packed_placed [OF pk(1) coll_okD(1) [OF ok] pk(2)])
  ultimately show ?thesis using ok by (simp add: coll_ok_def sel)
qed

lemma swapped_point:
  assumes r: "swap_ready conv c st" and i: "i < length (gather c)"
  shows "stored (swapped c st) (lr_id (gather c ! i)) =
      Some (Inr (decode (cl_codec c) (encode conv (cl_codec c) (old_vector c (gather c ! i)))), lr_version (gather c ! i),
        row_get c (lr_segSeq (gather c ! i)) (lr_slotPos (gather c ! i)))"
    and "lookup_id (swapped c st) (lr_id (gather c ! i)) = Inr (of_nat i)"
proof -
  let ?c = "swapped c st" and ?k = "cl_capacity c" and ?lr = "gather c ! i"
  have ok: "coll_ok c" and h: "meta_history c" using r by (simp_all add: swap_ready_def)
  have cap: "0 < ?k" by (rule coll_okD(1) [OF ok])
  have C: "packed c (length (gather c)) (cs_segs st)" "held conv c (cs_segs st ! (i div ?k)) (i mod ?k) ?lr"
    "\<And>k. read_cell (map_of (cs_meta st) k) (cl_nextSeq c + of_nat (i div ?k)) (i mod ?k) =
        map_option (\<lambda>_. row_get c (lr_segSeq ?lr) (lr_slotPos ?lr) k) (map_of (newMetadataStore (cl_columns c)) k)"
    using r i by (simp_all add: swap_ready_def copied_def)
  have sel: "cl_segs ?c = cs_segs st" "cl_meta ?c = cs_meta st" "cl_capacity ?c = ?k"
    by (simp_all add: swapped_def rebuildDir_def split: prod.split)
  have L: "i div ?k < length (cs_segs st)" using i C(1) cap by (simp add: packed_def div_less_iff_less_mult)
  have sq: "sg_seqNum (cs_segs st ! (i div ?k)) = cl_nextSeq c + of_nat (i div ?k)" using swap_segs(3) [OF r L] by simp
  have fw: "id_fwd (cl_idmap ?c) (lr_id ?lr) = Some (sg_seqNum (cl_segs ?c ! (i div ?k)), i mod ?k)"
    using repointed [OF r] i sq sel(1) by (auto simp: swapped_def rebuildDir_def split: prod.split)
  have row: "row_get ?c (cl_nextSeq c + of_nat (i div ?k)) (i mod ?k) k = row_get c (lr_segSeq ?lr) (lr_slotPos ?lr) k" for k
  proof (cases "map_of (newMetadataStore (cl_columns c)) k")
    case None
    then show ?thesis using C(3) [of k] history_unknown [OF h, of k] by (simp add: row_get_read_cell sel col_def_at_def)
  next
    case (Some col)
    then show ?thesis using C(3) [of k] by (simp add: row_get_read_cell [of ?c] sel)
  qed
  show "stored ?c (lr_id ?lr) = Some (Inr (decode (cl_codec c) (encode conv (cl_codec c) (old_vector c ?lr))), lr_version ?lr,
      row_get c (lr_segSeq ?lr) (lr_slotPos ?lr))"
    using stored_at [OF swapped_ok [OF r], of "i div ?k", unfolded sel(1), OF L] fw C(2) sq row
    by (auto simp: sel held_def fun_eq_iff)
  have "cl_dirOf ?c (sg_seqNum (cl_segs ?c ! (i div ?k))) = Some (i div ?k)"
    using coll_okD(5) [OF swapped_ok [OF r]] L sel(1) by simp
  moreover have "of_nat (i div ?k) * of_nat ?k + of_nat (i mod ?k) = (of_nat i :: u32)"
    by (simp flip: of_nat_mult of_nat_add)
  ultimately show "lookup_id ?c (lr_id ?lr) = Inr (of_nat i)"
    using fw sel(3) by (simp add: lookup_id_def ForwardLookup_def segBySeq_def colPos_def)
qed

section \<open>Compaction as a whole\<close>

lemma compact_coll_swapped:
  assumes ok: "coll_ok c" and ad: "addressable c" and h: "meta_history c"
    and room: "unat (cl_nextSeq c) + length (gather c) < 2 ^ 32"
    and r: "compact_coll conv c = (c', rp)"
  obtains st where "swap_ready conv c st" and "c' = swapped c st" and "rp = cs_repoint st"
proof -
  define st0 where "st0 = \<lparr>cs_segs = [], cs_meta = newMetadataStore (cl_columns c), cs_seq = cl_nextSeq c, cs_repoint = []\<rparr>"
  obtain st buf where st: "fold (copy_live conv c) (gather c) (st0, replicate (unat (cl_dims c)) 0) = (st, buf)" by fastforce
  have "\<exists>ws. newMetadataStore (cl_columns c) = fold run_meta ws (newMetadataStore (cl_columns c))"
    by (rule exI [of _ "[]"]) simp
  then have "copied conv c [] st0"
    using coll_okD(1) [OF ok] by (simp add: copied_def packed_def st0_def)
  from copy_loop [OF ok h _ this, of "gather c" "replicate (unat (cl_dims c)) 0"] have "copied conv c (gather c) st"
    using room st by simp
  then have "swap_ready conv c st" using ok ad h room by (simp add: swap_ready_def)
  moreover have "c' = swapped c st" "rp = cs_repoint st"
    using r st unfolding compact_coll_def st0_def [symmetric] swapped_def new_loc_def by (auto simp: Let_def)
  ultimately show thesis by (rule that)
qed

lemma swapped_dead:
  assumes r: "swap_ready conv c st"
  shows "snd (liveTotal (swapped c st)) = 0"
proof -
  have pk: "packed c (length (gather c)) (cs_segs st)" using r by (simp add: swap_ready_def copied_def)
  have "sg_deadCount s = 0" if s: "s \<in> set (cs_segs st)" for s
  proof -
    obtain j where j: "j < length (cs_segs st)" "s = cs_segs st ! j" using s by (auto simp: in_set_conv_nth)
    then have sok: "seg_ok s" and lv: "\<And>p. live_slot s p \<longleftrightarrow> p < sg_nextPos s" using pk by (simp_all add: packed_def)
    have none: "{p. p < sg_nextPos s \<and> bit_at (sg_tomb s) p} = {}" using lv live_slot_iff [OF sok] by auto
    show ?thesis using sok unfolding seg_ok_def none by simp
  qed
  then show ?thesis by (simp add: liveTotal_def swapped_def rebuildDir_def split: prod.split)
qed

text \<open>The gathered point a stored id names.\<close>

lemma gathered_point:
  assumes ok: "coll_ok c" and ad: "addressable c" and i: "i < length (gather c)"
  shows "stored c (lr_id (gather c ! i)) = Some (Inr (old_vector c (gather c ! i)), lr_version (gather c ! i),
      row_get c (lr_segSeq (gather c ! i)) (lr_slotPos (gather c ! i)))"
    and "lookup_id c (lr_id (gather c ! i)) = Inr (lr_oldPos (gather c ! i))"
proof -
  let ?lr = "gather c ! i"
  have lr: "?lr \<in> set (gather c)" using i by simp
  obtain di p where d: "di < length (cl_segs c)" "live_slot (cl_segs c ! di) p" "?lr = live_ref c di p"
    using lr gather_set [OF ok] by blast
  have fw: "id_fwd (cl_idmap c) (lr_id ?lr) = Some (sg_seqNum (cl_segs c ! di), p)"
    using gather_ids(2) [OF ok ad lr] d(3) by (simp add: live_ref_def)
  have dir: "cl_dirOf c (sg_seqNum (cl_segs c ! di)) = Some di" using coll_okD(5) [OF ok] d(1) by simp
  obtain dj where dj: "segBySeq c (lr_segSeq ?lr) = Some dj" "seg_FetchVector (cl_segs c ! dj) (lr_slotPos ?lr) = Inr (old_vector c ?lr)"
    using gather_vector(1) [OF ok lr] by blast
  have "dj = di" using dj(1) dir d(3) by (simp add: segBySeq_def live_ref_def)
  then show "stored c (lr_id ?lr) = Some (Inr (old_vector c ?lr), lr_version ?lr, row_get c (lr_segSeq ?lr) (lr_slotPos ?lr))"
    using stored_at [OF ok d(1) fw] dj(2) d(3) by (simp add: live_ref_def)
  show "lookup_id c (lr_id ?lr) = Inr (lr_oldPos ?lr)"
    using fw dir d(3) by (simp add: lookup_id_def ForwardLookup_def segBySeq_def live_ref_def)
qed

lemma gathered_cases:
  assumes ok: "coll_ok c" and ad: "addressable c"
  obtains (absent) "stored c pid = None" | (live) i where "i < length (gather c)" and "pid = lr_id (gather c ! i)"
proof (cases "pid \<in> lr_id ` set (gather c)")
  case True
  then show thesis by (auto simp: in_set_conv_nth intro: live)
next
  case False
  then show thesis using gather_ids(3) [OF ok ad, of pid] stored_Some [OF ok, of pid] by (intro absent) simp
qed

text \<open>One pass of a vector through the codec of a collection, as compaction copies it.\<close>

definition recoded :: "(f32 \<Rightarrow> int) \<Rightarrow> collection \<Rightarrow> f32 list \<Rightarrow> f32 list" where
  "recoded conv c v = decode (cl_codec c) (encode conv (cl_codec c) v)"

lemma recoded_fp32: "cl_codec c = fp32Codec n \<Longrightarrow> length v = n \<Longrightarrow> recoded conv c v = v"
  using fp32_lossless [of n v conv] by (simp add: recoded_def)

lemma compact_points:
  assumes r: "swap_ready conv c st"
  shows "stored (swapped c st) pid = map_option (\<lambda>(v, ver, row). (map_sum id (recoded conv c) v, ver, row)) (stored c pid)"
    and "cl_codec c = fp32Codec n \<Longrightarrow> stored (swapped c st) pid = stored c pid"
    and "lookup_id c pid = Inr old \<and> lookup_id (swapped c st) pid = Inr new \<longleftrightarrow>
      \<lparr>rp_OldPos = old, rp_NewPos = new, rp_PointID = pid\<rparr> \<in> set (cs_repoint st)"
proof -
  have ok: "coll_ok c" and ad: "addressable c" using r by (simp_all add: swap_ready_def)
  have rp: "cs_repoint st = map (\<lambda>i. \<lparr>rp_OldPos = lr_oldPos (gather c ! i), rp_NewPos = of_nat i,
      rp_PointID = lr_id (gather c ! i)\<rparr>) [0..<length (gather c)]"
    using r by (simp add: swap_ready_def copied_def)
  have gone: "id_fwd (cl_idmap (swapped c st)) pid = None" if "pid \<notin> lr_id ` set (gather c)"
  proof -
    have "id_fwd (cl_idmap (swapped c st)) pid \<noteq> Some (q, p)" for q p
      using repointed [OF r, of pid q p] that by (auto simp: swapped_def rebuildDir_def split: prod.split)
    then show ?thesis by (cases "id_fwd (cl_idmap (swapped c st)) pid") auto
  qed
  have "stored (swapped c st) pid = map_option (\<lambda>(v, ver, row). (map_sum id (recoded conv c) v, ver, row)) (stored c pid) \<and>
    (cl_codec c = fp32Codec n \<longrightarrow> stored (swapped c st) pid = stored c pid)"
    using ok ad
  proof (cases rule: gathered_cases [where pid = pid])
    case absent
    then have "pid \<notin> lr_id ` set (gather c)" using stored_Some [OF ok] gather_ids(3) [OF ok ad] by blast
    then show ?thesis using absent gone by (simp add: stored_def)
  next
    case (live i)
    have "length (old_vector c (gather c ! i)) = codec_dims (cl_codec c)" using gather_vector(2) [OF ok] live(1) by simp
    then show ?thesis
      using live gathered_point(1) [OF ok ad live(1)] swapped_point(1) [OF r live(1)] recoded_fp32 [of c n _ conv]
      by (auto simp: recoded_def)
  qed
  then show "stored (swapped c st) pid = map_option (\<lambda>(v, ver, row). (map_sum id (recoded conv c) v, ver, row)) (stored c pid)"
    and "cl_codec c = fp32Codec n \<Longrightarrow> stored (swapped c st) pid = stored c pid" by blast+
  show "lookup_id c pid = Inr old \<and> lookup_id (swapped c st) pid = Inr new \<longleftrightarrow>
      \<lparr>rp_OldPos = old, rp_NewPos = new, rp_PointID = pid\<rparr> \<in> set (cs_repoint st)"
  proof
    assume l: "lookup_id c pid = Inr old \<and> lookup_id (swapped c st) pid = Inr new"
    then have "id_fwd (cl_idmap c) pid \<noteq> None" by (auto simp: lookup_id_def ForwardLookup_def split: option.splits)
    then obtain i where i: "i < length (gather c)" "lr_id (gather c ! i) = pid"
      using gather_ids(3) [OF ok ad, of pid] by (auto simp: in_set_conv_nth)
    then show "\<lparr>rp_OldPos = old, rp_NewPos = new, rp_PointID = pid\<rparr> \<in> set (cs_repoint st)"
      using l gathered_point(2) [OF ok ad i(1)] swapped_point(2) [OF r i(1)] by (auto simp: rp)
  next
    assume "\<lparr>rp_OldPos = old, rp_NewPos = new, rp_PointID = pid\<rparr> \<in> set (cs_repoint st)"
    then show "lookup_id c pid = Inr old \<and> lookup_id (swapped c st) pid = Inr new"
      using gathered_point(2) [OF ok ad] swapped_point(2) [OF r] by (auto simp: rp)
  qed
qed

text \<open>C5: compaction keeps every point.  It reclaims all deleted slots, keeps the invariant, and
  every id still stores its commit stamp, its metadata and its vector, passed once more
  through the codec and so unchanged for fp32.  The repoint table handed to the indexes
  lists exactly the ids with their old and new positions, in ascending old positions, and
  the new positions are 0, 1, 2 and so on without a gap.\<close>

theorem compaction_preserves:
  assumes "en_colls e k = Some c" and "coll_ok c" and "addressable c" and "meta_history c"
    and "unat (cl_nextSeq c) + length (gather c) < 2 ^ 32"
    and "k \<notin> en_compacting e" and "Compact conv e k lo hi = Some (e', err)"
  shows "\<exists>c' rp. en_colls e' k = Some c' \<and> coll_ok c' \<and> meta_history c' \<and> snd (liveTotal c') = 0 \<and>
    err = (case en_repointHook e of None \<Rightarrow> None | Some h \<Rightarrow> h k rp) \<and>
    (\<forall>pid. stored c' pid = map_option (\<lambda>(v, ver, row). (map_sum id (recoded conv c) v, ver, row)) (stored c pid)) \<and>
    (\<forall>n pid. cl_codec c = fp32Codec n \<longrightarrow> stored c' pid = stored c pid) \<and>
    (\<forall>pid old new. lookup_id c pid = Inr old \<and> lookup_id c' pid = Inr new \<longleftrightarrow>
       \<lparr>rp_OldPos = old, rp_NewPos = new, rp_PointID = pid\<rparr> \<in> set rp) \<and>
    sorted_wrt (<) (map (unat \<circ> rp_OldPos) rp) \<and> map (unat \<circ> rp_NewPos) rp = [0..<length rp]"
proof -
  obtain c' rp where cc: "compact_coll conv c = (c', rp)" by fastforce
  obtain st where st: "swap_ready conv c st" "c' = swapped c st" "rp = cs_repoint st"
    by (rule compact_coll_swapped [OF assms(2-5) cc])
  have C: "\<exists>ws. cs_meta st = fold run_meta ws (newMetadataStore (cl_columns c))"
    "rp = map (\<lambda>i. \<lparr>rp_OldPos = lr_oldPos (gather c ! i), rp_NewPos = of_nat i, rp_PointID = lr_id (gather c ! i)\<rparr>) [0..<length (gather c)]"
    using st(1,3) by (simp_all add: swap_ready_def copied_def)
  have "meta_history c'" using C(1) st(2) by (simp add: meta_history_def swapped_def rebuildDir_def split: prod.split)
  moreover have "map (unat \<circ> rp_OldPos) rp = map (unat \<circ> lr_oldPos) (gather c)"
    unfolding C(2) by (intro nth_equalityI) simp_all
  then have "sorted_wrt (<) (map (unat \<circ> rp_OldPos) rp)" using gather_sorted [OF assms(2,3)] by simp
  moreover have "map (unat \<circ> rp_NewPos) rp = [0..<length rp]"
    unfolding C(2) using swap_segs(4) [OF st(1)] by (intro nth_equalityI) (simp_all add: unat_of_nat)
  moreover have "en_colls e' k = Some c'" "err = (case en_repointHook e of None \<Rightarrow> None | Some h \<Rightarrow> h k rp)"
    using assms(1,6,7) cc by (auto simp: Compact_def put_coll_def split: if_splits)
  ultimately show ?thesis
    using swapped_ok [OF st(1)] swapped_dead [OF st(1)] compact_points [OF st(1)] unfolding st(2,3) by blast
qed

lemma demo_filter_coll_more:
  "cl_nextSeq demo_filter_coll = 1" "cl_columns demo_filter_coll = demo_columns" "cl_codec demo_filter_coll = fp32Codec 2"
  "id_fwd (cl_idmap demo_filter_coll) 7 = Some (0, 0)"
  by (simp_all add: demo_filter_coll_def appendPoint_def demo_meta_coll_eq ForwardLookup_def newIDMap_def ensureOpen_def Let_def
      upd_seg_def seg_append_def newSegment_def writeRow_def demo_columns_def cell_of_def IsNull_def id_insert_def bump_writes_def
      split: prod.split)
    (simp_all add: demo_meta_coll_def newCollection_def segCapacity_def demo_def_def demo_columns_def Let_def codecFor_def)

theorem compaction_preserves_witness:
  "\<exists>e' err c'. Compact (\<lambda>_. 0) (put_coll NewEngine 1 demo_filter_coll) 1 0 0 = Some (e', err) \<and>
     en_colls e' 1 = Some c' \<and> coll_ok c' \<and> stored c' 7 = stored demo_filter_coll 7 \<and> stored c' 7 \<noteq> None"
proof -
  let ?e = "put_coll NewEngine 1 demo_filter_coll" and ?c = demo_filter_coll
  have e: "en_colls ?e 1 = Some ?c" by (simp add: put_coll_def)
  have ad: "addressable ?c" by (simp add: addressable_def demo_filter_coll_eq)
  have "cl_meta ?c = fold run_meta [RowWrite 0 0 2 [(3, TextV [5])]] (newMetadataStore (cl_columns ?c))"
    by (simp add: demo_filter_coll_eq(1) demo_meta_coll_eq demo_filter_coll_more newMetadataStore_def demo_columns_def)
  then have h: "meta_history ?c" unfolding meta_history_def by blast
  have "length (gather ?c) \<le> 2"
    using length_gather [OF demo_filter_coll_ok ad] by (simp add: demo_filter_coll_eq)
  then have room: "unat (cl_nextSeq ?c) + length (gather ?c) < 2 ^ 32" by (simp add: demo_filter_coll_more)
  have nc: "1 \<notin> en_compacting ?e" by (simp add: put_coll_def NewEngine_def)
  obtain e' err where c: "Compact (\<lambda>_. 0) ?e 1 0 0 = Some (e', err)"
    using e nc by (cases "compact_coll (\<lambda>_. 0) ?c") (auto simp: Compact_def put_coll_def NewEngine_def)
  have "stored ?c 7 \<noteq> None" using stored_Some [OF demo_filter_coll_ok, of 7] by (simp add: demo_filter_coll_more)
  then show ?thesis
    using compaction_preserves [OF e demo_filter_coll_ok ad h room nc c] c demo_filter_coll_more(3) by metis
qed

end
