(* ===== verification/Storage_Run.thy ===== *)
theory Storage_Run
  imports Storage_Swap
begin

text \<open>
  Runs of the storage engine: every sequence of operations, whatever they return, keeps each
  collection's invariant, so that ids and positions stay inverse to each other and the
  counters count.
\<close>

section \<open>What every operation keeps\<close>

definition good :: "collection \<Rightarrow> bool" where
  "good c \<longleftrightarrow> coll_ok c \<and> meta_history c"

lemma meta_history_run: "meta_history c \<Longrightarrow> cl_meta c' = run_meta w (cl_meta c) \<Longrightarrow> cl_columns c' = cl_columns c \<Longrightarrow> meta_history c'"
proof -
  assume h: "meta_history c" and w: "cl_meta c' = run_meta w (cl_meta c)" "cl_columns c' = cl_columns c"
  obtain ws where "cl_meta c = fold run_meta ws (newMetadataStore (cl_columns c))" using h by (auto simp: meta_history_def)
  then have "cl_meta c' = fold run_meta (ws @ [w]) (newMetadataStore (cl_columns c'))" using w by simp
  then show ?thesis unfolding meta_history_def by blast
qed

lemma meta_history_same: "meta_history c \<Longrightarrow> cl_meta c' = cl_meta c \<Longrightarrow> cl_columns c' = cl_columns c \<Longrightarrow> meta_history c'"
  by (simp add: meta_history_def)

lemma upd_seg_columns [simp]: "cl_columns (upd_seg di g c) = cl_columns c" "cl_meta (upd_seg di g c) = cl_meta c"
  by (simp_all add: upd_seg_def)

lemma ensureOpen_columns: "ensureOpen c = (c1, di) \<Longrightarrow> cl_columns c1 = cl_columns c"
  by (auto simp: ensureOpen_eq add_segment_def Let_def split: option.splits if_splits)

lemma appendPoint_columns: "appendPoint conv t c k pid vec row = (c', t', r) \<Longrightarrow> cl_columns c' = cl_columns c"
  by (auto simp: appendPoint_def Let_def bump_writes_def dest: ensureOpen_columns split: if_splits sum.splits option.splits prod.splits)

lemma appendPoint_good:
  assumes g: "good c" and room: "cl_nextSeq c \<noteq> - 1" and a: "appendPoint conv t c k pid vec row = (c', t', r)"
  shows "good c'"
proof -
  have ok: "coll_ok c" and h: "meta_history c" using g by (simp_all add: good_def)
  have "coll_ok c'" using appendPoint_undoable [OF ok room a] by (simp add: undoable_def)
  moreover have "meta_history c'"
    using appendPoint_meta [OF ok room a] meta_history_run [OF h] meta_history_same [OF h] appendPoint_columns [OF a] by blast
  ultimately show ?thesis by (simp add: good_def)
qed

lemma delete_point_meta: "delete_point t c k pid = (c', t', r) \<Longrightarrow> cl_meta c' = cl_meta c \<and> cl_columns c' = cl_columns c"
  by (auto simp: delete_point_def bump_writes_def Let_def split: sum.splits option.splits prod.splits)

lemma delete_point_good:
  assumes g: "good c" and d: "delete_point t c k pid = (c', t', r)"
  shows "good c'"
  using delete_undoable(1) [of c t k pid c' t' r] delete_point_meta [OF d] assms
  by (auto simp: good_def undoable_def intro: meta_history_same)

text \<open>The first half of an upsert is a delete that registers another undo entry.\<close>

lemma upsert_point_good:
  assumes g: "good c" and room: "cl_nextSeq c \<noteq> - 1" and u: "upsert_point conv t c k pid vec row = (c', t', r, isnew)"
  shows "good c'"
proof (cases "id_fwd (cl_idmap c) pid")
  case None
  then obtain x where "appendPoint conv t c k pid vec row = (c', t', x)"
    using u by (auto simp: upsert_point_def ForwardLookup_def split: prod.splits)
  then show ?thesis by (rule appendPoint_good [OF g room])
next
  case (Some a)
  obtain q p where a: "a = (q, p)" by fastforce
  have ok: "coll_ok c" and h: "meta_history c" using g by (simp_all add: good_def)
  obtain di where di: "cl_dirOf c q = Some di" by (rule fwd_place [OF ok Some [unfolded a]])
  define c2 where "c2 = (upd_seg di (\<lambda>s. seg_tombstone s p) c)\<lparr>cl_idmap := fst (id_tombstone (cl_idmap c) pid)\<rparr>"
  have sel: "cl_segs c2 = (cl_segs c)[di := seg_tombstone (cl_segs c ! di) p]" "cl_idmap c2 = fst (id_tombstone (cl_idmap c) pid)"
    "cl_dirOf c2 = cl_dirOf c" "cl_openIdx c2 = cl_openIdx c" "cl_capacity c2 = cl_capacity c" "cl_codec c2 = cl_codec c"
    "cl_stride c2 = cl_stride c" "cl_dims c2 = cl_dims c" "cl_nextSeq c2 = cl_nextSeq c" "cl_meta c2 = cl_meta c"
    "cl_columns c2 = cl_columns c"
    by (simp_all add: c2_def upd_seg_def)
  have "id_fwd (fst (id_tombstone (cl_idmap c) pid)) = (id_fwd (cl_idmap c))(pid := None)"
    using Some by (simp add: id_tombstone_def)
  from tombstone_point(1) [OF ok Some [unfolded a] di this sel(1-10)] have "good c2"
    using meta_history_same [OF h sel(10,11)] by (simp add: good_def)
  moreover obtain x where "appendPoint conv (t\<lparr>tx_undo := tx_undo t @ [UndoReplace k q p]\<rparr>) c2 k pid vec row = (c', t', x)"
    using u Some a di by (auto simp: upsert_point_def ForwardLookup_def segBySeq_def c2_def Let_def upd_seg_def split: prod.splits)
  ultimately show ?thesis using appendPoint_good [of c2] room sel(9) by metis
qed

lemma update_cells_good:
  assumes "good c" and "update_cells t c k q p row = (c', t', r)"
  shows "good c'"
  using assms
proof (induction t c k q p row rule: update_cells.induct)
  case (2 t c k q p colID v row)
  obtain m err where m: "ms_WriteAt (cl_meta c) colID q p (cl_capacity c) v = (m, err)" by fastforce
  have "coll_ok (c\<lparr>cl_meta := m\<rparr>)" using 2(2) by (simp add: good_def coll_ok_def seg_in_def)
  moreover have "meta_history (c\<lparr>cl_meta := m\<rparr>)"
    using meta_history_run [of c _ "CellWrite colID q p (cl_capacity c) v"] 2(2) m by (simp add: good_def)
  ultimately have g: "good (c\<lparr>cl_meta := m\<rparr>)" by (simp add: good_def)
  show ?case
  proof (cases "ms_has (cl_meta c) colID \<and> err = None")
    case True
    then show ?thesis using 2(1) [OF _ refl m [symmetric] _ g] 2(3) m by (auto simp: Let_def)
  next
    case False
    then show ?thesis using 2(2,3) m g by (auto simp: Let_def split: if_splits option.splits)
  qed
qed simp

lemma seq_room:
  assumes "unat n + Suc k < 2 ^ 32"
  shows "n \<noteq> (- 1 :: u32)" and "n' = n \<or> n' = n + 1 \<Longrightarrow> unat n' + k < 2 ^ 32"
proof -
  show "n \<noteq> - 1" using assms unat_all_ones by auto
  have "unat (n + 1) = Suc (unat n)" using assms by (simp add: unat_word_ariths)
  then show "n' = n \<or> n' = n + 1 \<Longrightarrow> unat n' + k < 2 ^ 32" using assms by auto
qed

lemma insert_points_good:
  assumes "good c" and "unat (cl_nextSeq c) + length ps < 2 ^ 32" and "insert_points conv t c k ps out = (c', t', r)"
  shows "good c'"
  using assms
proof (induction ps arbitrary: t c out)
  case (Cons p ps)
  obtain c1 t1 x where a: "appendPoint conv t c k (pt_ID p) (pt_Vec p) (pt_Meta p) = (c1, t1, x)" by (metis prod_cases3)
  have room: "unat (cl_nextSeq c) + Suc (length ps) < 2 ^ 32" using Cons(3) by simp
  have g: "good c1" by (rule appendPoint_good [OF Cons(2) seq_room(1) [OF room] a])
  have "unat (cl_nextSeq c1) + length ps < 2 ^ 32" by (rule seq_room(2) [OF room appendPoint_nextSeq [OF a]])
  then show ?case using Cons(1) [OF g] Cons(4) a g by (cases x) auto
qed simp

lemma stamp_good:
  assumes g: "good c"
  shows "good (on_seg q (\<lambda>s. s\<lparr>sg_version := (sg_version s)[p := v]\<rparr>) c)"
proof (cases "cl_dirOf c q")
  case (Some di)
  have ok: "coll_ok c" using g by (simp add: good_def)
  have di: "di < length (cl_segs c)" using coll_okD(5) [OF ok] Some by auto
  let ?s = "(cl_segs c ! di)\<lparr>sg_version := (sg_version (cl_segs c ! di))[p := v]\<rparr>"
  have same: "seg_ok ?s = seg_ok (cl_segs c ! di)" "live_slot ?s r = live_slot (cl_segs c ! di) r" for r
    by (simp_all add: seg_ok_def live_slot_def IsTombstoned_def)
  have "coll_ok (upd_seg di (\<lambda>s. s\<lparr>sg_version := (sg_version s)[p := v]\<rparr>) c)"
  proof (rule coll_ok_upd [OF ok di])
    show "seg_in c ?s" using coll_okD(4) [OF ok di] same(1) by (simp add: seg_in_def)
    show "id_fwd (cl_idmap c) pid = Some (q, r) \<longleftrightarrow>
        (if q = sg_seqNum ?s then live_slot ?s r \<and> sg_backward ?s ! r = pid else id_fwd (cl_idmap c) pid = Some (q, r))" for pid q r
      using coll_okD(7) [OF ok, of pid q r] placed_seg [OF ok di] same(2) by auto
  qed (simp_all add: upd_seg_def)
  then show ?thesis using g Some by (auto simp: good_def on_seg_def intro: meta_history_same)
qed (use g in \<open>simp add: on_seg_def\<close>)

section \<open>Engines\<close>

definition all_good :: "Engine \<Rightarrow> bool" where
  "all_good e \<longleftrightarrow> (\<forall>k c. en_colls e k = Some c \<longrightarrow> good c)"

lemma all_good_put: "all_good e \<Longrightarrow> good c \<Longrightarrow> all_good (put_coll e k c)"
  by (simp add: all_good_def put_coll_def)

lemma all_good_sel [simp]:
  "all_good (e\<lparr>en_clock := ck\<rparr>) = all_good e" "all_good (e\<lparr>en_writerLocked := b\<rparr>) = all_good e"
  by (simp_all add: all_good_def)

lemma commit_good:
  assumes "all_good e" and "txn_Commit e t = (e', t', r)"
  shows "all_good e'"
proof -
  have one: "all_good (run_stamp v u e)" if "all_good e" for v u e
    using that stamp_good by (cases u) (auto simp: all_good_def on_coll_def split: option.splits)
  have "all_good (fold (run_stamp v) us e)" if "all_good e" for v us e
    using that one by (induction us arbitrary: e) simp_all
  then show ?thesis
    using assms by (auto simp: txn_Commit_def Let_def split: if_splits prod.splits)
qed

lemma seal_good:
  assumes "all_good e" and "SealSegment e k = (e', r)"
  shows "all_good e'"
proof -
  have "good ((upd_seg i (\<lambda>s. s\<lparr>sg_sealed := True\<rparr>) c)\<lparr>cl_openIdx := None\<rparr>)" if "good c" "cl_openIdx c = Some i" for c i
  proof -
    have "coll_ok (upd_seg i (\<lambda>s. s\<lparr>sg_sealed := True\<rparr>) c)"
      using seal_ok coll_okD(6) that by (auto simp: good_def)
    then have "coll_ok ((upd_seg i (\<lambda>s. s\<lparr>sg_sealed := True\<rparr>) c)\<lparr>cl_openIdx := None\<rparr>)"
      by (simp add: coll_ok_def seg_in_def)
    then show ?thesis using that by (auto simp: good_def intro: meta_history_same)
  qed
  then show ?thesis
    using assms by (auto simp: SealSegment_def all_good_def put_coll_def split: option.splits if_splits)
qed

fun slot_undo :: "undo_entry \<Rightarrow> bool" where
  "slot_undo (UndoAppend k pid q p) = True"
| "slot_undo (UndoDelete k pid q p) = True"
| "slot_undo _ = False"

lemma undo_meta:
  assumes "\<forall>u \<in> set us. slot_undo u"
  shows "cl_meta (fold undo_coll us c) = cl_meta c \<and> cl_columns (fold undo_coll us c) = cl_columns c"
proof -
  have "cl_meta (undo_coll u c) = cl_meta c \<and> cl_columns (undo_coll u c) = cl_columns c"
    if "slot_undo u" for u c
    using that by (cases u) (auto simp: on_seg_def Let_def split: option.split)
  then show ?thesis using assms by (induction us arbitrary: c) simp_all
qed

lemma run_writes_good:
  assumes "en_colls e k = Some c" and "good c" and "unat (cl_nextSeq c) + length ops < 2 ^ 32"
    and "fold (run_write conv k) ops (e, t) = (e', t')"
  shows "\<exists>c'. en_colls e' k = Some c' \<and> good c'"
  using assms
proof (induction ops arbitrary: e t c)
  case (Cons op ops)
  have room: "unat (cl_nextSeq c) + Suc (length ops) < 2 ^ 32" using Cons(4) by simp
  obtain e1 t1 where s1: "run_write conv k op (e, t) = (e1, t1)" by fastforce
  have "\<exists>c1. en_colls e1 k = Some c1 \<and> good c1 \<and> (cl_nextSeq c1 = cl_nextSeq c \<or> cl_nextSeq c1 = cl_nextSeq c + 1)"
  proof (cases op)
    case (InsertOp pid vec row)
    obtain c1 x y where a: "appendPoint conv t c k pid vec row = (c1, x, y)" by (metis prod_cases3)
    show ?thesis
      using s1 InsertOp Cons(2) a appendPoint_good [OF Cons(3) seq_room(1) [OF room] a] appendPoint_nextSeq [OF a]
      by (auto simp: Insert_def put_coll_def)
  next
    case (DeleteOp pid)
    obtain c1 x y where a: "delete_point t c k pid = (c1, x, y)" by (metis prod_cases3)
    have "coll_ok c" using Cons(3) by (simp add: good_def)
    then show ?thesis
      using s1 DeleteOp Cons(2) a delete_point_good [OF Cons(3) a] delete_undoable(2) [OF _ a] by (auto simp: Delete_def put_coll_def)
  qed
  then obtain c1 where c1: "en_colls e1 k = Some c1" "good c1" "cl_nextSeq c1 = cl_nextSeq c \<or> cl_nextSeq c1 = cl_nextSeq c + 1"
    by blast
  show ?case using Cons(1) [OF c1(1,2) seq_room(2) [OF room c1(3)]] Cons(5) s1 by simp
qed simp

lemma run_writes_undo:
  assumes "fold (run_write conv k) ops (e, t) = (e', t')"
    and "\<forall>u \<in> set (tx_undo t). slot_undo u"
  shows "\<forall>u \<in> set (tx_undo t'). slot_undo u"
  using assms
proof (induction ops arbitrary: e t)
  case (Cons op ops)
  obtain e1 t1 where s1: "run_write conv k op (e, t) = (e1, t1)" by fastforce
  have "\<forall>u \<in> set (tx_undo t1). slot_undo u"
    using s1 Cons(3)
    by (cases op) (auto simp: Insert_def Delete_def appendPoint_def delete_point_def Let_def
        split: if_splits sum.splits option.splits prod.splits)
  from Cons(1) [OF _ this] show ?case using Cons(2) s1 by simp
qed simp

lemma abort_good:
  assumes g: "all_good e" and k: "en_colls e k = Some c" and room: "unat (cl_nextSeq c) + length ops < 2 ^ 32"
    and b: "Begin e True = Some (e1, t1)" and w: "fold (run_write conv k) ops (e1, t1) = (e2, t2)"
    and a: "txn_Abort e2 t2 = (e3, t3, err)"
  shows "all_good e3"
proof -
  have gc: "good c" using g k by (simp add: all_good_def)
  then have ok: "coll_ok c" by (simp add: good_def)
  obtain c2 where c2: "en_colls e2 k = Some c2" "agree c (fold undo_coll (rev (tx_undo t2)) c2)"
      "e3 = e1\<lparr>en_colls := (en_colls e)(k \<mapsto> fold undo_coll (rev (tx_undo t2)) c2), en_writerLocked := False\<rparr>"
    by (rule abort_agree [OF k ok room b w a])
  have e1: "en_colls e1 k = Some c" "tx_undo t1 = []"
    using b k by (auto simp: Begin_def Let_def split: if_splits prod.splits)
  have "good c2" using run_writes_good [OF e1(1) gc room w] c2(1) by auto
  moreover have "\<forall>u \<in> set (rev (tx_undo t2)). slot_undo u" using run_writes_undo [OF w] e1(2) by simp
  ultimately have "good (fold undo_coll (rev (tx_undo t2)) c2)"
    using undo_meta [of "rev (tx_undo t2)" c2] c2(2) by (auto simp: good_def agree_def intro: meta_history_same)
  then show ?thesis using g c2(3) by (simp add: all_good_def)
qed

section \<open>Reachable states\<close>

text \<open>An engine and its open write transaction, if there is one.  The writer lock makes write
  transactions run one after the other; a transaction that aborts is one step here, because
  its effect is that of its undo log.  No collection uses up its 32-bit segment numbers.\<close>

definition room :: "Engine \<Rightarrow> u64 \<Rightarrow> nat \<Rightarrow> bool" where
  "room e k n \<longleftrightarrow> (case en_colls e k of None \<Rightarrow> True | Some c \<Rightarrow> unat (cl_nextSeq c) + n < 2 ^ 32)"

inductive reach :: "(f32 \<Rightarrow> int) \<Rightarrow> Engine \<Rightarrow> txn option \<Rightarrow> bool" for conv where
  init: "reach conv NewEngine None"
| create: "reach conv e t \<Longrightarrow> elem_rawBytes (df_Elem d) (df_Dims d) < 2 ^ 32 - 32 \<Longrightarrow>
    CreateCollection e d = Some (e', err) \<Longrightarrow> reach conv e' t"
| begin_write: "reach conv e None \<Longrightarrow> Begin e True = Some (e', t) \<Longrightarrow> reach conv e' (Some t)"
| insert: "reach conv e (Some t) \<Longrightarrow> room e k 1 \<Longrightarrow> Insert conv e t k pid vec row = (e', t', r) \<Longrightarrow> reach conv e' (Some t')"
| insert_batch: "reach conv e (Some t) \<Longrightarrow> room e k (length ps) \<Longrightarrow> InsertBatch conv e t k ps = (e', t', out, err) \<Longrightarrow>
    reach conv e' (Some t')"
| delete: "reach conv e (Some t) \<Longrightarrow> Delete e t k pid = (e', t', err) \<Longrightarrow> reach conv e' (Some t')"
| upsert: "reach conv e (Some t) \<Longrightarrow> room e k 1 \<Longrightarrow> Upsert conv e t k pid vec row = (e', t', r, isnew) \<Longrightarrow> reach conv e' (Some t')"
| update_meta: "reach conv e (Some t) \<Longrightarrow> UpdateMeta e t k pid row = (e', t', err) \<Longrightarrow> reach conv e' (Some t')"
| commit: "reach conv e (Some t) \<Longrightarrow> txn_Commit e t = (e', t', err) \<Longrightarrow> reach conv e' None"
| aborted: "reach conv e None \<Longrightarrow> en_colls e k = Some c \<Longrightarrow> room e k (length ops) \<Longrightarrow> Begin e True = Some (e1, t1) \<Longrightarrow>
    fold (run_write conv k) ops (e1, t1) = (e2, t2) \<Longrightarrow> txn_Abort e2 t2 = (e3, t3, err) \<Longrightarrow> reach conv e3 None"
| seal: "reach conv e t \<Longrightarrow> SealSegment e k = (e', err) \<Longrightarrow> reach conv e' t"
| compact: "reach conv e None \<Longrightarrow> en_colls e k = Some c \<Longrightarrow> addressable c \<Longrightarrow> room e k (length (gather c)) \<Longrightarrow>
    Compact conv e k lo hi = Some (e', err) \<Longrightarrow> reach conv e' None"

lemma new_good:
  assumes "newCollection d = Some c" and "elem_rawBytes (df_Elem d) (df_Dims d) < 2 ^ 32 - 32"
  shows "good c"
proof -
  have "cl_meta c = fold run_meta [] (newMetadataStore (cl_columns c))"
    using assms(1) by (auto simp: newCollection_def Let_def split: option.splits)
  then show ?thesis using newCollection_ok(1) [OF assms] unfolding good_def meta_history_def by blast
qed

lemma Compact_good:
  assumes g: "all_good e" and k: "en_colls e k = Some c" and ad: "addressable c"
    and r: "unat (cl_nextSeq c) + length (gather c) < 2 ^ 32" and C: "Compact conv e k lo hi = Some (e', err)"
  shows "all_good e'"
proof (cases "k \<in> en_compacting e")
  case True
  then show ?thesis using C g by (simp add: Compact_def split: if_splits)
next
  case False
  have gc: "good c" using g k by (simp add: all_good_def)
  obtain c' rp where cc: "compact_coll conv c = (c', rp)" by fastforce
  have ok: "coll_ok c" and h: "meta_history c" using gc by (simp_all add: good_def)
  obtain st where st: "swap_ready conv c st" "c' = swapped c st" by (rule compact_coll_swapped [OF ok ad h r cc])
  have "\<exists>ws. cs_meta st = fold run_meta ws (newMetadataStore (cl_columns c))"
    using st(1) by (simp add: swap_ready_def copied_def)
  then have "meta_history c'" using st(2) by (simp add: meta_history_def swapped_def rebuildDir_def split: prod.split)
  then have "good c'" using swapped_ok [OF st(1)] st(2) by (simp add: good_def)
  then show ?thesis using C False k cc all_good_put [OF g] by (auto simp: Compact_def split: if_splits)
qed

lemma room_one: "room e k 1 \<Longrightarrow> en_colls e k = Some c \<Longrightarrow> cl_nextSeq c \<noteq> - 1"
  using seq_room(1) [of "cl_nextSeq c" 0] by (simp add: room_def)

lemma reach_good: "reach conv e t \<Longrightarrow> all_good e"
proof (induction rule: reach.induct)
  case init
  then show ?case by (simp add: all_good_def NewEngine_def)
next
  case (create e t d e' err)
  then show ?case using new_good by (auto simp: CreateCollection_def all_good_def split: if_splits option.splits)
next
  case (begin_write e e' t)
  then show ?case by (auto simp: Begin_def all_good_def Let_def split: if_splits prod.splits)
next
  case (insert e t k pid vec row e' t' r)
  show ?case
  proof (cases "en_colls e k")
    case (Some c)
    obtain c' x y where a: "appendPoint conv t c k pid vec row = (c', x, y)" by (metis prod_cases3)
    have "good c" using insert(4) Some by (simp add: all_good_def)
    from appendPoint_good [OF this room_one [OF insert(2) Some] a] show ?thesis
      using insert(3) Some a all_good_put [OF insert(4)] by (auto simp: Insert_def)
  qed (use insert in \<open>simp add: Insert_def\<close>)
next
  case (insert_batch e t k ps e' t' out err)
  show ?case
  proof (cases "en_colls e k")
    case (Some c)
    obtain c' x y where a: "insert_points conv t c k ps [] = (c', x, y)" by (metis prod_cases3)
    have "good c" "unat (cl_nextSeq c) + length ps < 2 ^ 32"
      using insert_batch(2,4) Some by (simp_all add: all_good_def room_def)
    from insert_points_good [OF this a] show ?thesis
      using insert_batch(3) Some a all_good_put [OF insert_batch(4)] by (auto simp: InsertBatch_def split: prod.splits)
  qed (use insert_batch in \<open>simp add: InsertBatch_def\<close>)
next
  case (delete e t k pid e' t' err)
  show ?case
  proof (cases "en_colls e k")
    case (Some c)
    obtain c' x y where a: "delete_point t c k pid = (c', x, y)" by (metis prod_cases3)
    have "good c" using delete(3) Some by (simp add: all_good_def)
    from delete_point_good [OF this a] show ?thesis
      using delete(2) Some a all_good_put [OF delete(3)] by (auto simp: Delete_def)
  qed (use delete in \<open>simp add: Delete_def\<close>)
next
  case (upsert e t k pid vec row e' t' r isnew)
  show ?case
  proof (cases "en_colls e k")
    case (Some c)
    obtain c' x y z where a: "upsert_point conv t c k pid vec row = (c', x, y, z)" by (metis prod_cases4)
    have "good c" using upsert(4) Some by (simp add: all_good_def)
    from upsert_point_good [OF this room_one [OF upsert(2) Some] a] show ?thesis
      using upsert(3) Some a all_good_put [OF upsert(4)] by (auto simp: Upsert_def)
  qed (use upsert in \<open>simp add: Upsert_def\<close>)
next
  case (update_meta e t k pid row e' t' err)
  have b: "good c \<Longrightarrow> good (bump_writes c)" for c by (simp add: good_def bump_writes_def coll_ok_def seg_in_def meta_history_def)
  show ?case
  proof (cases "en_colls e k")
    case (Some c)
    have g: "good c" using update_meta(3) Some by (simp add: all_good_def)
    then show ?thesis
      using update_meta(2,3) Some b update_cells_good [OF g] all_good_put [OF update_meta(3)]
      by (auto simp: UpdateMeta_def split: sum.splits prod.splits option.splits)
  qed (use update_meta in \<open>simp add: UpdateMeta_def\<close>)
next
  case (aborted e k c ops e1 t1 e2 t2 e3 t3 err)
  then show ?case using abort_good [of e k c ops] by (simp add: room_def)
next
  case (compact e k c lo hi e' err)
  then show ?case using Compact_good [of e k c] by (simp add: room_def)
qed (auto intro: commit_good seal_good)

section \<open>Ids and positions\<close>

lemma lookup_inverse:
  assumes ok: "coll_ok c" and ad: "addressable c"
  shows "lookup_id c pid = Inr x \<longleftrightarrow> lookup_pos c x = Inr pid"
proof -
  have live: "p < cl_capacity c \<and> p < sg_nextPos (cl_segs c ! di) \<and> \<not> IsTombstoned (cl_segs c ! di) p \<longleftrightarrow> live_slot (cl_segs c ! di) p"
    if "di < length (cl_segs c)" for di p
    using coll_okD(4) [OF ok that] by (auto simp: seg_in_def seg_ok_def live_slot_def)
  have "lookup_id c pid = Inr x \<longleftrightarrow>
      (\<exists>q p di. id_fwd (cl_idmap c) pid = Some (q, p) \<and> cl_dirOf c q = Some di \<and> x = colPos c di p)"
    by (auto simp: lookup_id_def ForwardLookup_def segBySeq_def split: option.splits)
  also have "\<dots> \<longleftrightarrow> (\<exists>di p. di < length (cl_segs c) \<and> live_slot (cl_segs c ! di) p \<and> sg_backward (cl_segs c ! di) ! p = pid \<and> x = colPos c di p)"
  proof -
    have "id_fwd (cl_idmap c) pid = Some (q, p) \<and> cl_dirOf c q = Some di \<longleftrightarrow>
        di < length (cl_segs c) \<and> q = sg_seqNum (cl_segs c ! di) \<and> live_slot (cl_segs c ! di) p \<and> sg_backward (cl_segs c ! di) ! p = pid" for q p di
      unfolding coll_okD(5) [OF ok] coll_okD(7) [OF ok] using placed_seg [OF ok, of di pid p] by auto
    then show ?thesis by blast
  qed
  also have "\<dots> \<longleftrightarrow> (\<exists>di p. locate c x = Some (di, p) \<and> p < sg_nextPos (cl_segs c ! di) \<and> \<not> IsTombstoned (cl_segs c ! di) p \<and>
      sg_backward (cl_segs c ! di) ! p = pid)"
    unfolding locate_iff [OF ad coll_okD(1) [OF ok]] using live by blast
  also have "\<dots> \<longleftrightarrow> lookup_pos c x = Inr pid"
    by (auto simp: lookup_pos_def BackwardMapLookup_def Let_def split: option.split)
  finally show ?thesis .
qed

lemma live_count:
  assumes ok: "coll_ok c"
  shows "fst (liveTotal c) = card (dom (id_fwd (cl_idmap c)))"
proof -
  let ?n = "length (cl_segs c)" and ?L = "\<lambda>di. {p. live_slot (cl_segs c ! di) p}"
  let ?f = "\<lambda>(di, p). sg_backward (cl_segs c ! di) ! p"
  have sok: "seg_ok (cl_segs c ! di)" if "di < ?n" for di using coll_okD(4) [OF ok that] by (simp add: seg_in_def)
  have fin: "finite (?L di)" for di
    by (rule finite_subset [of _ "{..< sg_nextPos (cl_segs c ! di)}"]) (auto simp: live_slot_def)
  have "sg_liveCount (cl_segs c ! di) = card (?L di)" if "di < ?n" for di
    using sok [OF that] unfolding live_slot_iff [OF sok [OF that]] by (simp add: seg_ok_def)
  then have "fst (liveTotal c) = (\<Sum>di < ?n. card (?L di))"
    by (simp add: liveTotal_def sum_list_sum_nth atLeast0LessThan)
  also have "\<dots> = card (SIGMA di:{..<?n}. ?L di)" using fin by (simp add: card_SigmaI)
  also have "\<dots> = card (?f ` (SIGMA di:{..<?n}. ?L di))"
  proof (rule card_image [symmetric], rule inj_onI)
    fix x y assume xy: "x \<in> (SIGMA di:{..<?n}. ?L di)" "y \<in> (SIGMA di:{..<?n}. ?L di)" "?f x = ?f y"
    obtain di p dj r where e: "x = (di, p)" "y = (dj, r)" by fastforce
    have a: "di \<in> {..<?n}" "live_slot (cl_segs c ! di) p" "dj \<in> {..<?n}" "live_slot (cl_segs c ! dj) r"
      "sg_backward (cl_segs c ! di) ! p = sg_backward (cl_segs c ! dj) ! r"
      using xy e by auto
    then have "id_fwd (cl_idmap c) (sg_backward (cl_segs c ! dj) ! r) = Some (sg_seqNum (cl_segs c ! di), p)"
      "id_fwd (cl_idmap c) (sg_backward (cl_segs c ! dj) ! r) = Some (sg_seqNum (cl_segs c ! dj), r)"
      using coll_okD(7) [OF ok] placed_seg [OF ok] by auto
    then show "x = y" using seq_unique [OF ok] a(1,3) e by auto
  qed
  also have "?f ` (SIGMA di:{..<?n}. ?L di) = dom (id_fwd (cl_idmap c))"
  proof (intro equalityI subsetI)
    fix pid assume "pid \<in> dom (id_fwd (cl_idmap c))"
    then obtain q p where "id_fwd (cl_idmap c) pid = Some (q, p)" by auto
    then show "pid \<in> ?f ` (SIGMA di:{..<?n}. ?L di)" by (rule fwd_place [OF ok]) force
  next
    fix pid assume "pid \<in> ?f ` (SIGMA di:{..<?n}. ?L di)"
    then show "pid \<in> dom (id_fwd (cl_idmap c))" using coll_okD(7) [OF ok] placed_seg [OF ok] by fastforce
  qed
  finally show ?thesis .
qed


end
