(* ===== verification/Storage_Api.thy ===== *)
theory Storage_Api
  imports Storage_Run
begin

text \<open>
  What a client of the storage engine sees: the result of an insert, the isolation its
  snapshots give, and an aborted upsert.
\<close>

section \<open>Reading a point\<close>

lemma projectMeta_map:
  "map_of (projectMeta c q p None) cid =
    (if cid \<in> cd_ID ` set (cl_columns c) \<and> \<not> IsNull (row_get c q p cid) then Some (row_get c q p cid) else None)"
proof -
  let ?f = "\<lambda>cid row. case ms_ReadAt (cl_meta c) cid q p of
      Inr v \<Rightarrow> if \<not> IsNull v then AList.update cid v row else row | Inl _ \<Rightarrow> row"
  have "map_of (fold ?f cs row) cid = (if cid \<in> set cs \<and> \<not> IsNull (row_get c q p cid) then Some (row_get c q p cid) else map_of row cid)"
    for cs row
  proof (induction cs arbitrary: row)
    case (Cons a cs)
    have "\<not> IsNull (row_get c q p a) \<longleftrightarrow> (\<exists>v. ms_ReadAt (cl_meta c) a q p = Inr v \<and> \<not> IsNull v)"
      by (auto simp: row_get_def IsNull_def split: sum.split)
    then show ?case using Cons by (auto simp: row_get_def update_conv' split: sum.splits)
  qed simp
  from this [of "map cd_ID (cl_columns c)" "[]"] show ?thesis by (simp add: projectMeta_def)
qed

lemma fetch_placed:
  assumes ok: "coll_ok c" and ad: "addressable c" and f: "id_fwd (cl_idmap c) pid = Some (q, p)" and d: "cl_dirOf c q = Some di"
  shows "fetchLocked c (colPos c di p) proj snap =
    (if (case snap of Some sn \<Rightarrow> \<not> IsVisible sn (sg_version (cl_segs c ! di) ! p) 0 | None \<Rightarrow> False) then Inl ErrNotVisible
     else Inr \<lparr>pr_Pos = colPos c di p, pr_ID = pid,
       pr_Vec = (case seg_FetchVector (cl_segs c ! di) p of Inr v \<Rightarrow> v | Inl _ \<Rightarrow> []), pr_Meta = projectMeta c q p proj\<rparr>)"
proof -
  have dl: "di < length (cl_segs c)" "sg_seqNum (cl_segs c ! di) = q" using coll_okD(5) [OF ok] d by auto
  have pl: "live_slot (cl_segs c ! di) p" "sg_backward (cl_segs c ! di) ! p = pid"
    using f coll_okD(7) [OF ok, of pid q p] placed_seg [OF ok dl(1), of pid p] dl(2) by auto
  have "p < cl_capacity c" using coll_okD(4) [OF ok dl(1)] pl(1) by (simp add: seg_in_def seg_ok_def live_slot_def)
  then have "locate c (colPos c di p) = Some (di, p)" using locate_iff [OF ad coll_okD(1) [OF ok]] dl(1) by simp
  moreover have "p < sg_nextPos (cl_segs c ! di)" "\<not> IsTombstoned (cl_segs c ! di) p" using pl(1) by (simp_all add: live_slot_def)
  moreover have "\<exists>v. seg_FetchVector (cl_segs c ! di) p = Inr v" using pl(1) by (auto simp: seg_FetchVector_def live_slot_def)
  ultimately show ?thesis
    using pl(2) dl(2) by (auto simp: fetchLocked_def Let_def BackwardMapLookup_def)
qed

section \<open>Insert\<close>

lemma insert_errors:
  assumes "appendPoint conv t c k pid vec row = (c', t', r)"
  shows "(of_nat (length vec) :: u32) \<noteq> cl_dims c \<Longrightarrow> r = Inl ErrDimensionMismatch"
    and "of_nat (length vec) = cl_dims c \<Longrightarrow> id_fwd (cl_idmap c) pid \<noteq> None \<Longrightarrow> r = Inl ErrDuplicateID"
  using assms by (auto simp: appendPoint_def ForwardLookup_def)

lemma insert_row_errors:
  assumes ok: "coll_ok c" and room: "cl_nextSeq c \<noteq> - 1" and a: "appendPoint conv t c k pid vec row = (c', t', Inl err)"
    and "of_nat (length vec) = cl_dims c" and "id_fwd (cl_idmap c) pid = None"
  shows "err \<in> {ErrSchemaMismatch, ErrUnknownColumn}"
  using ok room a
proof (cases rule: appendPoint_run)
  case (rolled c1 di s pos m err')
  have "snd (write_cols q p cap row m) \<in> {None, Some ErrSchemaMismatch}" for q p cap and m :: metadataStore
    by (induction m) (auto simp: Let_def split: prod.splits if_splits)
  from this [of "sg_seqNum s" pos "cl_capacity c1" "cl_meta c1"] show ?thesis
    using rolled(5,8) by (auto simp: writeRow_def split: prod.splits option.splits if_splits)
qed (use assms in auto)

lemma history_columns:
  assumes "meta_history c"
  shows "map_of (cl_meta c) k \<noteq> None \<longleftrightarrow> k \<in> cd_ID ` set (cl_columns c)"
proof -
  obtain ws where ws: "cl_meta c = fold run_meta ws (newMetadataStore (cl_columns c))" using assms by (auto simp: meta_history_def)
  have "map_of (cl_meta c) k \<noteq> None \<longleftrightarrow> col_def_at (newMetadataStore (cl_columns c)) k \<noteq> None"
    using history_typed(2) [of ws "cl_columns c" k] ws unfolding col_def_at_def by (metis option.map_disc_iff)
  also have "\<dots> \<longleftrightarrow> k \<in> cd_ID ` set (cl_columns c)" unfolding new_store_defs by (auto simp: find_None_iff)
  finally show ?thesis .
qed

lemma inserted_fetch:
  assumes h: "meta_history c" and cols: "cl_columns c' = cl_columns c" and ok: "coll_ok c'" and ad: "addressable c'"
    and f: "id_fwd (cl_idmap c') pid = Some (q, p)" and d: "cl_dirOf c' q = Some di"
    and st: "stored c' pid = Some (Inr v, 0, \<lambda>k. if map_of (cl_meta c) k = None then NullValue else cell_of row k)"
  shows "\<exists>m. fetchLocked c' (colPos c' di p) None None = Inr \<lparr>pr_Pos = colPos c' di p, pr_ID = pid, pr_Vec = v, pr_Meta = m\<rparr> \<and>
    (\<forall>cid v. map_of m cid = Some v \<longleftrightarrow> cid \<in> cd_ID ` set (cl_columns c) \<and> v = cell_of row cid \<and> \<not> IsNull v)"
proof -
  have fv: "seg_FetchVector (cl_segs c' ! di) p = Inr v"
    and row: "row_get c' q p = (\<lambda>k. if map_of (cl_meta c) k = None then NullValue else cell_of row k)"
    using st f d by (simp_all add: stored_def)
  have "map_of (projectMeta c' q p None) cid = Some x \<longleftrightarrow> cid \<in> cd_ID ` set (cl_columns c) \<and> x = cell_of row cid \<and> \<not> IsNull x" for cid x
    unfolding projectMeta_map row cols using history_columns [OF h, of cid] by auto
  then show ?thesis using fetch_placed [OF ok ad f d, of None None] fv by simp
qed

text \<open>C19: an insert into a reachable engine either fails and changes no stored point, with the
  dimension error exactly for a vector of the wrong length and the duplicate error exactly
  for a live id, or it stores the point: its id and the returned position find each other,
  fetching the position gives the id, the vector after one pass through the codec and the
  non-null cells of the row, and no other point changes.\<close>

theorem insert_spec:
  assumes "reach conv e (Some t)" and "room e k 1" and "en_colls e k = Some c"
    and "Insert conv e t k pid vec row = (e', t', r)" and "en_colls e' k = Some c'" and "addressable c'"
  shows "(\<forall>j. j \<noteq> pid \<longrightarrow> stored c' j = stored c j) \<and>
    (case r of
       Inl err \<Rightarrow> stored c' pid = stored c pid \<and>
         (err = ErrDimensionMismatch \<longleftrightarrow> (of_nat (length vec) :: u32) \<noteq> cl_dims c) \<and>
         (err = ErrDuplicateID \<longleftrightarrow> of_nat (length vec) = cl_dims c \<and> stored c pid \<noteq> None)
     | Inr x \<Rightarrow> stored c pid = None \<and> LookupID e' k pid = Inr x \<and> LookupPos e' k x = Inr pid \<and>
         (\<exists>m. Fetch e' k x None None = Inr \<lparr>pr_Pos = x, pr_ID = pid, pr_Vec = recoded conv c vec, pr_Meta = m\<rparr> \<and>
              (\<forall>cid v. map_of m cid = Some v \<longleftrightarrow>
                 cid \<in> cd_ID ` set (cl_columns c) \<and> v = cell_of row cid \<and> \<not> IsNull v)))"
proof -
  have a: "appendPoint conv t c k pid vec row = (c', t', r)"
    using assms(3,4,5) by (auto simp: Insert_def put_coll_def split: prod.splits)
  have ok: "coll_ok c" and h: "meta_history c"
    using reach_good [OF assms(1)] assms(3) by (simp_all add: all_good_def good_def)
  have rm: "cl_nextSeq c \<noteq> - 1" by (rule room_one [OF assms(2,3)])
  show ?thesis
    using ok rm a
  proof (cases rule: appendPoint_cases)
    case (failed err)
    then show ?thesis
      using insert_errors [OF a] insert_row_errors [OF ok rm a [unfolded failed(1)]] stored_Some [OF ok, of pid] by fastforce
  next
    case (inserted di q p)
    have f: "id_fwd (cl_idmap c') pid = Some (q, p)" using inserted(2) by simp
    have "LookupID e' k pid = Inr (colPos c' di p)"
      using f inserted(3) assms(5) by (simp add: LookupID_def lookup_id_def ForwardLookup_def segBySeq_def)
    moreover from this have "LookupPos e' k (colPos c' di p) = Inr pid"
      using lookup_inverse [OF inserted(4) assms(6)] assms(5) by (simp add: LookupID_def LookupPos_def)
    ultimately show ?thesis
      using inserted(1,7) inserted_fetch [OF h appendPoint_columns [OF a] inserted(4) assms(6) f inserted(3) inserted(8)]
        stored_Some [OF ok, of pid] inserted(5) assms(5)
      by (simp add: Fetch_def recoded_def)
  qed
qed

text \<open>A run that creates a collection, opens a transaction and inserts a point.\<close>

definition demo_e0 :: Engine where "demo_e0 = put_coll NewEngine 1 demo_meta_coll"

definition demo_e1 :: Engine where
  "demo_e1 = demo_e0\<lparr>en_clock := fst (NextTxn (en_clock demo_e0)), en_writerLocked := True\<rparr>"

definition demo_t1 :: txn where
  "demo_t1 = \<lparr>tx_id = snd (NextTxn (en_clock demo_e0)), tx_readSeq = Current (en_clock demo_e0), tx_write = True, tx_done = False,
     tx_stamp = [], tx_undo = []\<rparr>"

lemma appendPoint_coll:
  "fst (appendPoint conv t c k pid vec row) = fst (appendPoint conv t' c k pid vec row)"
  "snd (snd (appendPoint conv t c k pid vec row)) = snd (snd (appendPoint conv t' c k pid vec row))"
  by (auto simp: appendPoint_def Let_def split: sum.split option.split prod.split)

lemma demo_begin: "Begin demo_e0 True = Some (demo_e1, demo_t1)" "en_colls demo_e1 1 = Some demo_meta_coll"
proof -
  have "\<not> en_writerLocked demo_e0" by (simp add: demo_e0_def put_coll_def NewEngine_def)
  then show "Begin demo_e0 True = Some (demo_e1, demo_t1)"
    by (simp add: Begin_def Let_def demo_e1_def demo_t1_def split: prod.split)
  show "en_colls demo_e1 1 = Some demo_meta_coll" by (simp add: demo_e1_def demo_e0_def put_coll_def)
qed

lemma demo_reach: "reach conv demo_e1 (Some demo_t1)" "room demo_e1 1 1"
proof -
  let ?d = "demo_def\<lparr>df_Columns := demo_columns\<rparr>"
  have "CreateCollection NewEngine ?d = Some (demo_e0, None)"
    using demo_meta_coll_eq(1) by (simp add: CreateCollection_def NewEngine_def demo_def_def demo_e0_def put_coll_def)
  from reach.create [OF reach.init _ this] have "reach conv demo_e0 None" by (simp add: demo_def_def)
  from reach.begin_write [OF this demo_begin(1)] show "reach conv demo_e1 (Some demo_t1)" .
  show "room demo_e1 1 1" by (simp add: room_def demo_begin(2) demo_meta_coll_eq)
qed

lemma demo_insert_eq:
  obtains e' t' where "Insert (\<lambda>_. 0) demo_e1 demo_t1 1 7 [0, 0] [(3, TextV [5])] = (e', t', Inr 0)"
    and "en_colls e' 1 = Some demo_filter_coll"
proof -
  let ?a = "\<lambda>t. appendPoint (\<lambda>_. 0) t demo_meta_coll 1 7 [0, 0] [(3, TextV [5])]"
  obtain c t' r where a: "?a demo_t1 = (c, t', r)" by (metis prod_cases3)
  have c: "c = demo_filter_coll" using a appendPoint_coll(1) [of _ demo_t1 _ _ _ _ _ demo_txn] by (simp add: demo_filter_coll_def) (metis fst_conv)
  have "snd (snd (?a demo_txn)) = Inr 0"
    by (simp add: appendPoint_def demo_meta_coll_eq ForwardLookup_def newIDMap_def ensureOpen_def Let_def colPos_def
      upd_seg_def seg_append_def newSegment_def writeRow_def demo_columns_def cell_of_def IsNull_def id_insert_def bump_writes_def
      split: prod.split)
  then have "r = Inr 0" using a appendPoint_coll(2) [of _ demo_t1 _ _ _ _ _ demo_txn] by (metis snd_conv)
  then show thesis using a c demo_begin(2) by (intro that [of "put_coll demo_e1 1 c" t']) (simp_all add: Insert_def put_coll_def)
qed

lemma demo_filter_addressable: "addressable demo_filter_coll"
  by (simp add: addressable_def demo_filter_coll_eq)

theorem insert_spec_witness:
  "\<exists>e' t'. Insert (\<lambda>_. 0) demo_e1 demo_t1 1 7 [0, 0] [(3, TextV [5])] = (e', t', Inr 0) \<and>
     LookupID e' 1 7 = Inr 0 \<and> LookupPos e' 1 0 = Inr 7"
proof -
  obtain e' t' where i: "Insert (\<lambda>_. 0) demo_e1 demo_t1 1 7 [0, 0] [(3, TextV [5])] = (e', t', Inr 0)"
      "en_colls e' 1 = Some demo_filter_coll"
    by (rule demo_insert_eq)
  show ?thesis using insert_spec [OF demo_reach demo_begin(2) i demo_filter_addressable] i(1) by auto
qed


section \<open>Isolation\<close>

text \<open>C9: the snapshots the engine hands out isolate nothing.  While the transaction that inserted a
  point is still open, every reader's snapshot, taken at any earlier or later time, fetches
  the uncommitted point; the inserting transaction's own snapshot does not.\<close>

theorem dirty_read:
  assumes "reach conv e (Some t)" and "room e k 1" and "en_colls e k = Some c"
    and "Insert conv e t k pid vec row = (e', t', Inr x)" and "en_colls e' k = Some c'" and "addressable c'"
  shows "(\<exists>r. Fetch e' k x proj (Some (en_Snapshot any)) = Inr r \<and> pr_ID r = pid) \<and>
    (tx_id t \<noteq> 0 \<longrightarrow> Fetch e' k x proj (Some (txn_snapshot t)) = Inl ErrNotVisible)"
proof -
  have a: "appendPoint conv t c k pid vec row = (c', t', Inr x)"
    using assms(3,4,5) by (auto simp: Insert_def put_coll_def split: prod.splits)
  have ok: "coll_ok c" using reach_good [OF assms(1)] assms(3) by (simp add: all_good_def good_def)
  show ?thesis
    using ok room_one [OF assms(2,3)] a
  proof (cases rule: appendPoint_cases)
    case (inserted di q p)
    have f: "id_fwd (cl_idmap c') pid = Some (q, p)" using inserted(2) by simp
    have "sg_version (cl_segs c' ! di) ! p = 0" using inserted(8) f inserted(3) by (simp add: stored_def)
    then show ?thesis
      using fetch_placed [OF inserted(4) assms(6) f inserted(3), of proj] inserted(1) assms(5)
      by (simp add: Fetch_def IsVisible_def en_Snapshot_def txn_snapshot_def)
  qed simp
qed

theorem dirty_read_witness:
  "\<exists>e' t' r. Insert (\<lambda>_. 0) demo_e1 demo_t1 1 7 [0, 0] [(3, TextV [5])] = (e', t', Inr 0) \<and>
     Fetch e' 1 0 None (Some (en_Snapshot NewEngine)) = Inr r \<and> pr_ID r = 7"
proof -
  obtain e' t' where i: "Insert (\<lambda>_. 0) demo_e1 demo_t1 1 7 [0, 0] [(3, TextV [5])] = (e', t', Inr 0)"
      "en_colls e' 1 = Some demo_filter_coll"
    by (rule demo_insert_eq)
  show ?thesis using dirty_read [OF demo_reach demo_begin(2) i demo_filter_addressable, of None NewEngine] i(1) by blast
qed

section \<open>Aborting an upsert\<close>

lemma ensureOpen_idmap: "ensureOpen c = (c1, di) \<Longrightarrow> cl_idmap c1 = cl_idmap c"
  by (auto simp: ensureOpen_eq add_segment_def Let_def upd_seg_def split: option.splits if_splits)

lemma appendPoint_undo_entry:
  assumes "id_fwd (cl_idmap c) pid = None" and "appendPoint conv t c k pid vec row = (c', t', r)"
  shows "tx_write t' = tx_write t \<and> tx_done t' = tx_done t \<and>
    (tx_undo t' = tx_undo t \<and> id_fwd (cl_idmap c') pid = None \<or> (\<exists>q p. tx_undo t' = tx_undo t @ [UndoAppend k pid q p]))"
  using assms ensureOpen_idmap [of c]
  by (auto simp: appendPoint_def ForwardLookup_def id_insert_def upd_seg_def Let_def split: if_splits option.splits prod.splits)

lemma on_seg_idmap [simp]: "cl_idmap (on_seg q g c) = cl_idmap c"
  by (simp add: on_seg_def upd_seg_def split: option.split)

lemma undo_forgets:
  "id_fwd (cl_idmap (undo_coll (UndoAppend k pid q p) c)) pid = None"
  "cl_idmap (undo_coll (UndoReplace k q p) c) = cl_idmap c"
  by (simp_all add: Let_def id_tombstone_def)

text \<open>C26: aborting a transaction that upserted a live id loses the id: the undo log clears the
  tombstone of the replaced slot but never puts the id back, so the point can no longer be
  found.\<close>

theorem upsert_abort_loses:
  assumes "en_colls e k = Some c" and "id_fwd (cl_idmap c) pid \<noteq> None" and "Begin e True = Some (e1, t1)"
    and "Upsert conv e1 t1 k pid vec row = (e2, t2, r, isnew)" and "txn_Abort e2 t2 = (e3, t3, err)"
  shows "LookupID e3 k pid = Inl ErrNotFound"
proof -
  have b: "en_colls e1 = en_colls e" "tx_write t1" "\<not> tx_done t1" "tx_undo t1 = []"
    using assms(3) by (auto simp: Begin_def Let_def split: if_splits prod.splits)
  obtain q p where f: "id_fwd (cl_idmap c) pid = Some (q, p)" using assms(2) by auto
  obtain c2 x where u: "upsert_point conv t1 c k pid vec row = (c2, t2, x)" "e2 = e1\<lparr>en_colls := (en_colls e1)(k \<mapsto> c2)\<rparr>"
    using assms(1,4) b(1) by (auto simp: Upsert_def put_coll_def split: prod.splits)
  obtain c1 y where a: "appendPoint conv (t1\<lparr>tx_undo := [UndoReplace k q p]\<rparr>) c1 k pid vec row = (c2, t2, y)"
      and c1: "id_fwd (cl_idmap c1) pid = None"
    using u(1) f b(4) by (auto simp: upsert_point_def ForwardLookup_def id_tombstone_def Let_def upd_seg_def split: prod.splits)
  note s = appendPoint_undo_entry [OF c1 a]
  have "\<forall>u \<in> set (rev (tx_undo t2)). undo_key u = k" using s by auto
  note ru = run_undo_coll [OF this, of e1 c2]
  have "id_fwd (cl_idmap (fold undo_coll (rev (tx_undo t2)) c2)) pid = None" using s undo_forgets by auto
  then show ?thesis
    using assms(5) s b u(2) ru by (auto simp: txn_Abort_def Let_def LookupID_def lookup_id_def ForwardLookup_def)
qed

theorem upsert_abort_loses_witness:
  "\<exists>e1 t1 e2 t2 r isnew e3 t3 err. Begin (put_coll NewEngine 1 demo_filter_coll) True = Some (e1, t1) \<and>
     Upsert (\<lambda>_. 0) e1 t1 1 7 [0, 0] [] = (e2, t2, r, isnew) \<and> txn_Abort e2 t2 = (e3, t3, err) \<and>
     LookupID (put_coll NewEngine 1 demo_filter_coll) 1 7 \<noteq> Inl ErrNotFound \<and> LookupID e3 1 7 = Inl ErrNotFound"
proof -
  let ?e = "put_coll NewEngine 1 demo_filter_coll"
  have k: "en_colls ?e 1 = Some demo_filter_coll" by (simp add: put_coll_def)
  have f: "id_fwd (cl_idmap demo_filter_coll) 7 \<noteq> None" by (simp add: demo_filter_coll_more)
  obtain e1 t1 where b: "Begin ?e True = Some (e1, t1)"
    by (cases "NextTxn (NewClock 1)") (simp add: Begin_def put_coll_def NewEngine_def Let_def)
  obtain e2 t2 r isnew where u: "Upsert (\<lambda>_. 0) e1 t1 1 7 [0, 0] [] = (e2, t2, r, isnew)" by (metis prod_cases4)
  obtain e3 t3 err where a: "txn_Abort e2 t2 = (e3, t3, err)" by (metis prod_cases3)
  have "cl_dirOf demo_filter_coll 0 = Some 0"
    using coll_okD(5) [OF demo_filter_coll_ok] demo_filter_coll_eq by simp
  then have "LookupID ?e 1 7 \<noteq> Inl ErrNotFound"
    by (simp add: LookupID_def k lookup_id_def ForwardLookup_def segBySeq_def demo_filter_coll_more)
  then show ?thesis using upsert_abort_loses [OF k f b u a] b u a by blast
qed

end
