(* ===== verification/Wire.thy ===== *)
theory Wire
  imports Varint Ieee "HOL-Library.AList"
begin

text \<open>
  The proto3 wire codec of the gRPC server: \<^verbatim>\<open>src/server/vecpb/wire.go\<close>, the \<^verbatim>\<open>Value\<close> and
  \<^verbatim>\<open>Vector\<close> messages of \<^verbatim>\<open>scalars.go\<close> and \<^verbatim>\<open>vector.go\<close>, and the point messages of \<^verbatim>\<open>points.go\<close>.
  A reader holds its buffer and a Go \<^verbatim>\<open>int\<close> position, whose 64-bit wrap-around is written out.
  A call gives a value, an error or a panic; a decode loop is a partial function whose value
  None means that it never returns.
\<close>

datatype wire_error = ErrTruncated | ErrBadWireType | ErrVarintOverflow

datatype 'a wres = Ok 'a | Err wire_error | Panic

fun wbind :: "'a wres \<Rightarrow> ('a \<Rightarrow> 'b wres) \<Rightarrow> 'b wres" where
  "wbind (Ok x) f = f x"
| "wbind (Err e) f = Err e"
| "wbind Panic f = Panic"

section \<open>Writing\<close>

definition wireVarint :: u64 where "wireVarint = 0"
definition wireFixed64 :: u64 where "wireFixed64 = 1"
definition wireBytes :: u64 where "wireBytes = 2"
definition wireFixed32 :: u64 where "wireFixed32 = 5"

text \<open>The loop of \<^verbatim>\<open>appendVarint\<close> is the one of \<^verbatim>\<open>format.PutUvarint\<close>.\<close>

definition appendVarint :: "bytes \<Rightarrow> u64 \<Rightarrow> bytes" where
  "appendVarint b x = b @ put_uvarint x"

definition appendTag :: "bytes \<Rightarrow> nat \<Rightarrow> u64 \<Rightarrow> bytes" where
  "appendTag b field wire = appendVarint b (push_bit 3 (of_nat field) OR wire)"

definition appendVarintFieldAlways :: "bytes \<Rightarrow> nat \<Rightarrow> u64 \<Rightarrow> bytes" where
  "appendVarintFieldAlways b field v = appendVarint (appendTag b field wireVarint) v"

definition appendVarintField :: "bytes \<Rightarrow> nat \<Rightarrow> u64 \<Rightarrow> bytes" where
  "appendVarintField b field v = (if v = 0 then b else appendVarint (appendTag b field wireVarint) v)"

definition appendBoolField :: "bytes \<Rightarrow> nat \<Rightarrow> bool \<Rightarrow> bytes" where
  "appendBoolField b field v = (if \<not> v then b else appendVarint (appendTag b field wireVarint) 1)"

definition appendBoolFieldAlways :: "bytes \<Rightarrow> nat \<Rightarrow> bool \<Rightarrow> bytes" where
  "appendBoolFieldAlways b field v = appendVarint (appendTag b field wireVarint) (if v then 1 else 0)"

definition appendDoubleFieldAlways :: "bytes \<Rightarrow> nat \<Rightarrow> f64 \<Rightarrow> bytes" where
  "appendDoubleFieldAlways b field v = appendTag b field wireFixed64 @ le_put 8 v"

definition appendDoubleField :: "bytes \<Rightarrow> nat \<Rightarrow> f64 \<Rightarrow> bytes" where
  "appendDoubleField b field v = (if f64_eq v 0 then b else appendDoubleFieldAlways b field v)"

definition appendBytesFieldAlways :: "bytes \<Rightarrow> nat \<Rightarrow> bytes \<Rightarrow> bytes" where
  "appendBytesFieldAlways b field p = appendVarint (appendTag b field wireBytes) (of_nat (length p)) @ p"

definition appendBytesField :: "bytes \<Rightarrow> nat \<Rightarrow> bytes \<Rightarrow> bytes" where
  "appendBytesField b field p =
    (if length p = 0 then b else appendVarint (appendTag b field wireBytes) (of_nat (length p)) @ p)"

definition appendStringField :: "bytes \<Rightarrow> nat \<Rightarrow> bytes \<Rightarrow> bytes" where
  "appendStringField b field s =
    (if s = [] then b else appendVarint (appendTag b field wireBytes) (of_nat (length s)) @ s)"

definition appendMessageField :: "bytes \<Rightarrow> nat \<Rightarrow> bytes \<Rightarrow> bool \<Rightarrow> bytes" where
  "appendMessageField b field msg emitEmpty =
    (if length msg = 0 \<and> \<not> emitEmpty then b
     else appendVarint (appendTag b field wireBytes) (of_nat (length msg)) @ msg)"

text \<open>A Go map iterated over is a list of entries in the order of the iteration.\<close>

definition string_entry :: "bytes \<times> bytes \<Rightarrow> bytes" where
  "string_entry = (\<lambda>(k, v).
    let e1 = appendVarint (appendTag [] 1 wireBytes) (of_nat (length k)) @ k
    in appendVarint (appendTag e1 2 wireBytes) (of_nat (length v)) @ v)"

definition appendStringMap :: "bytes \<Rightarrow> nat \<Rightarrow> (bytes \<times> bytes) list \<Rightarrow> bytes" where
  "appendStringMap b field m = fold (\<lambda>kv b. appendMessageField b field (string_entry kv) True) m b"

definition appendRepeatedUint64 :: "bytes \<Rightarrow> nat \<Rightarrow> u64 list \<Rightarrow> bytes" where
  "appendRepeatedUint64 b field xs = fold (\<lambda>x b. appendVarint (appendTag b field wireVarint) x) xs b"

section \<open>Reading\<close>

record reader =
  rd_buf :: bytes
  rd_pos :: int

definition new_reader :: "bytes \<Rightarrow> reader" where
  "new_reader buf = \<lparr>rd_buf = buf, rd_pos = 0\<rparr>"

definition rd_len :: "reader \<Rightarrow> int" where "rd_len r = int (length (rd_buf r))"

definition rd_done :: "reader \<Rightarrow> bool" where "rd_done r = (rd_len r \<le> rd_pos r)"

fun varint_loop :: "bytes \<Rightarrow> nat \<Rightarrow> u64 \<Rightarrow> nat \<Rightarrow> (u64 \<times> nat) wres" where
  "varint_loop [] shift x k = Err ErrTruncated"
| "varint_loop (b # bs) shift x k =
    (if 64 \<le> shift then Err ErrVarintOverflow
     else let x' = x OR push_bit shift (ucast (b AND 0x7F))
          in if b < 0x80 then Ok (x', Suc k) else varint_loop bs (shift + 7) x' (Suc k))"

text \<open>Indexing at a negative position panics.\<close>

definition readVarint :: "reader \<Rightarrow> (u64 \<times> reader) wres" where
  "readVarint r =
    (if rd_len r \<le> rd_pos r then Err ErrTruncated
     else if rd_pos r < 0 then Panic
     else wbind (varint_loop (drop (nat (rd_pos r)) (rd_buf r)) 0 0 0)
       (\<lambda>(x, k). Ok (x, r\<lparr>rd_pos := rd_pos r + int k\<rparr>)))"

definition readTag :: "reader \<Rightarrow> (nat \<times> u64 \<times> reader) wres" where
  "readTag r = wbind (readVarint r) (\<lambda>(key, r). Ok (unat (drop_bit 3 key), key AND 0x7, r))"

definition readFixed64 :: "reader \<Rightarrow> (u64 \<times> reader) wres" where
  "readFixed64 r =
    (if rd_len r < rd_pos r + 8 then Err ErrTruncated
     else if rd_pos r < 0 then Panic
     else Ok (le_get (take 8 (drop (nat (rd_pos r)) (rd_buf r))), r\<lparr>rd_pos := rd_pos r + 8\<rparr>))"

definition readDouble :: "reader \<Rightarrow> (f64 \<times> reader) wres" where
  "readDouble r = readFixed64 r"

text \<open>Slicing panics when the upper bound is below the lower one.\<close>

definition readBytes :: "reader \<Rightarrow> (bytes \<times> reader) wres" where
  "readBytes r = wbind (readVarint r) (\<lambda>(n, r).
    let hi = go_int (rd_pos r + go_int (uint n)) in
    if rd_len r < hi then Err ErrTruncated
    else if hi < rd_pos r then Panic
    else Ok (take (nat (hi - rd_pos r)) (drop (nat (rd_pos r)) (rd_buf r)), r\<lparr>rd_pos := hi\<rparr>))"

definition readBytesCopy :: "reader \<Rightarrow> (bytes \<times> reader) wres" where
  "readBytesCopy r = readBytes r"

definition readString :: "reader \<Rightarrow> (bytes \<times> reader) wres" where
  "readString r = readBytes r"

definition skip :: "reader \<Rightarrow> u64 \<Rightarrow> reader wres" where
  "skip r wire =
    (if wire = wireVarint then wbind (readVarint r) (\<lambda>(_, r). Ok r)
     else if wire = wireFixed64 then
       (if rd_len r < rd_pos r + 8 then Err ErrTruncated else Ok (r\<lparr>rd_pos := rd_pos r + 8\<rparr>))
     else if wire = wireBytes then
       wbind (readVarint r) (\<lambda>(n, r).
         let hi = go_int (rd_pos r + go_int (uint n)) in
         if rd_len r < hi then Err ErrTruncated else Ok (r\<lparr>rd_pos := hi\<rparr>))
     else if wire = wireFixed32 then
       (if rd_len r < rd_pos r + 4 then Err ErrTruncated else Ok (r\<lparr>rd_pos := rd_pos r + 4\<rparr>))
     else Err ErrBadWireType)"

text \<open>The loop shared by the decoders: read a tag, let the message's switch handle the field, go on.
  None: it never returns.\<close>

partial_function (option) decode_loop ::
  "(nat \<Rightarrow> u64 \<Rightarrow> reader \<Rightarrow> 's \<Rightarrow> ('s \<times> reader) wres option) \<Rightarrow> reader \<Rightarrow> 's \<Rightarrow> 's wres option" where
  "decode_loop step r s =
    (if rd_done r then Some (Ok s)
     else case readTag r of
       Err e \<Rightarrow> Some (Err e)
     | Panic \<Rightarrow> Some Panic
     | Ok (f, wire, r1) \<Rightarrow>
         Option.bind (step f wire r1 s) (\<lambda>res. case res of
           Err e \<Rightarrow> Some (Err e)
         | Panic \<Rightarrow> Some Panic
         | Ok (s2, r2) \<Rightarrow> decode_loop step r2 s2))"

lemma varint_loop_count: "varint_loop bs shift x k = Ok (v, n) \<Longrightarrow> k < n \<and> n \<le> k + length bs"
  by (induction bs shift x k rule: varint_loop.induct) (auto simp: Let_def split: if_splits)

lemma readVarint_advances:
  assumes "readVarint r = Ok (v, r')"
  shows "rd_buf r' = rd_buf r \<and> 0 \<le> rd_pos r \<and> rd_pos r < rd_pos r' \<and> rd_pos r' \<le> rd_len r"
proof -
  have p: "0 \<le> rd_pos r" "rd_pos r < rd_len r" using assms by (auto simp: readVarint_def split: if_splits)
  obtain n where n: "varint_loop (drop (nat (rd_pos r)) (rd_buf r)) 0 0 0 = Ok (v, n)" "r' = r\<lparr>rd_pos := rd_pos r + int n\<rparr>"
    using assms p by (cases "varint_loop (drop (nat (rd_pos r)) (rd_buf r)) 0 0 0") (auto simp: readVarint_def)
  show ?thesis using varint_loop_count [OF n(1)] n(2) p by (auto simp: rd_len_def)
qed

function packed_loop :: "reader \<Rightarrow> u64 list \<Rightarrow> u64 list wres" where
  "packed_loop r xs =
    (if rd_done r then Ok xs
     else case readVarint r of
       Err e \<Rightarrow> Err e
     | Panic \<Rightarrow> Panic
     | Ok (v, r') \<Rightarrow> packed_loop r' (xs @ [v]))"
  by pat_completeness auto
termination
  by (relation "measure (\<lambda>(r, xs). nat (rd_len r - rd_pos r))")
     (auto dest!: readVarint_advances simp: rd_len_def rd_done_def)

declare packed_loop.simps [simp del]

definition readRepeatedUint64 :: "reader \<Rightarrow> u64 \<Rightarrow> u64 list \<Rightarrow> (u64 list \<times> reader) wres" where
  "readRepeatedUint64 r wire xs =
    (if wire = wireVarint then wbind (readVarint r) (\<lambda>(v, r). Ok (xs @ [v], r))
     else if wire = wireBytes then
       wbind (readBytes r) (\<lambda>(p, r). wbind (packed_loop (new_reader p) xs) (\<lambda>xs. Ok (xs, r)))
     else Err ErrBadWireType)"

definition string_entry_step :: "nat \<Rightarrow> u64 \<Rightarrow> reader \<Rightarrow> bytes \<times> bytes \<Rightarrow> ((bytes \<times> bytes) \<times> reader) wres option" where
  "string_entry_step f wire r = (\<lambda>(key, val). Some
    (if f = 1 then wbind (readString r) (\<lambda>(k, r). Ok ((k, val), r))
     else if f = 2 then wbind (readString r) (\<lambda>(v, r). Ok ((key, v), r))
     else wbind (skip r wire) (\<lambda>r. Ok ((key, val), r))))"

definition readStringMapEntry :: "bytes \<Rightarrow> (bytes \<times> bytes) wres option" where
  "readStringMapEntry data = decode_loop string_entry_step (new_reader data) ([], [])"

section \<open>Values and vectors\<close>

datatype PbValueKind = ValueNull | ValueInt | ValueFloat | ValueBool | ValueStr | ValueBytes

record PbValue =
  pv_Kind :: PbValueKind
  pv_IntVal :: u64
  pv_FloatVal :: f64
  pv_BoolVal :: bool
  pv_StrVal :: bytes
  pv_BytesVal :: bytes

definition zero_value :: PbValue where
  "zero_value = \<lparr>pv_Kind = ValueNull, pv_IntVal = 0, pv_FloatVal = 0, pv_BoolVal = False, pv_StrVal = [], pv_BytesVal = []\<rparr>"

definition Value_Marshal :: "PbValue \<Rightarrow> bytes" where
  "Value_Marshal v =
    (case pv_Kind v of
       ValueInt \<Rightarrow> appendVarintFieldAlways [] 1 (pv_IntVal v)
     | ValueFloat \<Rightarrow> appendDoubleFieldAlways [] 2 (pv_FloatVal v)
     | ValueBool \<Rightarrow> appendBoolFieldAlways [] 3 (pv_BoolVal v)
     | ValueStr \<Rightarrow> appendVarint (appendTag [] 4 wireBytes) (of_nat (length (pv_StrVal v))) @ pv_StrVal v
     | ValueBytes \<Rightarrow> appendBytesFieldAlways [] 5 (pv_BytesVal v)
     | ValueNull \<Rightarrow> [])"

definition value_step :: "nat \<Rightarrow> u64 \<Rightarrow> reader \<Rightarrow> PbValue \<Rightarrow> (PbValue \<times> reader) wres option" where
  "value_step f wire r v = Some
    (if f = 1 then wbind (readVarint r) (\<lambda>(n, r). Ok (v\<lparr>pv_Kind := ValueInt, pv_IntVal := n\<rparr>, r))
     else if f = 2 then wbind (readDouble r) (\<lambda>(d, r). Ok (v\<lparr>pv_Kind := ValueFloat, pv_FloatVal := d\<rparr>, r))
     else if f = 3 then wbind (readVarint r) (\<lambda>(n, r). Ok (v\<lparr>pv_Kind := ValueBool, pv_BoolVal := (n \<noteq> 0)\<rparr>, r))
     else if f = 4 then wbind (readString r) (\<lambda>(s, r). Ok (v\<lparr>pv_Kind := ValueStr, pv_StrVal := s\<rparr>, r))
     else if f = 5 then wbind (readBytesCopy r) (\<lambda>(p, r). Ok (v\<lparr>pv_Kind := ValueBytes, pv_BytesVal := p\<rparr>, r))
     else wbind (skip r wire) (\<lambda>r. Ok (v, r)))"

definition UnmarshalValue :: "bytes \<Rightarrow> PbValue wres option" where
  "UnmarshalValue data = decode_loop value_step (new_reader data) zero_value"

text \<open>The switch of \<^verbatim>\<open>readValueMapEntry\<close> decodes a nested message, which may itself not return.\<close>

definition value_entry_step :: "nat \<Rightarrow> u64 \<Rightarrow> reader \<Rightarrow> bytes \<times> PbValue \<Rightarrow> ((bytes \<times> PbValue) \<times> reader) wres option" where
  "value_entry_step f wire r = (\<lambda>(key, val).
    if f = 1 then Some (wbind (readString r) (\<lambda>(k, r). Ok ((k, val), r)))
    else if f = 2 then
      (case readBytes r of
         Err e \<Rightarrow> Some (Err e)
       | Panic \<Rightarrow> Some Panic
       | Ok (p, r) \<Rightarrow> map_option (\<lambda>res. wbind res (\<lambda>v. Ok ((key, v), r))) (UnmarshalValue p))
    else Some (wbind (skip r wire) (\<lambda>r. Ok ((key, val), r))))"

definition readValueMapEntry :: "bytes \<Rightarrow> (bytes \<times> PbValue) wres option" where
  "readValueMapEntry data = decode_loop value_entry_step (new_reader data) ([], zero_value)"

definition Vector_Marshal :: "bytes \<Rightarrow> bytes" where
  "Vector_Marshal data = appendBytesField [] 1 data"

definition vector_step :: "nat \<Rightarrow> u64 \<Rightarrow> reader \<Rightarrow> bytes \<Rightarrow> (bytes \<times> reader) wres option" where
  "vector_step f wire r v = Some
    (if f = 1 then readBytesCopy r else wbind (skip r wire) (\<lambda>r. Ok (v, r)))"

text \<open>A \<^verbatim>\<open>Vector\<close> message is its data bytes.\<close>

definition UnmarshalVector :: "bytes \<Rightarrow> bytes wres option" where
  "UnmarshalVector data = decode_loop vector_step (new_reader data) []"

definition EncodeVector :: "f32 list \<Rightarrow> bytes" where
  "EncodeVector v = concat (map (le_put 4) v)"

definition DecodeVector :: "bytes \<Rightarrow> f32 list" where
  "DecodeVector b = map (\<lambda>i. le_get (take 4 (drop (i * 4) b))) [0..<length b div 4]"

section \<open>Points\<close>

record PbPoint =
  pp_ID :: u64
  pp_Vector :: "bytes option"
  pp_Payload :: "(bytes \<times> PbValue option) list"

definition zero_point :: PbPoint where "zero_point = \<lparr>pp_ID = 0, pp_Vector = None, pp_Payload = []\<rparr>"

definition payload_entry :: "bytes \<times> PbValue option \<Rightarrow> bytes" where
  "payload_entry = (\<lambda>(k, v).
    let e = appendVarint (appendTag [] 1 wireBytes) (of_nat (length k)) @ k
    in case v of None \<Rightarrow> e | Some v \<Rightarrow> appendMessageField e 2 (Value_Marshal v) True)"

definition Point_Marshal :: "PbPoint \<Rightarrow> bytes" where
  "Point_Marshal p =
    (let b1 = appendVarintField [] 1 (pp_ID p);
         b2 = (case pp_Vector p of None \<Rightarrow> b1 | Some v \<Rightarrow> appendMessageField b1 2 (Vector_Marshal v) True)
     in fold (\<lambda>kv b. appendMessageField b 3 (payload_entry kv) True) (pp_Payload p) b2)"

definition point_step :: "nat \<Rightarrow> u64 \<Rightarrow> reader \<Rightarrow> PbPoint \<Rightarrow> (PbPoint \<times> reader) wres option" where
  "point_step f wire r p =
    (if f = 1 then Some (wbind (readVarint r) (\<lambda>(n, r). Ok (p\<lparr>pp_ID := n\<rparr>, r)))
     else if f = 2 then
       (case readBytes r of
          Err e \<Rightarrow> Some (Err e)
        | Panic \<Rightarrow> Some Panic
        | Ok (raw, r) \<Rightarrow> map_option (\<lambda>res. wbind res (\<lambda>v. Ok (p\<lparr>pp_Vector := Some v\<rparr>, r))) (UnmarshalVector raw))
     else if f = 3 then
       (case readBytes r of
          Err e \<Rightarrow> Some (Err e)
        | Panic \<Rightarrow> Some Panic
        | Ok (raw, r) \<Rightarrow> map_option (\<lambda>res. wbind res (\<lambda>(k, v).
            Ok (p\<lparr>pp_Payload := AList.update k (Some v) (pp_Payload p)\<rparr>, r))) (readValueMapEntry raw))
     else Some (wbind (skip r wire) (\<lambda>r. Ok (p, r))))"

definition UnmarshalPoint :: "bytes \<Rightarrow> PbPoint wres option" where
  "UnmarshalPoint data = decode_loop point_step (new_reader data) zero_point"

record PbScoredPoint =
  ps_Point :: "PbPoint option"
  ps_Score :: f64
  ps_Rank :: u64

definition ScoredPoint_Marshal :: "PbScoredPoint \<Rightarrow> bytes" where
  "ScoredPoint_Marshal s =
    (let b1 = (case ps_Point s of None \<Rightarrow> [] | Some p \<Rightarrow> appendMessageField [] 1 (Point_Marshal p) True);
         b2 = appendDoubleField b1 2 (ps_Score s)
     in appendVarintField b2 3 (ps_Rank s))"

definition scored_step :: "nat \<Rightarrow> u64 \<Rightarrow> reader \<Rightarrow> PbScoredPoint \<Rightarrow> (PbScoredPoint \<times> reader) wres option" where
  "scored_step f wire r s =
    (if f = 1 then
       (case readBytes r of
          Err e \<Rightarrow> Some (Err e)
        | Panic \<Rightarrow> Some Panic
        | Ok (raw, r) \<Rightarrow> map_option (\<lambda>res. wbind res (\<lambda>p. Ok (s\<lparr>ps_Point := Some p\<rparr>, r))) (UnmarshalPoint raw))
     else if f = 2 then Some (wbind (readDouble r) (\<lambda>(d, r). Ok (s\<lparr>ps_Score := d\<rparr>, r)))
     else if f = 3 then Some (wbind (readVarint r) (\<lambda>(n, r). Ok (s\<lparr>ps_Rank := n\<rparr>, r)))
     else Some (wbind (skip r wire) (\<lambda>r. Ok (s, r))))"

definition UnmarshalScoredPoint :: "bytes \<Rightarrow> PbScoredPoint wres option" where
  "UnmarshalScoredPoint data = decode_loop scored_step (new_reader data) \<lparr>ps_Point = None, ps_Score = 0, ps_Rank = 0\<rparr>"

section \<open>Reading back what was written\<close>

definition rest_at :: "reader \<Rightarrow> bytes \<Rightarrow> bool" where
  "rest_at r xs = (0 \<le> rd_pos r \<and> rd_pos r \<le> rd_len r \<and> rd_len r < 2 ^ 63 \<and> drop (nat (rd_pos r)) (rd_buf r) = xs)"

lemma rest_at_new: "length xs < 2 ^ 63 \<Longrightarrow> rest_at (new_reader xs) xs"
  by (simp add: rest_at_def new_reader_def rd_len_def)

lemma rest_at_advance:
  assumes "rest_at r (p @ xs)"
  shows "rest_at (r\<lparr>rd_pos := rd_pos r + int (length p)\<rparr>) xs"
    and "rd_pos r + int (length p) \<le> rd_len r"
proof -
  have d: "drop (nat (rd_pos r)) (rd_buf r) = p @ xs" and r: "0 \<le> rd_pos r" "rd_pos r \<le> rd_len r" "rd_len r < 2 ^ 63"
    using assms by (auto simp: rest_at_def)
  have "length (drop (nat (rd_pos r)) (rd_buf r)) = length p + length xs" using d by simp
  then show le: "rd_pos r + int (length p) \<le> rd_len r" using r by (simp add: rd_len_def)
  have "drop (length p) (drop (nat (rd_pos r)) (rd_buf r)) = xs" using d by simp
  then have "drop (nat (rd_pos r + int (length p))) (rd_buf r) = xs"
    using r by (simp add: nat_add_distrib add.commute)
  with le r show "rest_at (r\<lparr>rd_pos := rd_pos r + int (length p)\<rparr>) xs"
    by (simp add: rest_at_def rd_len_def)
qed

lemma low7: "b < 0x80 \<Longrightarrow> b AND 0x7F = (b :: byte)"
proof -
  assume "b < 0x80"
  then have "unat b < 2 ^ 7" by (simp add: word_less_nat_alt)
  then have "take_bit 7 b = b" by (simp add: word_unat_eq_iff unsigned_take_bit_eq take_bit_nat_eq_self)
  then show ?thesis by (simp add: take_bit_eq_mask mask_eq_decr_exp)
qed

lemma varint_loop_agrees:
  "uvarint_loop bs i x = (v, n) \<Longrightarrow> 0 < n \<Longrightarrow> i \<le> 10 \<Longrightarrow>
   \<exists>m. varint_loop bs (7 * i) x k = Ok (v, m) \<and> int m = int k + n - int i"
proof (induction bs i x arbitrary: k rule: uvarint_loop.induct)
  case (2 b bs i x)
  have i: "i \<noteq> MaxVarintLen64" "i \<le> 9" using "2.prems" by (auto simp: MaxVarintLen64_def split: if_splits)
  show ?case
  proof (cases "b < 0x80")
    case True
    then show ?thesis using "2.prems" i by (auto simp: Let_def low7 split: if_splits)
  next
    case False
    have "uvarint_loop bs (Suc i) (x OR push_bit (7 * i) (ucast (b AND 0x7F))) = (v, n)"
      using "2.prems"(1) i False by simp
    from "2.IH" [OF i(1) False this "2.prems"(2)] i
    obtain m where "varint_loop bs (7 * Suc i) (x OR push_bit (7 * i) (ucast (b AND 0x7F))) (Suc k) = Ok (v, m)"
      "int m = int (Suc k) + n - int (Suc i)" by (metis Suc_le_mono eval_nat_numeral(2) semiring_norm(28))
    then show ?thesis using False i by (simp add: Let_def add.commute)
  qed
qed simp

lemma readVarint_rest:
  assumes "rest_at r (put_uvarint v @ xs)"
  obtains r' where "readVarint r = Ok (v, r')" "rest_at r' xs"
proof -
  have d: "drop (nat (rd_pos r)) (rd_buf r) = put_uvarint v @ xs" and p: "0 \<le> rd_pos r"
    using assms by (auto simp: rest_at_def)
  have "uvarint_loop (put_uvarint v @ xs) 0 0 = (v, int (UvarintLen v))" using Uvarint_put by (simp add: Uvarint_def)
  moreover have "0 < UvarintLen v" using put_uvarint_nonempty [of v] by (simp flip: length_put_uvarint)
  ultimately have l: "varint_loop (put_uvarint v @ xs) 0 0 0 = Ok (v, length (put_uvarint v))"
    using varint_loop_agrees [of "put_uvarint v @ xs" 0 0 v "int (UvarintLen v)" 0] by (auto simp: length_put_uvarint)
  have "0 < length (put_uvarint v)" using put_uvarint_nonempty [of v] by simp
  with rest_at_advance(2) [OF assms] have "\<not> rd_len r \<le> rd_pos r" by linarith
  then have "readVarint r = Ok (v, r\<lparr>rd_pos := rd_pos r + int (length (put_uvarint v))\<rparr>)"
    using p d l by (simp add: readVarint_def)
  then show ?thesis using that rest_at_advance(1) [OF assms] by blast
qed

lemma rest_at_length: "rest_at r xs \<Longrightarrow> int (length xs) < 2 ^ 63"
  by (auto simp: rest_at_def rd_len_def)

lemma readBytes_rest:
  assumes "rest_at r (put_uvarint (of_nat (length p)) @ p @ xs)"
  obtains r' where "readBytes r = Ok (p, r')" "rest_at r' xs"
proof -
  obtain r1 where r1: "readVarint r = Ok (of_nat (length p), r1)" "rest_at r1 (p @ xs)"
    using readVarint_rest [OF assms] by blast
  have "int (length p) < 2 ^ 63" using rest_at_length [OF r1(2)] by simp
  then have n: "go_int (uint (of_nat (length p) :: u64)) = int (length p)"
    by (simp add: go_int_small unsigned_of_nat take_bit_nat_eq_self)
  have le: "rd_pos r1 + int (length p) \<le> rd_len r1" and d: "drop (nat (rd_pos r1)) (rd_buf r1) = p @ xs" and b: "0 \<le> rd_pos r1" "rd_len r1 < 2 ^ 63"
    using rest_at_advance(2) [OF r1(2)] r1(2) by (auto simp: rest_at_def)
  then have "go_int (rd_pos r1 + int (length p)) = rd_pos r1 + int (length p)" by (simp add: go_int_small)
  then have "readBytes r = Ok (p, r1\<lparr>rd_pos := rd_pos r1 + int (length p)\<rparr>)"
    using r1(1) n le d by (simp add: readBytes_def)
  then show ?thesis using that rest_at_advance(1) [OF r1(2)] by blast
qed

lemma readDouble_rest:
  assumes "rest_at r (le_put 8 v @ xs)"
  obtains r' where "readDouble r = Ok (v, r')" "rest_at r' xs"
proof -
  have d: "drop (nat (rd_pos r)) (rd_buf r) = le_put 8 v @ xs" and b: "0 \<le> rd_pos r" using assms by (auto simp: rest_at_def)
  have "readDouble r = Ok (v, r\<lparr>rd_pos := rd_pos r + int (length (le_put 8 v))\<rparr>)"
    using rest_at_advance(2) [OF assms] d b by (simp add: readDouble_def readFixed64_def codec_simps)
  then show ?thesis using that rest_at_advance(1) [OF assms] by blast
qed

definition tagged :: "nat \<Rightarrow> u64 \<Rightarrow> bytes" where
  "tagged f wire = put_uvarint (push_bit 3 (of_nat f) OR wire)"

lemma readTag_rest:
  assumes "rest_at r (tagged f wire @ xs)" "f < 2 ^ 61" "wire < 8"
  obtains r' where "readTag r = Ok (f, wire, r')" "rest_at r' xs"
proof -
  obtain r' where r': "readVarint r = Ok (push_bit 3 (of_nat f) OR wire, r')" "rest_at r' xs"
    using assms(1) readVarint_rest unfolding tagged_def by blast
  have w: "\<not> bit wire n" if "3 \<le> n" for n
  proof -
    have "unat wire < 2 ^ 3" using assms(3) by (simp add: word_less_nat_alt)
    then show ?thesis using high_bits_clear [of wire 3 n] that by auto
  qed
  have f: "\<not> bit (of_nat f :: u64) n" if "61 \<le> n" for n
  proof -
    have "unat (of_nat f :: u64) < 2 ^ 61" using assms(2) by (simp add: unsigned_of_nat take_bit_nat_eq_self)
    then show ?thesis using high_bits_clear [of "of_nat f" 61 n] that by auto
  qed
  have "drop_bit 3 (push_bit 3 (of_nat f) OR wire) = of_nat f"
    by (rule bit_word_eqI) (use w f in \<open>auto simp: bit_simps not_le [symmetric]\<close>)
  moreover have "unat (of_nat f :: u64) = f" using assms(2) by (simp add: unsigned_of_nat take_bit_nat_eq_self)
  moreover have "take_bit 3 (push_bit 3 (of_nat f) OR wire) = wire"
    by (rule bit_word_eqI) (use w in \<open>auto simp: bit_simps\<close>)
  then have "(push_bit 3 (of_nat f) OR wire) AND 7 = wire" by (simp add: take_bit_eq_mask mask_eq_decr_exp)
  ultimately have "readTag r = Ok (f, wire, r')" using r' by (simp add: readTag_def)
  then show ?thesis using that r' by blast
qed

definition decoded :: "(nat \<Rightarrow> u64 \<Rightarrow> reader \<Rightarrow> 's \<Rightarrow> ('s \<times> reader) wres option) \<Rightarrow> bytes \<Rightarrow> 's \<Rightarrow> 's \<Rightarrow> bool" where
  "decoded step xs s s' = (\<forall>r. rest_at r xs \<longrightarrow> decode_loop step r s = Some (Ok s'))"

lemma decoded_nil: "decoded step [] s s"
  by (auto simp: decoded_def decode_loop.simps rest_at_def rd_done_def rd_len_def)

lemma decoded_new: "decoded step xs s s' \<Longrightarrow> length xs < 2 ^ 63 \<Longrightarrow> decode_loop step (new_reader xs) s = Some (Ok s')"
  using rest_at_new by (auto simp: decoded_def)

lemma decoded_field:
  assumes "\<And>r. rest_at r (p @ xs) \<Longrightarrow> \<exists>r'. step f wire r s = Some (Ok (s2, r')) \<and> rest_at r' xs"
    and "f < 2 ^ 61" "wire < 8" "decoded step xs s2 s'"
  shows "decoded step (tagged f wire @ p @ xs) s s'"
proof -
  have "decode_loop step r s = Some (Ok s')" if r: "rest_at r (tagged f wire @ p @ xs)" for r
  proof -
    obtain r1 where r1: "readTag r = Ok (f, wire, r1)" "rest_at r1 (p @ xs)"
      using readTag_rest [OF r assms(2,3)] by blast
    obtain r2 where r2: "step f wire r1 s = Some (Ok (s2, r2))" "rest_at r2 xs" using assms(1) [OF r1(2)] by blast
    have "0 < int (length (tagged f wire))" using put_uvarint_nonempty by (simp add: tagged_def)
    with rest_at_advance(2) [OF r] have "\<not> rd_done r" unfolding rd_done_def by linarith
    then show ?thesis using r1 r2 assms(4) by (simp add: decode_loop.simps [of step r] decoded_def)
  qed
  then show ?thesis by (simp add: decoded_def)
qed

lemma decoded_varint:
  assumes "\<And>r r'. readVarint r = Ok (v, r') \<Longrightarrow> step f wireVarint r s = Some (Ok (s2, r'))" "f < 2 ^ 61"
    and "decoded step xs s2 s'"
  shows "decoded step (tagged f wireVarint @ put_uvarint v @ xs) s s'"
  by (rule decoded_field [OF _ assms(2) _ assms(3)]) (auto elim!: readVarint_rest dest: assms(1) simp: wireVarint_def)

lemma decoded_double:
  assumes "\<And>r r'. readDouble r = Ok (v, r') \<Longrightarrow> step f wireFixed64 r s = Some (Ok (s2, r'))" "f < 2 ^ 61"
    and "decoded step xs s2 s'"
  shows "decoded step (tagged f wireFixed64 @ le_put 8 v @ xs) s s'"
  by (rule decoded_field [OF _ assms(2) _ assms(3)]) (auto elim!: readDouble_rest dest: assms(1) simp: wireFixed64_def)

lemma decoded_bytes:
  assumes "\<And>r r'. readBytes r = Ok (p, r') \<Longrightarrow> step f wireBytes r s = Some (Ok (s2, r'))" "f < 2 ^ 61"
    and "decoded step xs s2 s'"
  shows "decoded step (tagged f wireBytes @ put_uvarint (of_nat (length p)) @ p @ xs) s s'"
proof -
  have "decoded step (tagged f wireBytes @ (put_uvarint (of_nat (length p)) @ p) @ xs) s s'"
    by (rule decoded_field [OF _ assms(2) _ assms(3)]) (auto elim!: readBytes_rest dest: assms(1) simp: wireBytes_def)
  then show ?thesis by simp
qed

lemma appendTag_tagged: "appendTag b f wire = b @ tagged f wire"
  by (simp add: appendTag_def appendVarint_def tagged_def)

lemmas append_defs = appendVarint_def appendTag_tagged appendVarintFieldAlways_def appendVarintField_def
  appendBoolFieldAlways_def appendDoubleFieldAlways_def appendDoubleField_def appendBytesFieldAlways_def
  appendBytesField_def appendMessageField_def

lemma decoded_varint1:
  "(\<And>r r'. readVarint r = Ok (v, r') \<Longrightarrow> step f wireVarint r s = Some (Ok (s2, r'))) \<Longrightarrow> f < 2 ^ 61
   \<Longrightarrow> decoded step (tagged f wireVarint @ put_uvarint v) s s2"
  using decoded_varint [OF _ _ decoded_nil, of v step f s s2] by simp

lemma decoded_double1:
  "(\<And>r r'. readDouble r = Ok (v, r') \<Longrightarrow> step f wireFixed64 r s = Some (Ok (s2, r'))) \<Longrightarrow> f < 2 ^ 61
   \<Longrightarrow> decoded step (tagged f wireFixed64 @ le_put 8 v) s s2"
  using decoded_double [OF _ _ decoded_nil, of v step f s s2] by simp

lemma decoded_bytes1:
  "(\<And>r r'. readBytes r = Ok (p, r') \<Longrightarrow> step f wireBytes r s = Some (Ok (s2, r'))) \<Longrightarrow> f < 2 ^ 61
   \<Longrightarrow> decoded step (tagged f wireBytes @ put_uvarint (of_nat (length p)) @ p) s s2"
  using decoded_bytes [OF _ _ decoded_nil, of p step f s s2] by simp

text \<open>What a message denotes once the fields its kind does not select, and absent values, are reset.\<close>

definition canon_value :: "PbValue \<Rightarrow> PbValue" where
  "canon_value v =
    (case pv_Kind v of
       ValueInt \<Rightarrow> zero_value\<lparr>pv_Kind := ValueInt, pv_IntVal := pv_IntVal v\<rparr>
     | ValueFloat \<Rightarrow> zero_value\<lparr>pv_Kind := ValueFloat, pv_FloatVal := pv_FloatVal v\<rparr>
     | ValueBool \<Rightarrow> zero_value\<lparr>pv_Kind := ValueBool, pv_BoolVal := pv_BoolVal v\<rparr>
     | ValueStr \<Rightarrow> zero_value\<lparr>pv_Kind := ValueStr, pv_StrVal := pv_StrVal v\<rparr>
     | ValueBytes \<Rightarrow> zero_value\<lparr>pv_Kind := ValueBytes, pv_BytesVal := pv_BytesVal v\<rparr>
     | ValueNull \<Rightarrow> zero_value)"

definition canon_payload :: "(bytes \<times> PbValue option) list \<Rightarrow> (bytes \<times> PbValue option) list" where
  "canon_payload = map (\<lambda>(k, v). (k, Some (case v of None \<Rightarrow> zero_value | Some v \<Rightarrow> canon_value v)))"

definition canon_point :: "PbPoint \<Rightarrow> PbPoint" where
  "canon_point p = \<lparr>pp_ID = pp_ID p, pp_Vector = pp_Vector p, pp_Payload = canon_payload (pp_Payload p)\<rparr>"

definition canon_scored :: "PbScoredPoint \<Rightarrow> PbScoredPoint" where
  "canon_scored s = s\<lparr>ps_Point := map_option canon_point (ps_Point s), ps_Score := (if f64_eq (ps_Score s) 0 then 0 else ps_Score s)\<rparr>"

lemma value_decoded: "decoded value_step (Value_Marshal v) zero_value (canon_value v)"
proof (cases "pv_Kind v")
  case ValueNull
  then show ?thesis by (simp add: Value_Marshal_def canon_value_def decoded_nil)
next
  case ValueBool
  then show ?thesis
    by (auto simp: Value_Marshal_def canon_value_def append_defs value_step_def zero_value_def intro!: decoded_varint1)
qed (auto simp: Value_Marshal_def canon_value_def append_defs value_step_def readString_def readBytesCopy_def
       intro!: decoded_varint1 decoded_double1 decoded_bytes1)

lemma UnmarshalValue_Marshal: "length (Value_Marshal v) < 2 ^ 63 \<Longrightarrow> UnmarshalValue (Value_Marshal v) = Some (Ok (canon_value v))"
  unfolding UnmarshalValue_def by (rule decoded_new [OF value_decoded])

lemma UnmarshalVector_Marshal:
  "length (Vector_Marshal d) < 2 ^ 63 \<Longrightarrow> UnmarshalVector (Vector_Marshal d) = Some (Ok d)"
proof -
  have "decoded vector_step (Vector_Marshal d) [] d"
    by (auto simp: Vector_Marshal_def append_defs vector_step_def readBytesCopy_def intro!: decoded_bytes1 decoded_nil)
  then show "length (Vector_Marshal d) < 2 ^ 63 \<Longrightarrow> ?thesis" unfolding UnmarshalVector_def by (rule decoded_new)
qed

lemma value_entry_decoded:
  assumes "length (payload_entry (k, v)) < 2 ^ 63"
  shows "decoded value_entry_step (payload_entry (k, v)) ([], zero_value)
    (k, case v of None \<Rightarrow> zero_value | Some v \<Rightarrow> canon_value v)"
proof (cases v)
  case None
  then show ?thesis
    by (auto simp: payload_entry_def append_defs value_entry_step_def readString_def intro!: decoded_bytes1)
next
  case (Some w)
  have e: "payload_entry (k, v) = tagged 1 wireBytes @ put_uvarint (of_nat (length k)) @ k
      @ tagged 2 wireBytes @ put_uvarint (of_nat (length (Value_Marshal w))) @ Value_Marshal w"
    using Some by (simp add: payload_entry_def append_defs)
  then have "length (Value_Marshal w) < 2 ^ 63" using assms by simp
  then have u: "UnmarshalValue (Value_Marshal w) = Some (Ok (canon_value w))" by (rule UnmarshalValue_Marshal)
  show ?thesis unfolding e
    by (rule decoded_bytes [where ?s2.0 = "(k, zero_value)"])
      (auto simp: value_entry_step_def readString_def u Some intro!: decoded_bytes1)
qed

lemma fold_append: "fold (\<lambda>x b. b @ g x) xs b = b @ concat (map g xs)"
  by (induction xs arbitrary: b) simp_all

definition payload_bytes :: "(bytes \<times> PbValue option) list \<Rightarrow> bytes" where
  "payload_bytes m = concat (map (\<lambda>kv. tagged 3 wireBytes @ put_uvarint (of_nat (length (payload_entry kv))) @ payload_entry kv) m)"

lemma payload_decoded:
  assumes "length (payload_bytes m) < 2 ^ 63" "distinct (map fst m)" "fst ` set m \<inter> fst ` set (pp_Payload p) = {}"
  shows "decoded point_step (payload_bytes m) p (p\<lparr>pp_Payload := pp_Payload p @ canon_payload m\<rparr>)"
  using assms
proof (induction m arbitrary: p)
  case Nil
  then show ?case by (simp add: payload_bytes_def canon_payload_def decoded_nil)
next
  case (Cons kv m)
  obtain k v where kv: "kv = (k, v)" by force
  let ?w = "case v of None \<Rightarrow> zero_value | Some v \<Rightarrow> canon_value v"
  let ?p = "p\<lparr>pp_Payload := pp_Payload p @ [(k, Some ?w)]\<rparr>"
  have e: "payload_bytes (kv # m) = tagged 3 wireBytes @ put_uvarint (of_nat (length (payload_entry kv)))
      @ payload_entry kv @ payload_bytes m" by (simp add: payload_bytes_def)
  have l: "length (payload_entry (k, v)) < 2 ^ 63" "length (payload_bytes m) < 2 ^ 63" using Cons.prems(1) e kv by auto
  have u: "readValueMapEntry (payload_entry (k, v)) = Some (Ok (k, ?w))"
    unfolding readValueMapEntry_def by (rule decoded_new [OF value_entry_decoded [OF l(1)] l(1)])
  have k: "k \<notin> fst ` set (pp_Payload p)" using Cons.prems(3) kv by auto
  have up: "AList.update k (Some ?w) (pp_Payload p) = pp_Payload p @ [(k, Some ?w)]"
    using k by (rule update_new_key)
  have "decoded point_step (payload_bytes m) ?p (?p\<lparr>pp_Payload := pp_Payload ?p @ canon_payload m\<rparr>)"
    using Cons.prems l kv by (intro Cons.IH) auto
  then have IH: "decoded point_step (payload_bytes m) ?p (p\<lparr>pp_Payload := pp_Payload p @ canon_payload (kv # m)\<rparr>)"
    by (simp add: canon_payload_def kv)
  show ?case unfolding e
    by (rule decoded_bytes [OF _ _ IH]) (auto simp: point_step_def kv u up)
qed

lemma point_decoded:
  assumes "length (Point_Marshal p) < 2 ^ 63" "distinct (map fst (pp_Payload p))"
  shows "decoded point_step (Point_Marshal p) zero_point (canon_point p)"
proof -
  let ?id = "if pp_ID p = 0 then [] else tagged 1 wireVarint @ put_uvarint (pp_ID p)"
  let ?vec = "case pp_Vector p of None \<Rightarrow> [] | Some v \<Rightarrow>
    tagged 2 wireBytes @ put_uvarint (of_nat (length (Vector_Marshal v))) @ Vector_Marshal v"
  have m: "Point_Marshal p = ?id @ ?vec @ payload_bytes (pp_Payload p)"
    by (simp add: Point_Marshal_def append_defs Let_def fold_append payload_bytes_def cong: map_cong split: option.split)
  have l: "length (payload_bytes (pp_Payload p)) < 2 ^ 63" using assms(1) m by simp
  let ?p1 = "zero_point\<lparr>pp_ID := pp_ID p\<rparr>"
  let ?p2 = "?p1\<lparr>pp_Vector := pp_Vector p\<rparr>"
  have "decoded point_step (payload_bytes (pp_Payload p)) ?p2 (?p2\<lparr>pp_Payload := pp_Payload ?p2 @ canon_payload (pp_Payload p)\<rparr>)"
    using l assms(2) by (intro payload_decoded) (auto simp: zero_point_def)
  then have d3: "decoded point_step (payload_bytes (pp_Payload p)) ?p2 (canon_point p)"
    by (simp add: zero_point_def canon_point_def)
  have d2: "decoded point_step (?vec @ payload_bytes (pp_Payload p)) ?p1 (canon_point p)"
  proof (cases "pp_Vector p")
    case None
    then show ?thesis using d3 by (simp add: zero_point_def)
  next
    case (Some v)
    then have "length (Vector_Marshal v) < 2 ^ 63" using assms(1) m by simp
    then have u: "UnmarshalVector (Vector_Marshal v) = Some (Ok v)" by (rule UnmarshalVector_Marshal)
    from d3 show ?thesis unfolding Some
      by (simp, intro decoded_bytes) (auto simp: point_step_def u)
  qed
  have "decoded point_step (?id @ ?vec @ payload_bytes (pp_Payload p)) zero_point (canon_point p)"
  proof (cases "pp_ID p = 0")
    case False
    have "decoded point_step (tagged 1 wireVarint @ put_uvarint (pp_ID p) @ ?vec @ payload_bytes (pp_Payload p)) zero_point (canon_point p)"
      by (rule decoded_varint [OF _ _ d2]) (auto simp: point_step_def)
    then show ?thesis using False by simp
  qed (use d2 in \<open>simp add: zero_point_def\<close>)
  then show ?thesis by (simp only: m)
qed

lemma scored_decoded:
  assumes "length (ScoredPoint_Marshal s) < 2 ^ 63" "\<forall>p. ps_Point s = Some p \<longrightarrow> distinct (map fst (pp_Payload p))"
  shows "decoded scored_step (ScoredPoint_Marshal s) \<lparr>ps_Point = None, ps_Score = 0, ps_Rank = 0\<rparr> (canon_scored s)"
proof -
  let ?pt = "case ps_Point s of None \<Rightarrow> [] | Some p \<Rightarrow>
    tagged 1 wireBytes @ put_uvarint (of_nat (length (Point_Marshal p))) @ Point_Marshal p"
  let ?sc = "if f64_eq (ps_Score s) 0 then [] else tagged 2 wireFixed64 @ le_put 8 (ps_Score s)"
  let ?rk = "if ps_Rank s = 0 then [] else tagged 3 wireVarint @ put_uvarint (ps_Rank s)"
  let ?s1 = "\<lparr>ps_Point = ps_Point (canon_scored s), ps_Score = 0, ps_Rank = 0\<rparr>"
  let ?s2 = "?s1\<lparr>ps_Score := ps_Score (canon_scored s)\<rparr>"
  have m: "ScoredPoint_Marshal s = ?pt @ ?sc @ ?rk"
    by (simp add: ScoredPoint_Marshal_def append_defs Let_def split: option.split)
  have c: "ps_Rank (canon_scored s) = ps_Rank s" by (simp add: canon_scored_def)
  have d3: "decoded scored_step ?rk ?s2 (canon_scored s)"
  proof (cases "ps_Rank s = 0")
    case True
    then have "?s2 = canon_scored s" using c by simp
    then show ?thesis using True by (simp add: decoded_nil)
  next
    case False
    have "decoded scored_step (tagged 3 wireVarint @ put_uvarint (ps_Rank s)) ?s2 (canon_scored s)"
      by (rule decoded_varint1) (auto simp: scored_step_def c [symmetric])
    then show ?thesis using False by simp
  qed
  have d2: "decoded scored_step (?sc @ ?rk) ?s1 (canon_scored s)"
  proof (cases "f64_eq (ps_Score s) 0")
    case True
    then show ?thesis using d3 by (simp add: canon_scored_def)
  next
    case False
    have "decoded scored_step (tagged 2 wireFixed64 @ le_put 8 (ps_Score s) @ ?rk) ?s1 (canon_scored s)"
      by (rule decoded_double [OF _ _ d3]) (use False in \<open>auto simp: scored_step_def canon_scored_def\<close>)
    then show ?thesis using False by simp
  qed
  have "decoded scored_step (?pt @ ?sc @ ?rk) \<lparr>ps_Point = None, ps_Score = 0, ps_Rank = 0\<rparr> (canon_scored s)"
  proof (cases "ps_Point s")
    case None
    then show ?thesis using d2 by (simp add: canon_scored_def)
  next
    case (Some p)
    then have l: "length (Point_Marshal p) < 2 ^ 63" using assms(1) m by simp
    have u: "UnmarshalPoint (Point_Marshal p) = Some (Ok (canon_point p))"
      unfolding UnmarshalPoint_def by (rule decoded_new [OF point_decoded [OF l] l]) (use assms(2) Some in simp)
    have "decoded scored_step (tagged 1 wireBytes @ put_uvarint (of_nat (length (Point_Marshal p))) @ Point_Marshal p @ ?sc @ ?rk)
        \<lparr>ps_Point = None, ps_Score = 0, ps_Rank = 0\<rparr> (canon_scored s)"
      by (rule decoded_bytes [OF _ _ d2]) (use Some in \<open>auto simp: scored_step_def canon_scored_def u\<close>)
    then show ?thesis using Some by simp
  qed
  then show ?thesis by (simp only: m)
qed

lemma DecodeVector_EncodeVector: "DecodeVector (EncodeVector v) = v"
proof -
  have len: "length (EncodeVector v) = 4 * length v" for v
    by (induction v) (auto simp: EncodeVector_def)
  have nth: "i < length v \<Longrightarrow> take 4 (drop (i * 4) (EncodeVector v)) = le_put 4 (v ! i)" for i
  proof (induction v arbitrary: i)
    case (Cons x v)
    then show ?case by (cases i) (auto simp: EncodeVector_def)
  qed simp
  show ?thesis by (rule nth_equalityI) (auto simp: DecodeVector_def len nth codec_simps)
qed

text \<open>C11: Every scored point sent over gRPC is decoded back: the decoder returns, reports no error and does not
  panic, and the point has its id, vector and payload. A payload entry keeps its key and the field its
  kind selects, an absent value becomes null, and a score that equals zero becomes positive zero. The
  vector's bytes decode to its components, bit for bit.\<close>

theorem scored_roundtrip:
  assumes "length (ScoredPoint_Marshal s) < 2 ^ 63" "\<forall>p. ps_Point s = Some p \<longrightarrow> distinct (map fst (pp_Payload p))"
  shows "UnmarshalScoredPoint (ScoredPoint_Marshal s) = Some (Ok (canon_scored s))
    \<and> DecodeVector (EncodeVector v) = v"
  using decoded_new [OF scored_decoded [OF assms] assms(1)] by (simp add: UnmarshalScoredPoint_def DecodeVector_EncodeVector)

lemma put_uvarint_small: "x < 0x80 \<Longrightarrow> put_uvarint x = [ucast x]"
  by (simp add: put_uvarint.simps not_le)

definition demo_scored :: PbScoredPoint where
  "demo_scored = \<lparr>ps_Point = Some \<lparr>pp_ID = 7, pp_Vector = Some [1, 2, 3, 4], pp_Payload =
     [([97], Some (zero_value\<lparr>pv_Kind := ValueInt, pv_IntVal := 100\<rparr>)), ([98], None)]\<rparr>, ps_Score = 0, ps_Rank = 1\<rparr>"

theorem scored_roundtrip_witness:
  "UnmarshalScoredPoint (ScoredPoint_Marshal demo_scored) = Some (Ok (canon_scored demo_scored))
   \<and> DecodeVector (EncodeVector [1, 2]) = [1, 2]
   \<and> ps_Score (canon_scored demo_scored) = 0"
proof -
  have "length (ScoredPoint_Marshal demo_scored) < 2 ^ 63"
    by (simp add: ScoredPoint_Marshal_def Point_Marshal_def payload_entry_def Value_Marshal_def Vector_Marshal_def
      demo_scored_def append_defs Let_def tagged_def put_uvarint_small zero_value_def
      wireBytes_def wireVarint_def wireFixed64_def)
  then show ?thesis using scored_roundtrip [of demo_scored "[1, 2]"]
    by (simp add: demo_scored_def canon_scored_def)
qed

section \<open>Lengths above the signed range\<close>

text \<open>A step that reads the same tag at the same position in the same state goes on for ever.\<close>

lemma decode_loop_stuck:
  assumes "\<not> rd_done r" "readTag r = Ok (f, wire, r1)" "step f wire r1 s = Some (Ok (s, r))"
  shows "decode_loop step r s = None"
proof -
  have "\<not> (t = step \<and> q = r \<and> u = s)" if "decode_loop t q u = Some y" for t q u y
    by (rule decode_loop.raw_induct [where P = "\<lambda>t q u y. \<not> (t = step \<and> q = r \<and> u = s)", OF _ that])
      (use assms in \<open>auto, blast\<close>)
  then show ?thesis by (cases "decode_loop step r s") auto
qed

definition rewinding :: bytes where
  "rewinding = [0x7A, 0xF5, 0xFF, 0xFF, 0xFF, 0xFF, 0xFF, 0xFF, 0xFF, 0xFF, 0x01]"

lemma rewinding_tag:
  "readTag (new_reader rewinding) = Ok (15, wireBytes, \<lparr>rd_buf = rewinding, rd_pos = 1\<rparr>)"
  by (simp add: readTag_def readVarint_def new_reader_def rewinding_def rd_len_def wireBytes_def Let_def)

lemma rewinding_length:
  "readVarint \<lparr>rd_buf = rewinding, rd_pos = 1\<rparr> = Ok (- 11, \<lparr>rd_buf = rewinding, rd_pos = 11\<rparr>)"
  by (simp add: readVarint_def rewinding_def rd_len_def Let_def)

lemma uint_minus_11: "uint (- 11 :: u64) = 2 ^ 64 - 11"
  by (simp add: uint_word_ariths)

lemma rewinding_skip: "skip \<lparr>rd_buf = rewinding, rd_pos = 1\<rparr> wireBytes = Ok (new_reader rewinding)"
proof -
  have "go_int (11 + go_int (uint (- 11 :: u64))) = 0" by (simp only: uint_minus_11) (simp add: go_int_def)
  then show ?thesis
    by (simp add: skip_def rewinding_length wireBytes_def wireVarint_def wireFixed64_def rd_len_def new_reader_def)
qed

lemma rewinding_stuck:
  assumes "\<And>r. step 15 wireBytes r s = Some (wbind (skip r wireBytes) (\<lambda>r. Ok (s, r)))"
  shows "decode_loop step (new_reader rewinding) s = None"
proof (rule decode_loop_stuck [OF _ rewinding_tag])
  show "\<not> rd_done (new_reader rewinding)" by (simp add: rd_done_def rd_len_def new_reader_def rewinding_def)
qed (simp add: assms rewinding_skip)

definition negative_length :: bytes where
  "negative_length = [0x0A, 0x80, 0x80, 0x80, 0x80, 0x80, 0x80, 0x80, 0x80, 0x80, 0x01]"

lemma negative_length_read:
  "readTag (new_reader negative_length) = Ok (1, wireBytes, \<lparr>rd_buf = negative_length, rd_pos = 1\<rparr>)"
  "readVarint \<lparr>rd_buf = negative_length, rd_pos = 1\<rparr>
    = Ok (0x8000000000000000, \<lparr>rd_buf = negative_length, rd_pos = 11\<rparr>)"
  by (simp_all add: readTag_def readVarint_def new_reader_def negative_length_def rd_len_def wireBytes_def Let_def)

lemma negative_length_panics: "readBytes \<lparr>rd_buf = negative_length, rd_pos = 1\<rparr> = Panic"
  by (simp add: readBytes_def negative_length_read go_int_def rd_len_def)


end
