(* ===== verification/Sql_Lexer.thy ===== *)
theory Sql_Lexer
  imports Prelude "HOL-Library.Char_ord"
begin

text \<open>
  The VectorSQL lexer: the tokens of \<^verbatim>\<open>src/vectorsql/token.go\<close>, the error constructors of
  \<^verbatim>\<open>errors.go\<close> and the scanner of \<^verbatim>\<open>lexer.go\<close>, one definition per method. A Go string is the list of
  its bytes, as characters. The position is the byte offset of the source; every loop that moves
  it is a function with a termination proof.
\<close>

section \<open>Strings of the standard library\<close>

definition digit_char :: "nat \<Rightarrow> char" where "digit_char n = char_of (48 + n)"

fun decimal :: "nat \<Rightarrow> string" where
  "decimal n = (if n < 10 then [digit_char n] else decimal (n div 10) @ [digit_char (n mod 10)])"

declare decimal.simps [simp del]

text \<open>UTF-8: the encoder of a valid rune, and the rune at the start of a string, which is
  \<^verbatim>\<open>RuneError\<close> when the bytes there are not an encoding.\<close>

definition RuneError :: nat where "RuneError = 0xFFFD"

definition RuneSelf :: nat where "RuneSelf = 0x80"

definition encode_rune :: "nat \<Rightarrow> string" where
  "encode_rune r =
    (if r < 0x80 then [char_of r]
     else if r < 0x800 then [char_of (0xC0 + r div 0x40), char_of (0x80 + r mod 0x40)]
     else if r < 0x10000 then
       [char_of (0xE0 + r div 0x1000), char_of (0x80 + r div 0x40 mod 0x40), char_of (0x80 + r mod 0x40)]
     else [char_of (0xF0 + r div 0x40000), char_of (0x80 + r div 0x1000 mod 0x40),
           char_of (0x80 + r div 0x40 mod 0x40), char_of (0x80 + r mod 0x40)])"

definition continuation :: "string \<Rightarrow> nat \<Rightarrow> nat \<Rightarrow> nat \<Rightarrow> bool" where
  "continuation s i lo hi = (i < length s \<and> lo \<le> of_char (s ! i) \<and> of_char (s ! i) \<le> hi)"

definition low_bits :: "string \<Rightarrow> nat \<Rightarrow> nat" where "low_bits s i = of_char (s ! i) mod 0x40"

definition DecodeRuneInString :: "string \<Rightarrow> nat" where
  "DecodeRuneInString s =
    (if s = [] then RuneError
     else let b = of_char (s ! 0) in
       if b < 0x80 then b
       else if 0xC2 \<le> b \<and> b \<le> 0xDF \<and> continuation s 1 0x80 0xBF then b mod 0x20 * 0x40 + low_bits s 1
       else if 0xE0 \<le> b \<and> b \<le> 0xEF
           \<and> continuation s 1 (if b = 0xE0 then 0xA0 else 0x80) (if b = 0xED then 0x9F else 0xBF)
           \<and> continuation s 2 0x80 0xBF
         then b mod 0x10 * 0x1000 + low_bits s 1 * 0x40 + low_bits s 2
       else if 0xF0 \<le> b \<and> b \<le> 0xF4
           \<and> continuation s 1 (if b = 0xF0 then 0x90 else 0x80) (if b = 0xF4 then 0x8F else 0xBF)
           \<and> continuation s 2 0x80 0xBF \<and> continuation s 3 0x80 0xBF
         then b mod 0x08 * 0x40000 + low_bits s 1 * 0x1000 + low_bits s 2 * 0x40 + low_bits s 3
       else RuneError)"

definition ValidRune :: "u32 \<Rightarrow> bool" where
  "ValidRune r = ((0 \<le> sint r \<and> sint r < 0xD800) \<or> (0xDFFF < sint r \<and> sint r \<le> 0x10FFFF))"

definition IsSpace :: "nat \<Rightarrow> bool" where
  "IsSpace r = (r \<in> {0x09, 0x0A, 0x0B, 0x0C, 0x0D, 0x20, 0x85, 0xA0, 0x1680, 0x2028, 0x2029, 0x202F, 0x205F, 0x3000}
     \<or> (0x2000 \<le> r \<and> r \<le> 0x200A))"

definition lower_char :: "char \<Rightarrow> char" where
  "lower_char c = (if CHR ''A'' \<le> c \<and> c \<le> CHR ''Z'' then char_of (of_char c + (32 :: nat)) else c)"

text \<open>\<^verbatim>\<open>strings.ToLower\<close> on an ASCII string.\<close>

definition ToLower :: "string \<Rightarrow> string" where "ToLower s = map lower_char s"

section \<open>Errors\<close>

record VecError =
  ve_Code :: string
  ve_Numeric :: int
  ve_Message :: string
  ve_Detail :: string
  ve_Offset :: int

definition VecError_Error :: "VecError \<Rightarrow> string" where
  "VecError_Error e =
    (if ve_Detail e \<noteq> [] then ve_Code e @ '': '' @ ve_Message e @ '' ('' @ ve_Detail e @ '')''
     else ve_Code e @ '': '' @ ve_Message e)"

definition codeParse :: string where "codeParse = ''E_PARSE''"
definition codeUnsupported :: string where "codeUnsupported = ''E_UNSUPPORTED''"
definition codeIdent :: string where "codeIdent = ''E_IDENT''"
definition codeType :: string where "codeType = ''E_TYPE''"
definition codeDim :: string where "codeDim = ''E_DIM''"

definition numericOf :: "string \<Rightarrow> int" where
  "numericOf code = (case map_of
    [(codeParse, 1000), (codeUnsupported, 1001), (codeIdent, 1002), (codeType, 1003), (codeDim, 1004),
     (''E_PARAM'', 1005), (''E_PARAM_TYPE_CONFLICT'', 1006), (''E_NULL_VEC'', 1007),
     (''E_VECTOR_GROUP'', 1020), (''E_VECTOR_DISTINCT'', 1021), (''E_AGG_KNN_CONFLICT'', 1022),
     (''E_PLAN'', 1060)] code of None \<Rightarrow> 0 | Some n \<Rightarrow> n)"

definition newError :: "string \<Rightarrow> string \<Rightarrow> string \<Rightarrow> int \<Rightarrow> VecError" where
  "newError code message detail offset =
    \<lparr>ve_Code = code, ve_Numeric = numericOf code, ve_Message = message, ve_Detail = detail, ve_Offset = offset\<rparr>"

definition parseError :: "nat \<Rightarrow> string \<Rightarrow> string \<Rightarrow> VecError" where
  "parseError offset message detail =
    newError codeParse (''syntax error at position '' @ decimal offset @ '': '' @ message) detail (int offset)"

definition unsupportedError :: "string \<Rightarrow> string \<Rightarrow> VecError" where
  "unsupportedError message detail = newError codeUnsupported message detail (- 1)"

definition identError :: "string \<Rightarrow> string \<Rightarrow> VecError" where
  "identError message detail = newError codeIdent message detail (- 1)"

definition typeError :: "string \<Rightarrow> string \<Rightarrow> VecError" where
  "typeError message detail = newError codeType message detail (- 1)"

definition dimError :: "string \<Rightarrow> string \<Rightarrow> VecError" where
  "dimError message detail = newError codeDim message detail (- 1)"

section \<open>Tokens\<close>

datatype tokenKind =
    tokEOF | tokIdent | tokKeyword | tokInt | tokFloat | tokString | tokParam
  | tokComma | tokLParen | tokRParen | tokDot | tokSemicolon | tokStar
  | tokEq | tokNe | tokLt | tokLe | tokGt | tokGe
  | tokPlus | tokMinus | tokSlash | tokPercent | tokConcat
  | tokL2 | tokCos | tokIP | tokL1 | tokCast
  | tokArrow | tokArrow2 | tokContains | tokContained | tokOverlap

record Token =
  tk_Kind :: tokenKind
  tk_Text :: string
  tk_Offset :: nat
  tk_ParamName :: string
  tk_ParamPos :: int

definition sql_keywords :: "string list" where
  "sql_keywords =
    [''add'', ''against'', ''all'', ''alter'', ''analyze'', ''and'', ''as'', ''asc'', ''begin'', ''between'', ''by'',
     ''case'', ''check'', ''column'', ''commit'', ''conflict'', ''copy'', ''create'', ''cross'', ''deallocate'',
     ''default'', ''delete'', ''desc'', ''distinct'', ''do'', ''drop'', ''else'', ''end'', ''execute'', ''exists'',
     ''explain'', ''filter'', ''first'', ''format'', ''from'', ''fusion'', ''group'', ''having'', ''if'', ''ilike'',
     ''in'', ''index'', ''insert'', ''into'', ''is'', ''isolation'', ''join'', ''keyword'', ''key'', ''last'', ''level'',
     ''like'', ''limit'', ''local'', ''match'', ''not'', ''null'', ''nulls'', ''offset'', ''on'', ''or'', ''order'',
     ''pragma'', ''prepare'', ''primary'', ''profile'', ''release'', ''rename'', ''returning'', ''rollback'',
     ''savepoint'', ''select'', ''session'', ''set'', ''table'', ''then'', ''to'', ''transaction'', ''unique'',
     ''update'', ''upsert'', ''using'', ''values'', ''when'', ''where'', ''with'', ''true'', ''false'']"

definition isKeyword :: "string \<Rightarrow> bool" where "isKeyword lower = (lower \<in> set sql_keywords)"

section \<open>The scanner\<close>

record lexer =
  lx_src :: string
  lx_pos :: nat
  lx_tokens :: "Token list"
  lx_err :: "VecError option"

definition new_lexer :: "string \<Rightarrow> lexer" where
  "new_lexer src = \<lparr>lx_src = src, lx_pos = 0, lx_tokens = [], lx_err = None\<rparr>"

definition isDigit :: "char \<Rightarrow> bool" where "isDigit c = (CHR ''0'' \<le> c \<and> c \<le> CHR ''9'')"

definition isIdentStart :: "char \<Rightarrow> bool" where
  "isIdentStart c = (c = CHR ''_'' \<or> (CHR ''a'' \<le> c \<and> c \<le> CHR ''z'') \<or> (CHR ''A'' \<le> c \<and> c \<le> CHR ''Z''))"

definition isIdentPart :: "char \<Rightarrow> bool" where
  "isIdentPart c = (isIdentStart c \<or> isDigit c \<or> c = CHR ''$'')"

definition boundary_chars :: string where
  "boundary_chars = '',()[].;*=<>+-/%:'' @ [CHR 0x27, CHR 0x22] @ ''|@&!''"

definition isBoundary :: "nat \<Rightarrow> bool" where
  "isBoundary r = (IsSpace r \<or> r \<in> set (map of_char boundary_chars))"

definition hexVal :: "char \<Rightarrow> int" where
  "hexVal c =
    (if CHR ''0'' \<le> c \<and> c \<le> CHR ''9'' then of_char c - 48
     else if CHR ''a'' \<le> c \<and> c \<le> CHR ''f'' then of_char c - 97 + 10
     else if CHR ''A'' \<le> c \<and> c \<le> CHR ''F'' then of_char c - 65 + 10
     else - 1)"

definition peekAt :: "lexer \<Rightarrow> nat \<Rightarrow> char" where
  "peekAt l off = (if lx_pos l + off < length (lx_src l) then lx_src l ! (lx_pos l + off) else CHR 0x00)"

definition cur :: "lexer \<Rightarrow> char" where "cur l = lx_src l ! lx_pos l"

definition advance :: "nat \<Rightarrow> lexer \<Rightarrow> lexer" where "advance n l = l\<lparr>lx_pos := lx_pos l + n\<rparr>"

definition emit :: "tokenKind \<Rightarrow> string \<Rightarrow> nat \<Rightarrow> lexer \<Rightarrow> lexer" where
  "emit kind txt off l =
    l\<lparr>lx_tokens := lx_tokens l @ [\<lparr>tk_Kind = kind, tk_Text = txt, tk_Offset = off, tk_ParamName = [], tk_ParamPos = 0\<rparr>]\<rparr>"

definition fail :: "nat \<Rightarrow> string \<Rightarrow> string \<Rightarrow> lexer \<Rightarrow> lexer" where
  "fail off message detail l =
    (if lx_err l = None then l\<lparr>lx_err := Some (parseError off message detail)\<rparr> else l)"

definition slice :: "lexer \<Rightarrow> nat \<Rightarrow> nat \<Rightarrow> string" where
  "slice l i j = take (j - i) (drop i (lx_src l))"

text \<open>The loop that steps over the bytes of a class.\<close>

function skip_while :: "(char \<Rightarrow> bool) \<Rightarrow> lexer \<Rightarrow> lexer" where
  "skip_while p l =
    (if lx_pos l < length (lx_src l) \<and> p (cur l) then skip_while p (advance 1 l) else l)"
  by pat_completeness auto
termination by (relation "measure (\<lambda>(p, l). length (lx_src l) - lx_pos l)") (auto simp: advance_def)

declare skip_while.simps [simp del]

definition skipLineComment :: "lexer \<Rightarrow> lexer" where
  "skipLineComment l = skip_while (\<lambda>c. c \<noteq> CHR 0x0A) l"

definition nested_detail :: string where
  "nested_detail = ''block comments may not be nested (spec 12 '' @ encode_rune 0xA7 @ ''2.2)''"

function block_loop :: "nat \<Rightarrow> lexer \<Rightarrow> lexer" where
  "block_loop start l =
    (if lx_pos l < length (lx_src l) then
       if cur l = CHR ''/'' \<and> peekAt l 1 = CHR ''*'' then
         fail (lx_pos l) ''nested block comment'' nested_detail l
       else if cur l = CHR ''*'' \<and> peekAt l 1 = CHR ''/'' then advance 2 l
       else block_loop start (advance 1 l)
     else fail start ''unterminated block comment'' [] l)"
  by pat_completeness auto
termination by (relation "measure (\<lambda>(s, l). length (lx_src l) - lx_pos l)") (auto simp: advance_def)

declare block_loop.simps [simp del]

definition skipBlockComment :: "lexer \<Rightarrow> lexer" where
  "skipBlockComment l = block_loop (lx_pos l) (advance 2 l)"

fun hex_loop :: "string \<Rightarrow> nat \<Rightarrow> nat \<Rightarrow> u32 \<Rightarrow> u32 option" where
  "hex_loop src p 0 r = Some r"
| "hex_loop src p (Suc k) r =
    (let d = hexVal (src ! p)
     in if d < 0 then None else hex_loop src (Suc p) k (push_bit 4 r OR of_int d))"

text \<open>The builder \<open>b\<close> is passed and returned; the boolean is the result of the method.\<close>

definition scanUnicodeEscape :: "lexer \<Rightarrow> string \<Rightarrow> nat \<Rightarrow> bool \<times> lexer \<times> string" where
  "scanUnicodeEscape l b digits =
    (let start = lx_pos l; l = advance 2 l in
     if length (lx_src l) < lx_pos l + digits then (False, fail start ''truncated unicode escape'' [] l, b)
     else case hex_loop (lx_src l) (lx_pos l) digits 0 of
       None \<Rightarrow> (False, fail start ''invalid unicode escape digit'' [] l, b)
     | Some r \<Rightarrow>
         if \<not> ValidRune r then (False, fail start ''invalid unicode code point'' [] l, b)
         else (True, advance digits l, b @ encode_rune (unat r)))"

definition scanEscape :: "lexer \<Rightarrow> string \<Rightarrow> bool \<times> lexer \<times> string" where
  "scanEscape l b =
    (let esc = peekAt l 1 in
     if esc = CHR ''n'' then (True, advance 2 l, b @ [CHR 0x0A])
     else if esc = CHR ''r'' then (True, advance 2 l, b @ [CHR 0x0D])
     else if esc = CHR ''t'' then (True, advance 2 l, b @ [CHR 0x09])
     else if esc = CHR 0x5C then (True, advance 2 l, b @ [CHR 0x5C])
     else if esc = CHR 0x27 then (True, advance 2 l, b @ [CHR 0x27])
     else if esc = CHR ''u'' then scanUnicodeEscape l b 4
     else if esc = CHR ''U'' then scanUnicodeEscape l b 8
     else (False, fail (lx_pos l) ''invalid escape sequence'' [] l, b))"

lemma peekAt_in: "peekAt l n \<noteq> CHR 0x00 \<Longrightarrow> lx_pos l + n < length (lx_src l)"
  by (auto simp: peekAt_def split: if_splits)

lemma scanEscape_advances:
  assumes "scanEscape l b = (True, l', b')"
  shows "lx_pos l < lx_pos l' \<and> lx_pos l' \<le> length (lx_src l) \<and> l' = advance (lx_pos l' - lx_pos l) l"
  using assms peekAt_in [of l 1]
  by (auto simp: scanEscape_def scanUnicodeEscape_def Let_def advance_def split: if_splits option.splits)

function string_loop :: "nat \<Rightarrow> lexer \<Rightarrow> string \<Rightarrow> lexer" where
  "string_loop start l b =
    (if lx_pos l < length (lx_src l) then
       let c = cur l in
       if c = CHR 0x27 then
         if peekAt l 1 = CHR 0x27 then string_loop start (advance 2 l) (b @ [CHR 0x27])
         else emit tokString b start (advance 1 l)
       else if c = CHR 0x5C then
         case scanEscape l b of (ok, l', b') \<Rightarrow> if \<not> ok then l' else string_loop start l' b'
       else string_loop start (advance 1 l) (b @ [c])
     else fail start ''unterminated string literal'' [] l)"
  by pat_completeness auto
termination
proof (relation "measure (\<lambda>(s, l, b). length (lx_src l) - lx_pos l)", goal_cases)
  case (3 start l b c x1 x2 l' b')
  then have "scanEscape l b = (True, l', b')" by auto
  from scanEscape_advances [OF this] 3(1) have "lx_pos l < lx_pos l'" "lx_src l' = lx_src l"
    by (auto simp: advance_def dest!: arg_cong [of _ _ lx_src])
  then show ?case using 3(1) by simp
qed (auto simp: advance_def)

declare string_loop.simps [simp del]

definition scanString :: "lexer \<Rightarrow> lexer" where
  "scanString l = string_loop (lx_pos l) (advance 1 l) []"

function quoted_loop :: "nat \<Rightarrow> lexer \<Rightarrow> string \<Rightarrow> lexer" where
  "quoted_loop start l b =
    (if lx_pos l < length (lx_src l) then
       let c = cur l in
       if c = CHR 0x22 then
         if peekAt l 1 = CHR 0x22 then quoted_loop start (advance 2 l) (b @ [CHR 0x22])
         else emit tokIdent b start (advance 1 l)
       else quoted_loop start (advance 1 l) (b @ [c])
     else fail start ''unterminated quoted identifier'' [] l)"
  by pat_completeness auto
termination by (relation "measure (\<lambda>(s, l, b). length (lx_src l) - lx_pos l)") (auto simp: advance_def)

declare quoted_loop.simps [simp del]

definition scanQuotedIdent :: "lexer \<Rightarrow> lexer" where
  "scanQuotedIdent l = quoted_loop (lx_pos l) (advance 1 l) []"

definition param_token :: "string \<Rightarrow> int \<Rightarrow> nat \<Rightarrow> Token" where
  "param_token name n off = \<lparr>tk_Kind = tokParam, tk_Text = [], tk_Offset = off, tk_ParamName = name, tk_ParamPos = n\<rparr>"

definition scanNamedParam :: "lexer \<Rightarrow> lexer" where
  "scanNamedParam l =
    (let start = lx_pos l; l1 = advance 1 l; l2 = skip_while isIdentPart l1 in
     if lx_pos l2 = lx_pos l1 then fail start ''empty named parameter'' (''expected an identifier after '' @ [CHR 0x27, CHR '':'', CHR 0x27]) l2
     else l2\<lparr>lx_tokens := lx_tokens l2 @ [param_token (ToLower (slice l2 (lx_pos l1) (lx_pos l2))) 0 start]\<rparr>)"

definition param_number :: "string \<Rightarrow> int" where
  "param_number s = fold (\<lambda>c n. go_int (n * 10 + (of_char c - 48))) s 0"

definition scanPositionalParam :: "lexer \<Rightarrow> lexer" where
  "scanPositionalParam l =
    (let start = lx_pos l; l1 = advance 1 l; l2 = skip_while isDigit l1 in
     if lx_pos l2 = lx_pos l1 then fail start ''empty positional parameter'' (''expected a number after '' @ [CHR 0x27, CHR ''$'', CHR 0x27]) l2
     else let n = param_number (slice l2 (lx_pos l1) (lx_pos l2)) in
       if n = 0 then fail start ''positional parameter must be >= 1'' [] l2
       else l2\<lparr>lx_tokens := lx_tokens l2 @ [param_token [] n start]\<rparr>)"

definition radix_digit :: "char \<Rightarrow> char \<Rightarrow> bool" where
  "radix_digit radix c =
    (if radix = CHR ''x'' then 0 \<le> hexVal c
     else if radix = CHR ''b'' then c = CHR ''0'' \<or> c = CHR ''1''
     else CHR ''0'' \<le> c \<and> c \<le> CHR ''7'')"

definition scanRadixInt :: "nat \<Rightarrow> char \<Rightarrow> lexer \<Rightarrow> lexer" where
  "scanRadixInt start radix l =
    (let l1 = advance 2 l; l2 = skip_while (radix_digit radix) l1 in
     if lx_pos l2 = lx_pos l1 then fail start ''radix literal has no digits'' [] l2
     else emit tokInt (slice l2 start (lx_pos l2)) start l2)"

definition at_char :: "lexer \<Rightarrow> char \<Rightarrow> bool" where
  "at_char l c = (lx_pos l < length (lx_src l) \<and> cur l = c)"

text \<open>The three parts of a decimal number: digits, a fraction, an exponent. The flag says that
  the literal is a float; None is an exponent without digits.\<close>

definition scan_fraction :: "lexer \<Rightarrow> bool \<times> lexer" where
  "scan_fraction l = (if at_char l CHR ''.'' then (True, skip_while isDigit (advance 1 l)) else (False, l))"

definition scan_exponent :: "lexer \<Rightarrow> bool \<times> lexer \<times> bool" where
  "scan_exponent l =
    (if at_char l CHR ''e'' \<or> at_char l CHR ''E'' then
       let l1 = advance 1 l;
           l2 = (if at_char l1 CHR ''+'' \<or> at_char l1 CHR ''-'' then advance 1 l1 else l1);
           l3 = skip_while isDigit l2
       in (True, l3, lx_pos l3 \<noteq> lx_pos l2)
     else (False, l, True))"

definition or_0x20 :: "char \<Rightarrow> char" where "or_0x20 c = char_of (of_char c OR (0x20 :: nat))"

definition scanNumber :: "lexer \<Rightarrow> lexer" where
  "scanNumber l =
    (let start = lx_pos l in
     if cur l = CHR ''0'' \<and> lx_pos l + 1 < length (lx_src l)
        \<and> or_0x20 (lx_src l ! (lx_pos l + 1)) \<in> {CHR ''x'', CHR ''b'', CHR ''o''}
     then scanRadixInt start (or_0x20 (lx_src l ! (lx_pos l + 1))) l
     else let l1 = skip_while isDigit l; (f1, l2) = scan_fraction l1; (f2, l3, ok) = scan_exponent l2 in
       if \<not> ok then fail start ''exponent has no digits'' [] l3
       else emit (if f1 \<or> f2 then tokFloat else tokInt) (slice l3 start (lx_pos l3)) start l3)"

definition scanWord :: "lexer \<Rightarrow> lexer" where
  "scanWord l =
    (let start = lx_pos l; l1 = skip_while isIdentPart l;
         word = slice l1 start (lx_pos l1); r = DecodeRuneInString (drop (lx_pos l1) (lx_src l1)) in
     if r \<noteq> RuneError \<and> RuneSelf \<le> r \<and> \<not> isBoundary r then
       fail (lx_pos l1) ''non-ASCII character in unquoted identifier'' ''quote the identifier to use non-ASCII characters'' l1
     else let lower = ToLower word in
       if isKeyword lower then emit tokKeyword lower start l1 else emit tokIdent lower start l1)"

definition op :: "tokenKind \<Rightarrow> nat \<Rightarrow> nat \<Rightarrow> lexer \<Rightarrow> lexer" where
  "op kind width start l = advance width (emit kind (slice l start (start + width)) start l)"

definition single_kind :: "char \<Rightarrow> tokenKind option" where
  "single_kind c = map_of
    [(CHR '','', tokComma), (CHR ''('', tokLParen), (CHR '')'', tokRParen), (CHR ''.'', tokDot),
     (CHR '';'', tokSemicolon), (CHR ''*'', tokStar), (CHR ''='', tokEq), (CHR ''<'', tokLt), (CHR ''>'', tokGt),
     (CHR ''+'', tokPlus), (CHR ''-'', tokMinus), (CHR ''/'', tokSlash), (CHR ''%'', tokPercent)] c"

definition scanSingle :: "char \<Rightarrow> nat \<Rightarrow> lexer \<Rightarrow> lexer" where
  "scanSingle c start l =
    (case single_kind c of
       Some kind \<Rightarrow> op kind 1 start l
     | None \<Rightarrow> fail start ''unexpected character'' (encode_rune (of_char c)) l)"

definition three_kind :: "string \<Rightarrow> tokenKind option" where
  "three_kind s = map_of
    [(''<->'', tokL2), (''<=>'', tokCos), (''<#>'', tokIP), (''<+>'', tokL1), (''->>'', tokArrow2)] s"

definition two_kind :: "string \<Rightarrow> tokenKind option" where
  "two_kind s = map_of
    [(''->'', tokArrow), (''::'', tokCast), (''||'', tokConcat), (''<='', tokLe), (''>='', tokGe), (''<>'', tokNe),
     (''!='', tokNe), (''@>'', tokContains), (''<@'', tokContained), (''&&'', tokOverlap)] s"

definition scanOperator :: "lexer \<Rightarrow> lexer" where
  "scanOperator l =
    (let start = lx_pos l; c = cur l;
         two = slice l (lx_pos l) (min (lx_pos l + 2) (length (lx_src l)));
         three = slice l (lx_pos l) (min (lx_pos l + 3) (length (lx_src l))) in
     case three_kind three of
       Some kind \<Rightarrow> op kind 3 start l
     | None \<Rightarrow> (case two_kind two of
         Some kind \<Rightarrow> op kind 2 start l
       | None \<Rightarrow> scanSingle c start l))"

text \<open>The body of the main loop.\<close>

definition lex_step :: "lexer \<Rightarrow> lexer" where
  "lex_step l =
    (let c = cur l in
     if c = CHR 0x20 \<or> c = CHR 0x09 \<or> c = CHR 0x0D \<or> c = CHR 0x0A then advance 1 l
     else if c = CHR ''-'' \<and> peekAt l 1 = CHR ''-'' then skipLineComment l
     else if c = CHR ''/'' \<and> peekAt l 1 = CHR ''*'' then skipBlockComment l
     else if c = CHR 0x27 then scanString l
     else if c = CHR 0x22 then scanQuotedIdent l
     else if c = CHR '':'' \<and> peekAt l 1 \<noteq> CHR '':'' then scanNamedParam l
     else if c = CHR ''$'' then scanPositionalParam l
     else if isDigit c then scanNumber l
     else if c = CHR ''.'' \<and> isDigit (peekAt l 1) then scanNumber l
     else if isIdentStart c then scanWord l
     else scanOperator l)"

section \<open>Progress\<close>

lemma advance_simps [simp]:
  "lx_src (advance n l) = lx_src l" "lx_pos (advance n l) = lx_pos l + n"
  "lx_tokens (advance n l) = lx_tokens l" "lx_err (advance n l) = lx_err l"
  by (simp_all add: advance_def)

lemma advance_0 [simp]: "advance 0 l = l"
  by (simp add: advance_def)

lemma advance_advance [simp]: "advance m (advance n l) = advance (n + m) l"
  by (simp add: advance_def add.assoc)

lemma emit_simps [simp]:
  "lx_src (emit k s n l) = lx_src l" "lx_pos (emit k s n l) = lx_pos l" "lx_err (emit k s n l) = lx_err l"
  by (simp_all add: emit_def)

lemma emit_tokens: "\<exists>t. tk_Offset t = n \<and> lx_tokens (emit k s n l) = lx_tokens l @ [t]"
  by (simp add: emit_def)

lemma fail_simps [simp]:
  "lx_src (fail n m d l) = lx_src l" "lx_pos (fail n m d l) = lx_pos l" "lx_tokens (fail n m d l) = lx_tokens l"
  "lx_err (fail n m d l) \<noteq> None"
  by (auto simp: fail_def)

text \<open>Skipping a class of bytes moves over the longest run of them.\<close>

lemma cur_drop: "lx_pos l < length (lx_src l) \<Longrightarrow> drop (lx_pos l) (lx_src l) = cur l # drop (Suc (lx_pos l)) (lx_src l)"
  by (simp add: cur_def Cons_nth_drop_Suc)

lemma skip_while_eq: "skip_while p l = advance (length (takeWhile p (drop (lx_pos l) (lx_src l)))) l"
proof (induction p l rule: skip_while.induct)
  case (1 p l)
  show ?case
  proof (cases "lx_pos l < length (lx_src l) \<and> p (cur l)")
    case True
    then show ?thesis using 1 by (simp add: skip_while.simps [of p l] cur_drop)
  next
    case False
    then show ?thesis
      by (cases "lx_pos l < length (lx_src l)") (simp_all add: skip_while.simps [of p l] cur_drop)
  qed
qed

lemma skip_while_simps [simp]:
  "lx_src (skip_while p l) = lx_src l" "lx_tokens (skip_while p l) = lx_tokens l" "lx_err (skip_while p l) = lx_err l"
  "lx_pos l \<le> lx_pos (skip_while p l)"
  by (simp_all add: skip_while_eq)

lemma skip_while_le: "lx_pos l \<le> length (lx_src l) \<Longrightarrow> lx_pos (skip_while p l) \<le> length (lx_src l)"
  using length_takeWhile_le [of p "drop (lx_pos l) (lx_src l)"] by (simp add: skip_while_eq)

lemma skip_while_less: "lx_pos l < length (lx_src l) \<Longrightarrow> p (cur l) \<Longrightarrow> lx_pos l < lx_pos (skip_while p l)"
  by (simp add: skip_while_eq cur_drop)

text \<open>What one scan does: it keeps the source, moves the position forward within it, appends at
  most one token at its start, and stands still only with an error.\<close>

definition scanned :: "nat \<Rightarrow> lexer \<Rightarrow> lexer \<Rightarrow> bool" where
  "scanned start l l' =
    (lx_src l' = lx_src l \<and> lx_pos l \<le> lx_pos l' \<and> lx_pos l' \<le> length (lx_src l)
     \<and> (lx_err l' = None \<longrightarrow> start < lx_pos l')
     \<and> (lx_tokens l' = lx_tokens l \<or> (\<exists>t. tk_Offset t = start \<and> lx_tokens l' = lx_tokens l @ [t])))"

lemma scanned_fail: "lx_pos l \<le> length (lx_src l) \<Longrightarrow> scanned start l (fail n m d l)"
  by (simp add: scanned_def)

lemma scanned_emit: "start < lx_pos l \<Longrightarrow> lx_pos l \<le> length (lx_src l) \<Longrightarrow> scanned start l (emit k s start l)"
  using emit_tokens [of start k s l] by (simp add: scanned_def)

lemma scanned_after:
  "scanned start m l' \<Longrightarrow> lx_src m = lx_src l \<Longrightarrow> lx_tokens m = lx_tokens l \<Longrightarrow> lx_pos l \<le> lx_pos m \<Longrightarrow> scanned start l l'"
  by (auto simp: scanned_def)

lemma block_loop_scanned:
  "start < lx_pos l \<Longrightarrow> lx_pos l \<le> length (lx_src l) \<Longrightarrow> scanned start l (block_loop start l)"
proof (induction start l rule: block_loop.induct)
  case (1 start l)
  consider (out) "\<not> lx_pos l < length (lx_src l)"
    | (nested) "lx_pos l < length (lx_src l)" "cur l = CHR ''/''" "peekAt l 1 = CHR ''*''"
    | (close) "lx_pos l < length (lx_src l)" "cur l = CHR ''*''" "peekAt l 1 = CHR ''/''"
    | (on) "lx_pos l < length (lx_src l)" "\<not> (cur l = CHR ''/'' \<and> peekAt l 1 = CHR ''*'')"
        "\<not> (cur l = CHR ''*'' \<and> peekAt l 1 = CHR ''/'')" by blast
  then show ?case
  proof cases
    case close
    then have "lx_pos l + 1 < length (lx_src l)" using peekAt_in [of l 1] by simp
    then show ?thesis using close "1.prems" by (simp add: block_loop.simps [of start l] scanned_def)
  next
    case on
    have "scanned start (advance 1 l) (block_loop start (advance 1 l))" using "1.IH" on "1.prems" by simp
    then have "scanned start l (block_loop start (advance 1 l))" by (rule scanned_after) simp_all
    then show ?thesis using on by (auto simp: block_loop.simps [of start l])
  qed (use "1.prems" in \<open>simp_all add: block_loop.simps [of start l] scanned_fail\<close>)
qed

lemma scanEscape_false:
  assumes "scanEscape l b = (False, l', b')" "lx_pos l < length (lx_src l)"
  shows "scanned start l l'"
  using assms peekAt_in [of l 1]
  by (auto simp: scanEscape_def scanUnicodeEscape_def Let_def scanned_def split: if_splits option.splits)

lemma string_loop_scanned:
  "start < lx_pos l \<Longrightarrow> lx_pos l \<le> length (lx_src l) \<Longrightarrow> scanned start l (string_loop start l b)"
proof (induction start l b rule: string_loop.induct)
  case (1 start l b)
  show ?case
  proof (cases "lx_pos l < length (lx_src l)")
    case False
    then show ?thesis using "1.prems" by (simp add: string_loop.simps [of start l] scanned_fail)
  next
    case len: True
    obtain ok m b' where esc: "scanEscape l b = (ok, m, b')" by (metis prod_cases3)
    consider (double) "cur l = CHR 0x27" "peekAt l 1 = CHR 0x27" | (close) "cur l = CHR 0x27" "peekAt l 1 \<noteq> CHR 0x27"
      | (escape) "cur l = CHR 0x5C" | (char) "cur l \<noteq> CHR 0x27" "cur l \<noteq> CHR 0x5C" by blast
    then show ?thesis
    proof cases
      case double
      then have "lx_pos l + 1 < length (lx_src l)" using peekAt_in [of l 1] by simp
      then have "scanned start (advance 2 l) (string_loop start (advance 2 l) (b @ [CHR 0x27]))"
        using "1.IH"(1) len double "1.prems" by simp
      then show ?thesis using len double by (simp add: string_loop.simps [of start l]) (erule scanned_after, simp_all)
    next
      case close
      have "scanned start (advance 1 l) (emit tokString b start (advance 1 l))" using len "1.prems" by (intro scanned_emit) auto
      then have "scanned start l (emit tokString b start (advance 1 l))" by (rule scanned_after) simp_all
      then show ?thesis using len close by (simp add: string_loop.simps [of start l])
    next
      case escape
      show ?thesis
      proof (cases ok)
        case True
        then have e: "scanEscape l b = (True, m, b')" using esc by simp
        have m: "lx_src m = lx_src l" "lx_tokens m = lx_tokens l" "lx_pos l < lx_pos m" "lx_pos m \<le> length (lx_src l)"
          using scanEscape_advances [OF e] by (metis advance_simps(1), metis advance_simps(3), auto)
        have "scanned start m (string_loop start m b')"
          using "1.IH"(2) [OF len refl] escape e m "1.prems" by simp
        then have "scanned start l (string_loop start m b')" by (rule scanned_after) (use m in auto)
        then show ?thesis using len escape e by (simp add: string_loop.simps [of start l])
      next
        case False
        then show ?thesis using len escape esc scanEscape_false [of l b m b' start]
          by (simp add: string_loop.simps [of start l])
      qed
    next
      case char
      then have "scanned start (advance 1 l) (string_loop start (advance 1 l) (b @ [cur l]))"
        using "1.IH"(3) len "1.prems" by simp
      then have "scanned start l (string_loop start (advance 1 l) (b @ [cur l]))" by (rule scanned_after) simp_all
      then show ?thesis using len char by (simp add: string_loop.simps [of start l])
    qed
  qed
qed

lemma quoted_loop_scanned:
  "start < lx_pos l \<Longrightarrow> lx_pos l \<le> length (lx_src l) \<Longrightarrow> scanned start l (quoted_loop start l b)"
proof (induction start l b rule: quoted_loop.induct)
  case (1 start l b)
  consider (out) "\<not> lx_pos l < length (lx_src l)"
    | (double) "lx_pos l < length (lx_src l)" "cur l = CHR 0x22" "peekAt l 1 = CHR 0x22"
    | (close) "lx_pos l < length (lx_src l)" "cur l = CHR 0x22" "peekAt l 1 \<noteq> CHR 0x22"
    | (char) "lx_pos l < length (lx_src l)" "cur l \<noteq> CHR 0x22" by blast
  then show ?case
  proof cases
    case out
    then show ?thesis using "1.prems" by (simp add: quoted_loop.simps [of start l] scanned_fail)
  next
    case double
    then have "lx_pos l + 1 < length (lx_src l)" using peekAt_in [of l 1] by simp
    then have "scanned start (advance 2 l) (quoted_loop start (advance 2 l) (b @ [CHR 0x22]))"
      using "1.IH"(1) double "1.prems" by simp
    then show ?thesis using double by (simp add: quoted_loop.simps [of start l]) (erule scanned_after, simp_all)
  next
    case close
    have "scanned start (advance 1 l) (emit tokIdent b start (advance 1 l))" using close "1.prems" by (intro scanned_emit) auto
    then have "scanned start l (emit tokIdent b start (advance 1 l))" by (rule scanned_after) simp_all
    then show ?thesis using close by (simp add: quoted_loop.simps [of start l])
  next
    case char
    then have "scanned start (advance 1 l) (quoted_loop start (advance 1 l) (b @ [cur l]))"
      using "1.IH"(2) "1.prems" by simp
    then have "scanned start l (quoted_loop start (advance 1 l) (b @ [cur l]))" by (rule scanned_after) simp_all
    then show ?thesis using char by (simp add: quoted_loop.simps [of start l])
  qed
qed

lemma scanString_scanned: "lx_pos l < length (lx_src l) \<Longrightarrow> scanned (lx_pos l) l (scanString l)"
  unfolding scanString_def by (rule scanned_after [OF string_loop_scanned]) simp_all

lemma scanQuotedIdent_scanned: "lx_pos l < length (lx_src l) \<Longrightarrow> scanned (lx_pos l) l (scanQuotedIdent l)"
  unfolding scanQuotedIdent_def by (rule scanned_after [OF quoted_loop_scanned]) simp_all

lemma skipBlockComment_scanned:
  "lx_pos l + 1 < length (lx_src l) \<Longrightarrow> scanned (lx_pos l) l (skipBlockComment l)"
  unfolding skipBlockComment_def by (rule scanned_after [OF block_loop_scanned]) simp_all

lemma skipLineComment_scanned:
  "lx_pos l < length (lx_src l) \<Longrightarrow> cur l \<noteq> CHR 0x0A \<Longrightarrow> scanned (lx_pos l) l (skipLineComment l)"
  using skip_while_less [of l "\<lambda>c. c \<noteq> CHR 0x0A"] skip_while_le [of l]
  by (simp add: skipLineComment_def scanned_def)

lemma skip_next_le: "lx_pos l < length (lx_src l) \<Longrightarrow> lx_pos (skip_while p (advance 1 l)) \<le> length (lx_src l)"
  using skip_while_le [of "advance 1 l" p] by simp

lemma skip_next_less: "lx_pos l < lx_pos (skip_while p (advance 1 l))"
  using skip_while_simps(4) [of "advance 1 l" p] by (simp del: skip_while_simps(4))

lemma scanNamedParam_scanned: "lx_pos l < length (lx_src l) \<Longrightarrow> scanned (lx_pos l) l (scanNamedParam l)"
  using skip_next_le [of l isIdentPart] skip_next_less [of l isIdentPart]
  by (auto simp: scanNamedParam_def Let_def scanned_def param_token_def)

lemma scanPositionalParam_scanned: "lx_pos l < length (lx_src l) \<Longrightarrow> scanned (lx_pos l) l (scanPositionalParam l)"
  using skip_next_le [of l isDigit] skip_next_less [of l isDigit]
  by (auto simp: scanPositionalParam_def Let_def scanned_def param_token_def)

lemma scanRadixInt_scanned:
  assumes "lx_pos l + 1 < length (lx_src l)"
  shows "scanned (lx_pos l) l (scanRadixInt (lx_pos l) radix l)"
proof -
  let ?m = "skip_while (radix_digit radix) (advance 2 l)"
  have m: "lx_pos ?m \<le> length (lx_src l)" "lx_pos l < lx_pos ?m"
    using assms skip_while_le [of "advance 2 l" "radix_digit radix"] skip_while_simps(4) [of "advance 2 l" "radix_digit radix"]
    by (simp_all del: skip_while_simps(4))
  have "scanned (lx_pos l) ?m (scanRadixInt (lx_pos l) radix l)"
    using m by (simp add: scanRadixInt_def Let_def scanned_fail scanned_emit)
  then show ?thesis by (rule scanned_after) (use m in simp_all)
qed

lemma scan_fraction_moves:
  assumes "scan_fraction l = (f, m)" "lx_pos l \<le> length (lx_src l)"
  shows "lx_src m = lx_src l \<and> lx_tokens m = lx_tokens l \<and> lx_pos l \<le> lx_pos m \<and> lx_pos m \<le> length (lx_src l)
    \<and> (at_char l CHR ''.'' \<longrightarrow> lx_pos l < lx_pos m)"
  using assms skip_next_le [of l isDigit] skip_next_less [of l isDigit]
  by (auto simp: scan_fraction_def at_char_def split: if_splits)

lemma scan_exponent_moves:
  assumes "scan_exponent l = (f, m, ok)" "lx_pos l \<le> length (lx_src l)"
  shows "lx_src m = lx_src l \<and> lx_tokens m = lx_tokens l \<and> lx_pos l \<le> lx_pos m \<and> lx_pos m \<le> length (lx_src l)"
  using assms skip_next_le [of l isDigit] skip_next_less [of l isDigit]
    skip_next_le [of "advance 1 l" isDigit] skip_next_less [of "advance 1 l" isDigit]
  by (auto simp: scan_exponent_def at_char_def Let_def split: if_splits)

lemma scanNumber_scanned:
  assumes l: "lx_pos l < length (lx_src l)" and c: "isDigit (cur l) \<or> cur l = CHR ''.''"
  shows "scanned (lx_pos l) l (scanNumber l)"
proof (cases "cur l = CHR ''0'' \<and> lx_pos l + 1 < length (lx_src l)
    \<and> or_0x20 (lx_src l ! (lx_pos l + 1)) \<in> {CHR ''x'', CHR ''b'', CHR ''o''}")
  case True
  then have "scanNumber l = scanRadixInt (lx_pos l) (or_0x20 (lx_src l ! (lx_pos l + 1))) l"
    unfolding scanNumber_def Let_def by (rule if_P)
  then show ?thesis using True scanRadixInt_scanned by simp
next
  case False
  let ?l1 = "skip_while isDigit l"
  obtain f1 l2 where l2: "scan_fraction ?l1 = (f1, l2)" by force
  obtain f2 l3 ok where l3: "scan_exponent l2 = (f2, l3, ok)" by (metis prod_cases3)
  have p1: "lx_pos l \<le> lx_pos ?l1" "lx_pos ?l1 \<le> length (lx_src l)" using skip_while_le [of l isDigit] l by simp_all
  note m2 = scan_fraction_moves [OF l2, simplified, OF p1(2)]
  have p2: "lx_pos l2 \<le> length (lx_src l2)" using m2 by simp
  note m3 = scan_exponent_moves [OF l3 p2]
  have "lx_pos l < lx_pos l2"
  proof (cases "isDigit (cur l)")
    case True
    then show ?thesis using skip_while_less [of l isDigit] l m2 by simp
  next
    case False
    then have "?l1 = l" "at_char ?l1 CHR ''.''" using c l by (simp_all add: skip_while.simps [of isDigit l] at_char_def)
    then show ?thesis using m2 by simp
  qed
  then have p: "lx_pos l < lx_pos l3" "lx_pos l3 \<le> length (lx_src l3)" "lx_src l3 = lx_src l" "lx_tokens l3 = lx_tokens l"
    using m2 m3 by simp_all
  have "scanNumber l = (if \<not> ok then fail (lx_pos l) ''exponent has no digits'' [] l3
      else emit (if f1 \<or> f2 then tokFloat else tokInt) (slice l3 (lx_pos l) (lx_pos l3)) (lx_pos l) l3)"
    unfolding scanNumber_def Let_def if_not_P [OF False] by (simp add: l2 l3)
  moreover have "scanned (lx_pos l) l3 \<dots>" using p by (simp add: scanned_fail scanned_emit)
  ultimately have "scanned (lx_pos l) l3 (scanNumber l)" by simp
  then show ?thesis by (rule scanned_after) (use p in simp_all)
qed

lemma scanWord_scanned:
  assumes "lx_pos l < length (lx_src l)" "isIdentStart (cur l)"
  shows "scanned (lx_pos l) l (scanWord l)"
proof -
  let ?m = "skip_while isIdentPart l"
  have m: "lx_pos ?m \<le> length (lx_src l)" "lx_pos l < lx_pos ?m"
    using assms skip_while_le [of l isIdentPart] skip_while_less [of l isIdentPart] by (simp_all add: isIdentPart_def)
  have "scanned (lx_pos l) ?m (scanWord l)"
    using m by (simp add: scanWord_def Let_def scanned_fail scanned_emit)
  then show ?thesis by (rule scanned_after) (use m in simp_all)
qed

lemma slice_length: "i \<le> j \<Longrightarrow> j \<le> length (lx_src l) \<Longrightarrow> length (slice l i j) = j - i"
  by (simp add: slice_def)

lemma op_scanned:
  "0 < width \<Longrightarrow> lx_pos l + width \<le> length (lx_src l) \<Longrightarrow> scanned (lx_pos l) l (op kind width (lx_pos l) l)"
  by (simp add: op_def scanned_def emit_def)

lemma three_kind_length: "three_kind s = Some k \<Longrightarrow> length s = 3"
  by (auto simp: three_kind_def split: if_splits)

lemma two_kind_length: "two_kind s = Some k \<Longrightarrow> length s = 2"
  by (auto simp: two_kind_def split: if_splits)

lemma scanOperator_scanned:
  assumes "lx_pos l < length (lx_src l)"
  shows "scanned (lx_pos l) l (scanOperator l)"
proof -
  let ?two = "slice l (lx_pos l) (min (lx_pos l + 2) (length (lx_src l)))"
  let ?three = "slice l (lx_pos l) (min (lx_pos l + 3) (length (lx_src l)))"
  have three: "lx_pos l + 3 \<le> length (lx_src l)" if "length ?three = 3"
    using that slice_length [of "lx_pos l" "min (lx_pos l + 3) (length (lx_src l))" l] assms by simp
  have two: "lx_pos l + 2 \<le> length (lx_src l)" if "length ?two = 2"
    using that slice_length [of "lx_pos l" "min (lx_pos l + 2) (length (lx_src l))" l] assms by simp
  have single: "scanned (lx_pos l) l (scanSingle (cur l) (lx_pos l) l)"
    using assms by (auto simp: scanSingle_def intro!: op_scanned scanned_fail split: option.split)
  show ?thesis unfolding scanOperator_def Let_def
    by (auto split: option.split intro!: op_scanned single three two dest: three_kind_length two_kind_length)
qed

lemma scanned_if:
  "(c \<Longrightarrow> scanned n l a) \<Longrightarrow> (\<not> c \<Longrightarrow> scanned n l b) \<Longrightarrow> scanned n l (if c then a else b)"
  by simp

lemma lex_step_scanned:
  assumes "lx_pos l < length (lx_src l)"
  shows "scanned (lx_pos l) l (lex_step l)"
proof -
  have one: "scanned (lx_pos l) l (advance 1 l)" using assms by (simp add: scanned_def)
  have nl: "cur l = CHR ''-'' \<Longrightarrow> cur l \<noteq> CHR 0x0A" by simp
  have st: "peekAt l 1 = CHR ''*'' \<Longrightarrow> lx_pos l + 1 < length (lx_src l)" using peekAt_in [of l 1] by simp
  show ?thesis unfolding lex_step_def Let_def
    by (intro scanned_if one skipLineComment_scanned skipBlockComment_scanned scanString_scanned
      scanQuotedIdent_scanned scanNamedParam_scanned scanPositionalParam_scanned scanNumber_scanned scanWord_scanned
      scanOperator_scanned assms) (simp_all add: nl st [simplified])
qed

function run :: "lexer \<Rightarrow> lexer" where
  "run l = (if lx_pos l < length (lx_src l) \<and> lx_err l = None then run (lex_step l) else l)"
  by pat_completeness auto
termination
proof (relation "measure (\<lambda>l. (if lx_err l = None then 1 else 0) + (length (lx_src l) - lx_pos l))", goal_cases)
  case (2 l)
  then show ?case using lex_step_scanned [of l] by (auto simp: scanned_def)
qed simp

declare run.simps [simp del]

definition lex :: "string \<Rightarrow> VecError + Token list" where
  "lex src =
    (let l = run (new_lexer src) in
     case lx_err l of
       Some e \<Rightarrow> Inl e
     | None \<Rightarrow> Inr (lx_tokens l @
         [\<lparr>tk_Kind = tokEOF, tk_Text = [], tk_Offset = length src, tk_ParamName = [], tk_ParamPos = 0\<rparr>]))"

section \<open>The main loop\<close>

definition running :: "lexer \<Rightarrow> bool" where
  "running l = (lx_pos l < length (lx_src l) \<and> lx_err l = None)"

definition offsets_ok :: "lexer \<Rightarrow> bool" where
  "offsets_ok l = (lx_pos l \<le> length (lx_src l) \<and> sorted_wrt (<) (map tk_Offset (lx_tokens l))
    \<and> (\<forall>t\<in>set (lx_tokens l). tk_Offset t < length (lx_src l))
    \<and> (lx_err l = None \<longrightarrow> (\<forall>t\<in>set (lx_tokens l). tk_Offset t < lx_pos l)))"

lemma offsets_ok_step:
  assumes "offsets_ok l" "running l"
  shows "offsets_ok (lex_step l)"
proof -
  have s: "scanned (lx_pos l) l (lex_step l)" using assms(2) by (simp add: running_def lex_step_scanned)
  have "\<forall>t\<in>set (lx_tokens l). tk_Offset t < lx_pos l" using assms by (simp add: offsets_ok_def running_def)
  then show ?thesis using s assms
    by (auto simp: offsets_ok_def scanned_def running_def sorted_wrt_append intro: less_trans)
qed

text \<open>Each turn of the loop but the last moves the position, so that there are at most as many
  turns as there are bytes left.\<close>

lemma run_steps:
  "offsets_ok l \<Longrightarrow> \<exists>n. n \<le> length (lx_src l) - lx_pos l \<and> (lex_step ^^ n) l = run l
     \<and> (\<forall>k<n. running ((lex_step ^^ k) l)) \<and> \<not> running (run l) \<and> offsets_ok (run l) \<and> lx_src (run l) = lx_src l"
proof (induction l rule: run.induct)
  case (1 l)
  show ?case
  proof (cases "running l")
    case False
    then have "run l = l" by (auto simp: run.simps [of l] running_def)
    then show ?thesis using False "1.prems" by (intro exI [of _ 0]) simp
  next
    case True
    then have c: "lx_pos l < length (lx_src l) \<and> lx_err l = None" by (simp add: running_def)
    then have r: "run l = run (lex_step l)" by (simp add: run.simps [of l])
    have s: "scanned (lx_pos l) l (lex_step l)" using c by (simp add: lex_step_scanned)
    obtain n where n: "n \<le> length (lx_src (lex_step l)) - lx_pos (lex_step l)" "(lex_step ^^ n) (lex_step l) = run l"
      "\<forall>k<n. running ((lex_step ^^ k) (lex_step l))" "\<not> running (run l)" "offsets_ok (run l)" "lx_src (run l) = lx_src (lex_step l)"
      using "1.IH" [OF c offsets_ok_step [OF "1.prems" True]] by (auto simp: r)
    have "Suc n \<le> length (lx_src l) - lx_pos l"
    proof (cases "lx_err (lex_step l)")
      case None
      then have "lx_pos l < lx_pos (lex_step l)" "lx_pos (lex_step l) \<le> length (lx_src l)" "lx_src (lex_step l) = lx_src l"
        using s by (simp_all add: scanned_def)
      then show ?thesis using n(1) by simp
    next
      case (Some e)
      then have "\<not> running (lex_step l)" by (simp add: running_def)
      then have "n = 0" using n(3) by (cases n) force+
      then show ?thesis using c by linarith
    qed
    moreover have "(lex_step ^^ Suc n) l = run l" using n(2) by (simp add: funpow_swap1)
    moreover have "running ((lex_step ^^ k) l)" if "k < Suc n" for k
      using that n(3) True by (cases k) (simp_all add: funpow_swap1)
    ultimately show ?thesis using n s by (intro exI [of _ "Suc n"]) (simp add: scanned_def)
  qed
qed

text \<open>C18: The lexer ends on every input, within one turn of its loop per byte. It never moves past the end of
  the source. On success the tokens start at strictly increasing offsets inside the source, and the
  list ends with one end-of-file token at its length.\<close>

theorem lex_terminates:
  "\<exists>n \<le> length src. (lex_step ^^ n) (new_lexer src) = run (new_lexer src)
     \<and> (\<forall>k<n. running ((lex_step ^^ k) (new_lexer src))) \<and> \<not> running (run (new_lexer src))
     \<and> lx_pos (run (new_lexer src)) \<le> length src
     \<and> (\<forall>ts. lex src = Inr ts \<longrightarrow> lx_pos (run (new_lexer src)) = length src
         \<and> sorted_wrt (<) (map tk_Offset ts) \<and> tk_Kind (last ts) = tokEOF \<and> tk_Offset (last ts) = length src)"
proof -
  have "offsets_ok (new_lexer src)" by (simp add: offsets_ok_def new_lexer_def)
  from run_steps [OF this] obtain n where n: "n \<le> length src" "(lex_step ^^ n) (new_lexer src) = run (new_lexer src)"
    "\<forall>k<n. running ((lex_step ^^ k) (new_lexer src))" "\<not> running (run (new_lexer src))"
    "offsets_ok (run (new_lexer src))" "lx_src (run (new_lexer src)) = src"
    by (auto simp: new_lexer_def)
  have "lx_pos (run (new_lexer src)) = length src \<and> sorted_wrt (<) (map tk_Offset ts)
      \<and> tk_Kind (last ts) = tokEOF \<and> tk_Offset (last ts) = length src" if "lex src = Inr ts" for ts
    using that n(4-6) by (auto simp: lex_def Let_def offsets_ok_def running_def sorted_wrt_append split: option.splits)
  then show ?thesis using n by (intro exI [of _ n]) (simp add: offsets_ok_def)
qed

lemma run_emit:
  "running l \<Longrightarrow> run l = run (lex_step l)" "\<not> running l \<Longrightarrow> run l = l"
  by (auto simp: running_def run.simps [of l])

lemmas lex_eval = lex_def Let_def new_lexer_def lex_step_def cur_def peekAt_def isDigit_def isIdentStart_def
  isIdentPart_def less_eq_char_def less_char_def advance_def emit_def skip_while.simps slice_def
  DecodeRuneInString_def RuneError_def RuneSelf_def isBoundary_def

lemma lex_demo: "lex ''a=1'' = Inr [\<lparr>tk_Kind = tokIdent, tk_Text = ''a'', tk_Offset = 0, tk_ParamName = [], tk_ParamPos = 0\<rparr>,
    \<lparr>tk_Kind = tokEq, tk_Text = ''='', tk_Offset = 1, tk_ParamName = [], tk_ParamPos = 0\<rparr>,
    \<lparr>tk_Kind = tokInt, tk_Text = ''1'', tk_Offset = 2, tk_ParamName = [], tk_ParamPos = 0\<rparr>,
    \<lparr>tk_Kind = tokEOF, tk_Text = [], tk_Offset = 3, tk_ParamName = [], tk_ParamPos = 0\<rparr>]"
  by (simp add: run.simps lex_eval scanWord_def ToLower_def lower_char_def isKeyword_def sql_keywords_def
    scanOperator_def three_kind_def two_kind_def scanSingle_def single_kind_def op_def scanNumber_def
    scan_fraction_def scan_exponent_def at_char_def)

theorem lex_terminates_witness:
  "\<exists>n \<le> 3. (lex_step ^^ n) (new_lexer ''a=1'') = run (new_lexer ''a=1'') \<and> \<not> running (run (new_lexer ''a=1''))
     \<and> lx_pos (run (new_lexer ''a=1'')) = 3 \<and> (\<exists>ts. lex ''a=1'' = Inr ts \<and> length ts = 4)"
  using lex_terminates [of "''a=1''"] lex_demo by (auto simp: numeral_3_eq_3)

text \<open>C40: A positional parameter followed by the end of the input denotes its decimal number reduced to Go's
  64-bit integers: a number that wraps to zero is rejected as if it were zero, and one that wraps to
  a small number names that parameter. \<^verbatim>\<open>$18446744073709551617\<close> is \<^verbatim>\<open>$1\<close>.\<close>

theorem positional_param:
  assumes "ds \<noteq> []" "\<forall>c\<in>set ds. isDigit c"
  shows "lex (CHR ''$'' # ds) =
    (let v = fold (\<lambda>c n. n * 10 + (of_char c - 48)) ds 0 in
     if go_int v = 0 then Inl (parseError 0 ''positional parameter must be >= 1'' [])
     else Inr [param_token [] (go_int v) 0,
       \<lparr>tk_Kind = tokEOF, tk_Text = [], tk_Offset = Suc (length ds), tk_ParamName = [], tk_ParamPos = 0\<rparr>])"
proof -
  let ?l = "new_lexer (CHR ''$'' # ds)" and ?v = "fold (\<lambda>c n. n * 10 + (of_char c - 48)) ds 0 :: int"
  have n: "param_number ds = go_int ?v"
  proof -
    have "fold (\<lambda>c n. go_int (n * 10 + (of_char c - 48))) ds (go_int a) = go_int (fold (\<lambda>c n. n * 10 + (of_char c - 48)) ds a)" for a
    proof (induction ds arbitrary: a)
      case (Cons c ds)
      have "go_int (go_int a * 10 + (of_char c - 48)) = go_int (a * 10 + (of_char c - 48))" by (rule go_int_linear)
      then show ?case by (simp add: Cons.IH)
    qed simp
    from this [of 0] show ?thesis by (simp add: param_number_def go_int_small)
  qed
  have t: "takeWhile isDigit ds = ds" using assms(2) by (simp add: takeWhile_eq_all_conv)
  have s: "skip_while isDigit (advance 1 ?l) = advance (Suc (length ds)) ?l"
    by (simp add: skip_while_eq t new_lexer_def)
  have "lex_step ?l = scanPositionalParam ?l"
    by (simp add: lex_step_def new_lexer_def cur_def)
  also have "\<dots> = (if go_int ?v = 0 then fail 0 ''positional parameter must be >= 1'' [] (advance (Suc (length ds)) ?l)
      else (advance (Suc (length ds)) ?l)\<lparr>lx_tokens := [param_token [] (go_int ?v) 0]\<rparr>)"
    unfolding scanPositionalParam_def Let_def s using assms(1) by (simp add: slice_def new_lexer_def n)
  finally have e: "lex_step ?l = \<dots>" .
  have "run ?l = run (lex_step ?l)" by (simp add: run_emit running_def new_lexer_def)
  also have "\<dots> = lex_step ?l" by (rule run_emit(2), unfold e) (simp add: running_def new_lexer_def fail_def)
  finally have r: "run ?l = lex_step ?l" .
  show ?thesis unfolding lex_def Let_def r e by (simp add: new_lexer_def fail_def advance_def)
qed

theorem positional_param_witness:
  "lex ''$18446744073709551617'' = Inr [param_token [] 1 0,
     \<lparr>tk_Kind = tokEOF, tk_Text = [], tk_Offset = 21, tk_ParamName = [], tk_ParamPos = 0\<rparr>]"
proof -
  have "\<forall>c\<in>set ''18446744073709551617''. isDigit c" by (simp add: isDigit_def less_eq_char_def)
  moreover have "go_int 18446744073709551617 = 1" by (simp add: go_int_def)
  ultimately show ?thesis using positional_param [of "''18446744073709551617''"] by simp
qed

end
