(* ===== verification/Sql_Literals.thy ===== *)
theory Sql_Literals
  imports Sql_Lexer
begin

text \<open>
  The places that write VectorSQL text from values: the filter arguments of the query builder
  (\<^verbatim>\<open>src/query.go\<close>, \<^verbatim>\<open>buildWhere\<close> and \<^verbatim>\<open>sqlLiteral\<close>), the parameters of the PostgreSQL protocol
  (\<^verbatim>\<open>src/server/pgwire/params.go\<close>) and the logical dump (\<^verbatim>\<open>src/bulk/dump.go\<close>), against the lexer that
  reads the text back. A float and a timestamp stand for their renderings.
\<close>

definition quote :: char where "quote = CHR 0x27"

text \<open>\<^verbatim>\<open>strings.ReplaceAll\<close> for a pattern of one character.\<close>

definition ReplaceAll :: "char \<Rightarrow> string \<Rightarrow> string \<Rightarrow> string" where
  "ReplaceAll c r s = concat (map (\<lambda>x. if x = c then r else [x]) s)"

definition quoteString :: "string \<Rightarrow> string" where
  "quoteString s = [quote] @ ReplaceAll quote [quote, quote] s @ [quote]"

section \<open>Filter arguments\<close>

datatype sql_arg = ArgString string | ArgBool bool | ArgInt int | ArgUint u64 | ArgFloat string | ArgOther

datatype where_error = NotEnoughArgs | TooManyArgs | UnsupportedArg

definition format_int :: "int \<Rightarrow> string" where
  "format_int i = (if i < 0 then CHR ''-'' # decimal (nat (- i)) else decimal (nat i))"

definition sqlLiteral :: "sql_arg \<Rightarrow> where_error + string" where
  "sqlLiteral v =
    (case v of
       ArgString x \<Rightarrow> Inr ([quote] @ ReplaceAll quote [quote, quote] x @ [quote])
     | ArgBool x \<Rightarrow> Inr (if x then ''true'' else ''false'')
     | ArgInt x \<Rightarrow> Inr (format_int x)
     | ArgUint x \<Rightarrow> Inr (decimal (unat x))
     | ArgFloat x \<Rightarrow> Inr x
     | ArgOther \<Rightarrow> Inl UnsupportedArg)"

fun where_loop :: "string \<Rightarrow> sql_arg list \<Rightarrow> string \<Rightarrow> where_error + string" where
  "where_loop [] args sb = (if args = [] then Inr sb else Inl TooManyArgs)"
| "where_loop (ch # expr) args sb =
    (if ch \<noteq> CHR ''?'' then where_loop expr args (sb @ [ch])
     else case args of
       [] \<Rightarrow> Inl NotEnoughArgs
     | a # args' \<Rightarrow> (case sqlLiteral a of Inl e \<Rightarrow> Inl e | Inr lit \<Rightarrow> where_loop expr args' (sb @ lit)))"

definition buildWhere :: "string \<Rightarrow> sql_arg list \<Rightarrow> where_error + string" where
  "buildWhere expr args = where_loop expr args []"

section \<open>Placeholders of the PostgreSQL protocol\<close>

text \<open>\<^verbatim>\<open>strconv.Atoi\<close> of a run of digits; its error is dropped and leaves the largest \<^verbatim>\<open>int\<close>.\<close>

definition atoi :: "string \<Rightarrow> nat" where
  "atoi ds = min (fold (\<lambda>c n. n * 10 + (of_char c - 48)) ds 0) (2 ^ 63 - 1)"

function replace_loop :: "string list \<Rightarrow> bool \<Rightarrow> string \<Rightarrow> string" where
  "replace_loop lits inStr [] = []"
| "replace_loop lits inStr (ch # sql) =
    (if ch = quote then ch # replace_loop lits (\<not> inStr) sql
     else if ch = CHR ''$'' \<and> \<not> inStr \<and> sql \<noteq> [] \<and> isDigit (hd sql) then
       let n = atoi (takeWhile isDigit sql) in
       if 1 \<le> n \<and> n \<le> length lits then lits ! (n - 1) @ replace_loop lits inStr (dropWhile isDigit sql)
       else ch # replace_loop lits inStr sql
     else ch # replace_loop lits inStr sql)"
  by pat_completeness auto
termination
  by (relation "measure (\<lambda>(lits, inStr, sql). length sql)")
    (auto simp: le_imp_less_Suc length_dropWhile_le)

definition replacePlaceholders :: "string \<Rightarrow> string list \<Rightarrow> string" where
  "replacePlaceholders sql lits = replace_loop lits False sql"

function count_loop :: "bool \<Rightarrow> nat \<Rightarrow> string \<Rightarrow> nat" where
  "count_loop inStr m [] = m"
| "count_loop inStr m (ch # sql) =
    (if ch = quote then count_loop (\<not> inStr) m sql
     else if ch = CHR ''$'' \<and> \<not> inStr \<and> sql \<noteq> [] \<and> isDigit (hd sql) then
       count_loop inStr (max m (atoi (takeWhile isDigit sql))) (dropWhile isDigit sql)
     else count_loop inStr m sql)"
  by pat_completeness auto
termination
  by (relation "measure (\<lambda>(inStr, m, sql). length sql)")
    (auto simp: le_imp_less_Suc length_dropWhile_le)

definition countParams :: "string \<Rightarrow> nat" where
  "countParams sql = count_loop False 0 sql"

section \<open>The dump\<close>

datatype dump_value = DvNull | DvInt int | DvFloat string | DvBool bool | DvText string | DvBytes bytes | DvTimestamp string

definition hex_digit :: "nat \<Rightarrow> char" where
  "hex_digit n = (if n < 10 then char_of (48 + n) else char_of (87 + n))"

definition EncodeToString :: "bytes \<Rightarrow> string" where
  "EncodeToString b = concat (map (\<lambda>x. [hex_digit (unat x div 16), hex_digit (unat x mod 16)]) b)"

definition renderValue :: "dump_value \<Rightarrow> string" where
  "renderValue v =
    (case v of
       DvNull \<Rightarrow> ''NULL''
     | DvInt i \<Rightarrow> format_int i
     | DvFloat s \<Rightarrow> s
     | DvBool b \<Rightarrow> if b then ''TRUE'' else ''FALSE''
     | DvText s \<Rightarrow> [quote] @ ReplaceAll quote [quote, quote] s @ [quote]
     | DvBytes b \<Rightarrow> [quote, CHR 0x5C, CHR ''x''] @ EncodeToString b @ [quote]
     | DvTimestamp s \<Rightarrow> [quote] @ s @ [quote])"

definition isBareIdent :: "string \<Rightarrow> bool" where
  "isBareIdent s = (s \<noteq> [] \<and> isIdentStart (hd s) \<and> (\<forall>c\<in>set s. isIdentStart c \<or> isDigit c))"

definition quoteIdent :: "string \<Rightarrow> string" where
  "quoteIdent s = (if isBareIdent s then s else [CHR 0x22] @ ReplaceAll CHR 0x22 [CHR 0x22, CHR 0x22] s @ [CHR 0x22])"

section \<open>Reading the text back\<close>

lemma ReplaceAll_simps [simp]:
  "ReplaceAll c r [] = []" "ReplaceAll c r (x # s) = (if x = c then r else [x]) @ ReplaceAll c r s"
  by (simp_all add: ReplaceAll_def)

text \<open>The state of the lexer in front of a piece of text.\<close>

lemma at_text:
  assumes "drop (lx_pos l) (lx_src l) = c # rest"
  shows "lx_pos l < length (lx_src l)" "cur l = c"
    and "peekAt l 1 = (case rest of [] \<Rightarrow> CHR 0x00 | d # _ \<Rightarrow> d)"
    and "drop (lx_pos l + 1) (lx_src l) = rest"
proof -
  have n: "\<not> length (lx_src l) \<le> lx_pos l" using assms by (auto dest: drop_all)
  then show len: "lx_pos l < length (lx_src l)" by simp
  show c: "cur l = c" using assms len by (simp add: cur_drop)
  show d: "drop (lx_pos l + 1) (lx_src l) = rest" using assms len by (simp add: cur_drop)
  show "peekAt l 1 = (case rest of [] \<Rightarrow> CHR 0x00 | d # _ \<Rightarrow> d)"
  proof (cases "lx_pos l + 1 < length (lx_src l)")
    case True
    then have "rest = lx_src l ! (lx_pos l + 1) # drop (Suc (lx_pos l + 1)) (lx_src l)"
      using d Cons_nth_drop_Suc [OF True] by simp
    then show ?thesis using True by (simp add: peekAt_def)
  next
    case False
    then have "rest = []" using d by auto
    then show ?thesis using False by (simp add: peekAt_def)
  qed
qed

lemma string_loop_literal:
  assumes "CHR 0x5C \<notin> set s" "post = [] \<or> hd post \<noteq> quote"
    and "drop (lx_pos l) (lx_src l) = ReplaceAll quote [quote, quote] s @ quote # post"
  shows "string_loop start l b = emit tokString (b @ s) start (advance (length (ReplaceAll quote [quote, quote] s) + 1) l)"
  using assms
proof (induction s arbitrary: l b)
  case Nil
  then have d: "drop (lx_pos l) (lx_src l) = quote # post" by simp
  have "peekAt l 1 \<noteq> quote" using Nil.prems(2) at_text(3) [OF d] by (cases post) (auto simp: quote_def)
  then show ?case using at_text(1,2) [OF d] by (simp add: string_loop.simps [of start l] quote_def Let_def)
next
  case (Cons c s)
  show ?case
  proof (cases "c = quote")
    case True
    then have d: "drop (lx_pos l) (lx_src l) = quote # quote # ReplaceAll quote [quote, quote] s @ quote # post"
      using Cons.prems(3) by simp
    have d2: "drop (lx_pos (advance 2 l)) (lx_src (advance 2 l)) = ReplaceAll quote [quote, quote] s @ quote # post"
      using arg_cong [OF d, of "drop 2"] by (simp add: add.commute)
    have "peekAt l 1 = quote" using at_text(3) [OF d] by simp
    then show ?thesis using at_text(1,2) [OF d] Cons.IH [OF _ Cons.prems(2) d2] Cons.prems(1) True
      by (simp add: string_loop.simps [of start l] quote_def Let_def)
  next
    case False
    then have d: "drop (lx_pos l) (lx_src l) = c # ReplaceAll quote [quote, quote] s @ quote # post"
      using Cons.prems(3) by simp
    have d1: "drop (lx_pos (advance 1 l)) (lx_src (advance 1 l)) = ReplaceAll quote [quote, quote] s @ quote # post"
      using at_text(4) [OF d] by simp
    show ?thesis using at_text(1,2) [OF d] Cons.IH [OF _ Cons.prems(2) d1] Cons.prems(1) False
      by (auto simp: string_loop.simps [of start l] quote_def Let_def)
  qed
qed

lemma lex_step_quote:
  assumes "drop (lx_pos l) (lx_src l) = quote # rest"
  shows "lex_step l = string_loop (lx_pos l) (advance 1 l) []"
  using at_text(2) [OF assms] by (simp add: lex_step_def scanString_def quote_def)


definition demo_text :: string where "demo_text = ''it'' @ [quote] @ ''s'' @ [quote]"


text \<open>C4: A text value with a backslash is not safe to write as a literal, against the comment that there is no
  injection path. The literal of a text that starts with a backslash and a quote ends after four
  characters, with the token of a single quote, and the lexer reads the rest of the value as SQL.\<close>

theorem literal_injection:
  assumes "t \<noteq> []" "hd t \<noteq> quote"
    and "drop (lx_pos l) (lx_src l) = quoteString ([CHR 0x5C, quote] @ t) @ post"
  shows "lex_step l = emit tokString [quote] (lx_pos l) (advance 4 l)
    \<and> drop (lx_pos (lex_step l)) (lx_src (lex_step l)) = ReplaceAll quote [quote, quote] t @ quote # post
    \<and> sqlLiteral (ArgString ([CHR 0x5C, quote] @ t)) = Inr (quoteString ([CHR 0x5C, quote] @ t))"
proof -
  let ?rest = "ReplaceAll quote [quote, quote] t @ quote # post"
  have d0: "drop (lx_pos l) (lx_src l) = quote # CHR 0x5C # quote # quote # ?rest"
    using assms(3) by (simp add: quoteString_def quote_def)
  have d1: "drop (lx_pos (advance 1 l)) (lx_src (advance 1 l)) = CHR 0x5C # quote # quote # ?rest"
    using at_text(4) [OF d0] by simp
  have d3: "drop (lx_pos (advance 3 l)) (lx_src (advance 3 l)) = quote # ?rest"
    using arg_cong [OF d0, of "drop 3"] by (simp add: add.commute numeral_3_eq_3)
  have d4: "drop (lx_pos l + 4) (lx_src l) = ?rest"
    using arg_cong [OF d3, of "drop 1"] by (simp add: add.commute)
  have "peekAt (advance 3 l) 1 = hd t"
    using at_text(3) [OF d3] assms(1,2) by (cases t) auto
  then have s3: "string_loop (lx_pos l) (advance 3 l) [quote] = emit tokString [quote] (lx_pos l) (advance 4 l)"
    using at_text(1,2) [OF d3] assms(2) by (simp add: string_loop.simps [of _ "advance 3 l"] quote_def Let_def)
  have "scanEscape (advance 1 l) [] = (True, advance 3 l, [quote])"
    using at_text(3) [OF d1] by (simp add: scanEscape_def quote_def Let_def numeral_3_eq_3)
  then have "string_loop (lx_pos l) (advance 1 l) [] = string_loop (lx_pos l) (advance 3 l) [quote]"
    using at_text(1,2) [OF d1] by (simp add: string_loop.simps [of _ "advance (Suc 0) l"] Let_def)
  then have "lex_step l = emit tokString [quote] (lx_pos l) (advance 4 l)"
    by (simp add: lex_step_quote [OF d0] s3)
  then show ?thesis using d4 by (simp add: sqlLiteral_def quoteString_def)
qed

definition attack :: string where "attack = [CHR 0x5C, quote] @ '' or true --''"

lemma attack_where:
  "buildWhere ''owner = ?'' [ArgString attack] = Inr (''owner = '' @ quoteString attack)"
  by (simp add: buildWhere_def sqlLiteral_def quoteString_def attack_def)

definition attack_where_text :: string where "attack_where_text = ''owner = '' @ quoteString attack"

lemmas step_eval = lex_step_def Let_def cur_def peekAt_def isDigit_def isIdentStart_def isIdentPart_def
  less_eq_char_def less_char_def advance_def emit_def skip_while_eq slice_def DecodeRuneInString_def RuneError_def
  RuneSelf_def isBoundary_def scanWord_def ToLower_def lower_char_def isKeyword_def sql_keywords_def scanOperator_def
  three_kind_def two_kind_def scanSingle_def single_kind_def op_def skipLineComment_def
  attack_where_text_def attack_def quoteString_def quote_def

definition att :: "nat \<Rightarrow> Token list \<Rightarrow> lexer" where
  "att n ts = \<lparr>lx_src = attack_where_text, lx_pos = n, lx_tokens = ts, lx_err = None\<rparr>"

definition tok :: "tokenKind \<Rightarrow> string \<Rightarrow> nat \<Rightarrow> Token" where
  "tok k s n = \<lparr>tk_Kind = k, tk_Text = s, tk_Offset = n, tk_ParamName = [], tk_ParamPos = 0\<rparr>"

lemma attack_steps:
  "lex_step (att 0 ts) = att 5 (ts @ [tok tokIdent ''owner'' 0])"
  "lex_step (att 5 ts) = att 6 ts"
  "lex_step (att 6 ts) = att 7 (ts @ [tok tokEq ''='' 6])"
  "lex_step (att 7 ts) = att 8 ts"
  "lex_step (att 12 ts) = att 13 ts"
  "lex_step (att 13 ts) = att 15 (ts @ [tok tokKeyword ''or'' 13])"
  "lex_step (att 15 ts) = att 16 ts"
  "lex_step (att 16 ts) = att 20 (ts @ [tok tokKeyword ''true'' 16])"
  "lex_step (att 20 ts) = att 21 ts"
  "lex_step (att 21 ts) = att 24 ts"
  by (simp_all add: att_def tok_def step_eval)

lemma run_att: "n < 24 \<Longrightarrow> run (att n ts) = run (lex_step (att n ts))" "run (att 24 ts) = att 24 ts"
  by (simp_all add: run_emit running_def att_def attack_where_text_def quoteString_def attack_def quote_def)

lemma att_emit: "emit k s n (advance m (att i ts)) = att (i + m) (ts @ [tok k s n])"
  by (simp add: emit_def advance_def att_def tok_def)

theorem literal_injection_witness:
  "buildWhere ''owner = ?'' [ArgString attack] = Inr attack_where_text
   \<and> lex attack_where_text = Inr [tok tokIdent ''owner'' 0, tok tokEq ''='' 6, tok tokString [quote] 8,
       tok tokKeyword ''or'' 13, tok tokKeyword ''true'' 16, tok tokEOF [] 24]"
proof -
  have "drop (lx_pos (att 8 ts)) (lx_src (att 8 ts)) = quoteString ([CHR 0x5C, quote] @ '' or true --'') @ []" for ts
    by (simp add: att_def attack_where_text_def attack_def)
  from literal_injection [OF _ _ this] have "lex_step (att 8 ts) = att 12 (ts @ [tok tokString [quote] 8])" for ts
    by (simp add: att_emit quote_def) (simp add: att_def)
  then have "run (att 0 []) = att 24 [tok tokIdent ''owner'' 0, tok tokEq ''='' 6, tok tokString [quote] 8,
       tok tokKeyword ''or'' 13, tok tokKeyword ''true'' 16]"
    by (simp add: run_att attack_steps)
  moreover have "length attack_where_text = 24" by (simp add: attack_where_text_def quoteString_def attack_def quote_def)
  moreover have "new_lexer attack_where_text = att 0 []" by (simp add: new_lexer_def att_def)
  ultimately show ?thesis
    by (simp add: lex_def tok_def att_def) (simp add: attack_where_text_def attack_where)
qed

section \<open>Identifiers and bytes of a dump\<close>

lemma quoted_loop_ident:
  assumes "post = [] \<or> hd post \<noteq> CHR 0x22"
    and "drop (lx_pos l) (lx_src l) = ReplaceAll CHR 0x22 [CHR 0x22, CHR 0x22] s @ CHR 0x22 # post"
  shows "quoted_loop start l b = emit tokIdent (b @ s) start (advance (length (ReplaceAll CHR 0x22 [CHR 0x22, CHR 0x22] s) + 1) l)"
  using assms
proof (induction s arbitrary: l b)
  case Nil
  then have d: "drop (lx_pos l) (lx_src l) = CHR 0x22 # post" by simp
  have "peekAt l 1 \<noteq> CHR 0x22" using Nil.prems(1) at_text(3) [OF d] by (cases post) auto
  then show ?case using at_text(1,2) [OF d] by (simp add: quoted_loop.simps [of start l] Let_def)
next
  case (Cons c s)
  show ?case
  proof (cases "c = CHR 0x22")
    case True
    then have d: "drop (lx_pos l) (lx_src l) = CHR 0x22 # CHR 0x22 # ReplaceAll CHR 0x22 [CHR 0x22, CHR 0x22] s @ CHR 0x22 # post"
      using Cons.prems(2) by simp
    have d2: "drop (lx_pos (advance 2 l)) (lx_src (advance 2 l)) = ReplaceAll CHR 0x22 [CHR 0x22, CHR 0x22] s @ CHR 0x22 # post"
      using arg_cong [OF d, of "drop 2"] by (simp add: add.commute)
    have "peekAt l 1 = CHR 0x22" using at_text(3) [OF d] by simp
    then show ?thesis using at_text(1,2) [OF d] Cons.IH [OF Cons.prems(1) d2] True
      by (simp add: quoted_loop.simps [of start l] Let_def)
  next
    case False
    then have d: "drop (lx_pos l) (lx_src l) = c # ReplaceAll CHR 0x22 [CHR 0x22, CHR 0x22] s @ CHR 0x22 # post"
      using Cons.prems(2) by simp
    have d1: "drop (lx_pos (advance 1 l)) (lx_src (advance 1 l)) = ReplaceAll CHR 0x22 [CHR 0x22, CHR 0x22] s @ CHR 0x22 # post"
      using at_text(4) [OF d] by simp
    show ?thesis using at_text(1,2) [OF d] Cons.IH [OF Cons.prems(1) d1] False
      by (auto simp: quoted_loop.simps [of start l] Let_def)
  qed
qed

lemma ident_start_chars: "isIdentStart c \<Longrightarrow> c \<notin> {CHR 0x20, CHR 0x09, CHR 0x0D, CHR 0x0A, CHR ''-'', CHR ''/'', CHR 0x27, CHR 0x22, CHR '':'', CHR ''$'', CHR ''.''} \<and> \<not> isDigit c"
  by (auto simp: isIdentStart_def isDigit_def less_eq_char_def)

lemma lex_step_word: "isIdentStart (cur l) \<Longrightarrow> lex_step l = scanWord l"
  using ident_start_chars [of "cur l"] by (simp add: lex_step_def Let_def)

text \<open>C36: The identifier text of a dump reads back as follows, when a character that ends a word follows. A
  name that needs quotes is one identifier token with exactly that name, quotes in it included. A name
  that is written bare is read in lower case, and as a keyword when it is one: so it is kept exactly
  when it has no upper-case letter and is no keyword.\<close>

theorem ident_roundtrip:
  assumes "drop (lx_pos l) (lx_src l) = quoteIdent s @ post"
    and "post = [] \<or> (\<not> isIdentPart (hd post) \<and> of_char (hd post) < (0x80 :: nat) \<and> hd post \<noteq> CHR 0x22)"
  shows "lex_step l = emit (if isBareIdent s \<and> isKeyword (ToLower s) then tokKeyword else tokIdent)
    (if isBareIdent s then ToLower s else s) (lx_pos l) (advance (length (quoteIdent s)) l)"
proof (cases "isBareIdent s")
  case False
  have d: "drop (lx_pos l) (lx_src l) = CHR 0x22 # ReplaceAll CHR 0x22 [CHR 0x22, CHR 0x22] s @ CHR 0x22 # post"
    using assms(1) False by (simp add: quoteIdent_def)
  have p: "post = [] \<or> hd post \<noteq> CHR 0x22" using assms(2) by auto
  have "drop (lx_pos (advance 1 l)) (lx_src (advance 1 l)) = ReplaceAll CHR 0x22 [CHR 0x22, CHR 0x22] s @ CHR 0x22 # post"
    using at_text(4) [OF d] by simp
  from quoted_loop_ident [OF p this] show ?thesis
    using at_text(2) [OF d] False by (simp add: lex_step_def scanQuotedIdent_def quoteIdent_def Let_def)
next
  case True
  then obtain c s' where s: "s = c # s'" by (cases s) (auto simp: isBareIdent_def)
  have d: "drop (lx_pos l) (lx_src l) = s @ post" using assms(1) True by (simp add: quoteIdent_def)
  then have "cur l = c" using at_text(2) s by simp
  then have w: "lex_step l = scanWord l" using True s by (intro lex_step_word) (simp add: isBareIdent_def)
  have "takeWhile isIdentPart (s @ post) = s"
    using True assms(2) by (cases post) (auto simp: isBareIdent_def isIdentPart_def takeWhile_append2 takeWhile_tail)
  then have k: "skip_while isIdentPart l = advance (length s) l" by (simp add: skip_while_eq d)
  have dp: "drop (lx_pos l + length s) (lx_src l) = post"
    using arg_cong [OF d, of "drop (length s)"] by (simp add: add.commute)
  have "DecodeRuneInString post = RuneError \<or> DecodeRuneInString post < RuneSelf"
    using assms(2) by (cases post) (auto simp: DecodeRuneInString_def RuneSelf_def)
  then show ?thesis
    using True unfolding w scanWord_def Let_def k by (auto simp: dp slice_def d quoteIdent_def)
qed

theorem ident_roundtrip_witness:
  "lex_step (new_lexer ''Order '') = emit tokKeyword ''order'' 0 (advance 5 (new_lexer ''Order ''))
   \<and> lex_step (new_lexer (quoteIdent ''a b'')) = emit tokIdent ''a b'' 0 (advance 5 (new_lexer (quoteIdent ''a b'')))"
proof -
  have o: "isBareIdent ''Order''" "ToLower ''Order'' = ''order''" "isKeyword ''order''"
    by (simp_all add: isBareIdent_def isIdentStart_def less_eq_char_def ToLower_def lower_char_def char_of_def bit_0
      isKeyword_def sql_keywords_def)
  have a: "\<not> isBareIdent ''a b''" by (simp add: isBareIdent_def isIdentStart_def isDigit_def less_eq_char_def)
  have sp: "\<not> isIdentPart CHR '' ''" by (simp add: isIdentPart_def isIdentStart_def isDigit_def less_eq_char_def)
  show ?thesis
    using ident_roundtrip [of "new_lexer ''Order ''" "''Order''" "'' ''"] ident_roundtrip [of "new_lexer (quoteIdent ''a b'')" "''a b''" "[]"] o a sp
    by (simp add: new_lexer_def quoteIdent_def eval_nat_numeral)
qed

text \<open>C37: A dump that holds a value of type bytes cannot be loaded: the literal that is written for it, whatever
  the bytes, makes the lexer stop with an invalid escape sequence at its second character.\<close>

theorem dump_bytes_rejected:
  assumes "drop (lx_pos l) (lx_src l) = renderValue (DvBytes b) @ post" "lx_err l = None"
  shows "lx_err (run l) = Some (parseError (lx_pos l + 1) ''invalid escape sequence'' [])"
proof -
  have d0: "drop (lx_pos l) (lx_src l) = quote # CHR 0x5C # CHR ''x'' # EncodeToString b @ quote # post"
    using assms(1) by (simp add: renderValue_def)
  have d1: "drop (lx_pos (advance 1 l)) (lx_src (advance 1 l)) = CHR 0x5C # CHR ''x'' # EncodeToString b @ quote # post"
    using at_text(4) [OF d0] by simp
  have "scanEscape (advance 1 l) [] = (False, fail (lx_pos l + 1) ''invalid escape sequence'' [] (advance 1 l), [])"
    using at_text(3) [OF d1] by (simp add: scanEscape_def Let_def)
  then have e: "lex_step l = fail (lx_pos l + 1) ''invalid escape sequence'' [] (advance 1 l)"
    using at_text(1,2) [OF d1] by (simp add: lex_step_quote [OF d0] string_loop.simps [of _ "advance (Suc 0) l"] Let_def)
  have "run l = run (lex_step l)" using at_text(1) [OF d0] assms(2) by (simp add: run_emit(1) running_def)
  also have "\<dots> = lex_step l" by (rule run_emit(2)) (simp add: e running_def)
  finally show ?thesis using assms(2) by (simp add: e fail_def)
qed

theorem dump_bytes_rejected_witness:
  "lex (renderValue (DvBytes [0xAB])) = Inl (parseError 1 ''invalid escape sequence'' [])"
  using dump_bytes_rejected [of "new_lexer (renderValue (DvBytes [0xAB]))" "[0xAB]" "[]"]
  by (simp add: new_lexer_def lex_def)

end
