(* ===== verification/Index_Heap.thy ===== *)
theory Index_Heap
  imports Ieee "HOL-Library.Multiset"
begin

text \<open>
  The search heaps of \<^verbatim>\<open>src/index/heap.go\<close>: binary heaps in a slice, once with the nearest and once
  with the farthest candidate on top. The two copies of the code differ in the comparison only,
  so the operations take it as an argument. The locale states what the heaps need of the
  comparison; it is interpreted on both.
\<close>

record Candidate =
  cd_Position :: u32
  cd_Distance :: f32

type_synonym minHeap = "Candidate list"
type_synonym maxHeap = "Candidate list"

definition minLess :: "Candidate \<Rightarrow> Candidate \<Rightarrow> bool" where
  "minLess a b =
    (if \<not> f32_eq (cd_Distance a) (cd_Distance b) then f32_lt (cd_Distance a) (cd_Distance b)
     else cd_Position a < cd_Position b)"

definition maxLess :: "Candidate \<Rightarrow> Candidate \<Rightarrow> bool" where
  "maxLess a b =
    (if \<not> f32_eq (cd_Distance a) (cd_Distance b) then f32_lt (cd_Distance b) (cd_Distance a)
     else cd_Position b < cd_Position a)"

definition swap :: "'a list \<Rightarrow> nat \<Rightarrow> nat \<Rightarrow> 'a list" where
  "swap h i j = h[i := h ! j, j := h ! i]"

fun up :: "('a \<Rightarrow> 'a \<Rightarrow> bool) \<Rightarrow> 'a list \<Rightarrow> nat \<Rightarrow> 'a list" where
  "up lt h i =
    (if 0 < i then
       let parent = (i - 1) div 2 in
       if lt (h ! i) (h ! parent) then up lt (swap h i parent) parent else h
     else h)"

declare up.simps [simp del]

definition smallest :: "('a \<Rightarrow> 'a \<Rightarrow> bool) \<Rightarrow> 'a list \<Rightarrow> nat \<Rightarrow> nat" where
  "smallest lt h i =
    (let n = length h; l = 2 * i + 1; r = 2 * i + 2;
         s = (if l < n \<and> lt (h ! l) (h ! i) then l else i)
     in if r < n \<and> lt (h ! r) (h ! s) then r else s)"

lemma smallest_cases:
  "smallest lt h i = i \<or> (smallest lt h i \<in> {2 * i + 1, 2 * i + 2} \<and> smallest lt h i < length h)"
  by (auto simp: smallest_def Let_def)

function down :: "('a \<Rightarrow> 'a \<Rightarrow> bool) \<Rightarrow> 'a list \<Rightarrow> nat \<Rightarrow> 'a list" where
  "down lt h i =
    (let s = smallest lt h i in if s = i then h else down lt (swap h i s) s)"
  by pat_completeness auto
termination
proof (relation "measure (\<lambda>(lt, h, i). length h - i)", goal_cases)
  case (2 lt h i s)
  then show ?case using smallest_cases [of lt h i] by (auto simp: swap_def)
qed simp

declare down.simps [simp del]

definition push :: "('a \<Rightarrow> 'a \<Rightarrow> bool) \<Rightarrow> 'a list \<Rightarrow> 'a \<Rightarrow> 'a list" where
  "push lt h c = up lt (h @ [c]) (length (h @ [c]) - 1)"

text \<open>Popping and peeking an empty heap index a slice out of range, which is None.\<close>

definition pop :: "('a \<Rightarrow> 'a \<Rightarrow> bool) \<Rightarrow> 'a list \<Rightarrow> ('a \<times> 'a list) option" where
  "pop lt h =
    (if h = [] then None
     else let n = length h in Some (h ! 0, down lt (take (n - 1) (h[0 := h ! (n - 1)])) 0))"

definition peek :: "'a list \<Rightarrow> 'a option" where
  "peek h = (if h = [] then None else Some (h ! 0))"

definition minHeap_push :: "minHeap \<Rightarrow> Candidate \<Rightarrow> minHeap" where "minHeap_push = push minLess"
definition minHeap_pop :: "minHeap \<Rightarrow> (Candidate \<times> minHeap) option" where "minHeap_pop = pop minLess"
definition maxHeap_push :: "maxHeap \<Rightarrow> Candidate \<Rightarrow> maxHeap" where "maxHeap_push = push maxLess"
definition maxHeap_pop :: "maxHeap \<Rightarrow> (Candidate \<times> maxHeap) option" where "maxHeap_pop = pop maxLess"

section \<open>Heaps over a weak order\<close>

lemma swap_mset: "i < length h \<Longrightarrow> j < length h \<Longrightarrow> mset (swap h i j) = mset h"
  unfolding swap_def by (rule mset_swap)

lemma length_swap [simp]: "length (swap h i j) = length h"
  by (simp add: swap_def)

lemma nth_swap:
  "i < length h \<Longrightarrow> j < length h \<Longrightarrow> k < length h \<Longrightarrow>
   swap h i j ! k = (if k = j then h ! i else if k = i then h ! j else h ! k)"
  by (simp add: swap_def nth_list_update)

definition parent :: "nat \<Rightarrow> nat" where "parent i = (i - 1) div 2"

lemma parent_less: "0 < i \<Longrightarrow> parent i < i"
  by (simp add: parent_def)

lemma parent_child: "0 < j \<Longrightarrow> (parent j = i) = (j = 2 * i + 1 \<or> j = 2 * i + 2)"
  by (auto simp: parent_def)

text \<open>The comparison of the elements that pass \<open>ok\<close> is a weak order: asymmetric, and not being
  smaller is transitive.\<close>

locale heap_order =
  fixes lt :: "'a \<Rightarrow> 'a \<Rightarrow> bool" and ok :: "'a \<Rightarrow> bool"
  assumes asym: "lt x y \<Longrightarrow> \<not> lt y x"
    and not_less_trans: "ok x \<Longrightarrow> ok y \<Longrightarrow> ok z \<Longrightarrow> \<not> lt y x \<Longrightarrow> \<not> lt z y \<Longrightarrow> \<not> lt z x"
begin

definition heap :: "'a list \<Rightarrow> bool" where
  "heap h = ((\<forall>c\<in>set h. ok c) \<and> (\<forall>j. 0 < j \<and> j < length h \<longrightarrow> \<not> lt (h ! j) (h ! parent j)))"

text \<open>Only the edge above \<open>i\<close> may be wrong, and the children of \<open>i\<close> are in order with its parent.\<close>

definition up_inv :: "'a list \<Rightarrow> nat \<Rightarrow> bool" where
  "up_inv h i = ((\<forall>c\<in>set h. ok c) \<and> i < length h
    \<and> (\<forall>j. 0 < j \<and> j < length h \<and> j \<noteq> i \<longrightarrow> \<not> lt (h ! j) (h ! parent j))
    \<and> (\<forall>j. 0 < j \<and> j < length h \<and> parent j = i \<and> 0 < i \<longrightarrow> \<not> lt (h ! j) (h ! parent i)))"

lemma up_step:
  assumes "up_inv h i" "0 < i" "lt (h ! i) (h ! parent i)"
  shows "up_inv (swap h i (parent i)) (parent i)"
proof -
  let ?p = "parent i" and ?h = "swap h i (parent i)"
  have i: "i < length h" and p: "?p < i" and okh: "\<forall>c\<in>set h. ok c" using assms(1,2) parent_less by (auto simp: up_inv_def)
  have edge: "\<not> lt (h ! j) (h ! parent j)" if "0 < j" "j < length h" "j \<noteq> i" for j
    using assms(1) that by (auto simp: up_inv_def)
  have child: "\<not> lt (h ! j) (h ! ?p)" if "0 < j" "j < length h" "parent j = i" for j
    using assms(1,2) that by (auto simp: up_inv_def)
  have okn: "ok (h ! j)" if "j < length h" for j using okh that by auto
  have nth: "?h ! k = (if k = ?p then h ! i else if k = i then h ! ?p else h ! k)" if "k < length h" for k
    using nth_swap [of i h ?p k] i p that by simp
  have "\<forall>c\<in>set ?h. ok c" using okh i p by (metis swap_mset set_mset_mset order.strict_trans)
  moreover have "\<not> lt (?h ! j) (?h ! parent j)" if j: "0 < j" "j < length h" "j \<noteq> ?p" for j
  proof -
    have pj: "parent j < j" using j parent_less by simp
    consider (i) "j = i" | (ci) "j \<noteq> i" "parent j = i" | (cp) "j \<noteq> i" "parent j = ?p" | (o) "j \<noteq> i" "parent j \<noteq> i" "parent j \<noteq> ?p" by blast
    then show ?thesis
    proof cases
      case i
      then show ?thesis using nth j p assms(3) asym by simp
    next
      case ci
      then show ?thesis using nth j p i child by simp
    next
      case cp
      have "\<not> lt (h ! j) (h ! ?p)" using edge j cp by metis
      then have "\<not> lt (h ! j) (h ! i)"
        using not_less_trans [of "h ! i" "h ! ?p" "h ! j"] okn i p j asym [OF assms(3)] by simp
      then show ?thesis using nth j p i cp by simp
    next
      case o
      then show ?thesis using nth j p i edge pj by simp
    qed
  qed
  moreover have "\<not> lt (?h ! j) (?h ! parent ?p)" if j: "0 < j" "j < length h" "parent j = ?p" "0 < ?p" for j
  proof -
    have pp: "parent ?p < ?p" using j parent_less by simp
    have e: "\<not> lt (h ! ?p) (h ! parent ?p)" using edge [of ?p] j p i by simp
    show ?thesis
    proof (cases "j = i")
      case True
      then show ?thesis using nth j p i pp e by simp
    next
      case False
      have "\<not> lt (h ! j) (h ! ?p)" using edge [of j] j False by simp
      then have "\<not> lt (h ! j) (h ! parent ?p)"
        using not_less_trans [of "h ! parent ?p" "h ! ?p" "h ! j"] okn e i p pp j by simp
      then show ?thesis using nth j p i pp False parent_less [of j] by simp
    qed
  qed
  ultimately show ?thesis using i p by (simp add: up_inv_def)
qed

lemma up_heap: "up_inv h i \<Longrightarrow> heap (up lt h i) \<and> mset (up lt h i) = mset h"
proof (induction i arbitrary: h rule: less_induct)
  case (less i)
  show ?case
  proof (cases "0 < i \<and> lt (h ! i) (h ! parent i)")
    case True
    then have "up lt h i = up lt (swap h i (parent i)) (parent i)" by (simp add: up.simps [of lt h i] parent_def Let_def)
    moreover have "mset (swap h i (parent i)) = mset h"
      using less.prems parent_less [of i] True by (intro swap_mset) (auto simp: up_inv_def)
    ultimately show ?thesis
      using less.IH [OF parent_less up_step] less.prems True by simp
  next
    case False
    then have "up lt h i = h" by (auto simp: up.simps [of lt h i] parent_def Let_def)
    moreover have "heap h" using less.prems False by (auto simp: heap_def up_inv_def)
    ultimately show ?thesis by simp
  qed
qed

lemma push_heap:
  assumes "heap h" "ok c"
  shows "heap (push lt h c)" "mset (push lt h c) = add_mset c (mset h)"
proof -
  have nth: "(h @ [c]) ! parent j = h ! parent j" if "0 < j" "j \<le> length h" for j
    using parent_less [of j] that by (simp add: nth_append)
  have "up_inv (h @ [c]) (length h)"
    using assms nth by (auto simp: up_inv_def heap_def nth_append parent_child)
  from up_heap [OF this] show "heap (push lt h c)" "mset (push lt h c) = add_mset c (mset h)"
    by (simp_all add: push_def)
qed

text \<open>Only the edges below \<open>i\<close> may be wrong, and the children of \<open>i\<close> are in order with its parent.\<close>

definition down_inv :: "'a list \<Rightarrow> nat \<Rightarrow> bool" where
  "down_inv h i = ((\<forall>c\<in>set h. ok c) \<and> i < length h
    \<and> (\<forall>j. 0 < j \<and> j < length h \<and> parent j \<noteq> i \<longrightarrow> \<not> lt (h ! j) (h ! parent j))
    \<and> (\<forall>j. 0 < j \<and> j < length h \<and> parent j = i \<and> 0 < i \<longrightarrow> \<not> lt (h ! j) (h ! parent i)))"

lemma smallest_least:
  assumes "\<forall>c\<in>set h. ok c" "i < length h"
  shows "\<not> lt (h ! i) (h ! smallest lt h i)"
    and "0 < c \<Longrightarrow> c < length h \<Longrightarrow> parent c = i \<Longrightarrow> \<not> lt (h ! c) (h ! smallest lt h i)"
proof -
  let ?l = "2 * i + 1" and ?r = "2 * i + 2" and ?s = "smallest lt h i"
  have okn: "ok (h ! j)" if "j < length h" for j using assms(1) that by auto
  have irr: "\<not> lt x x" for x using asym by blast
  have "\<not> lt (h ! i) (h ! ?s) \<and> (?l < length h \<longrightarrow> \<not> lt (h ! ?l) (h ! ?s)) \<and> (?r < length h \<longrightarrow> \<not> lt (h ! ?r) (h ! ?s))"
  proof (cases "?l < length h \<and> lt (h ! ?l) (h ! i)")
    case True
    then have "\<not> lt (h ! i) (h ! ?l)" using asym by blast
    moreover have "\<not> lt (h ! ?l) (h ! ?r)" if "lt (h ! ?r) (h ! ?l)" using asym that by blast
    ultimately show ?thesis
      using True not_less_trans [of "h ! ?r" "h ! ?l" "h ! i"] okn assms(2) irr by (auto simp: smallest_def Let_def)
  next
    case False
    moreover have "\<not> lt (h ! i) (h ! ?r)" if "lt (h ! ?r) (h ! i)" using asym that by blast
    ultimately show ?thesis
      using not_less_trans [of "h ! ?r" "h ! i" "h ! ?l"] okn assms(2) irr by (auto simp: smallest_def Let_def)
  qed
  then show "\<not> lt (h ! i) (h ! ?s)"
    and "0 < c \<Longrightarrow> c < length h \<Longrightarrow> parent c = i \<Longrightarrow> \<not> lt (h ! c) (h ! ?s)"
    by (auto simp: parent_child)
qed

lemma down_step:
  assumes "down_inv h i" "smallest lt h i \<noteq> i"
  shows "down_inv (swap h i (smallest lt h i)) (smallest lt h i)"
proof -
  let ?s = "smallest lt h i" and ?h = "swap h i (smallest lt h i)"
  have i: "i < length h" and okh: "\<forall>c\<in>set h. ok c" using assms(1) by (auto simp: down_inv_def)
  have s: "?s < length h" "i < ?s" "parent ?s = i"
    using smallest_cases [of lt h i] assms(2) by (auto simp: parent_child)
  note least = smallest_least [OF okh i]
  have edge: "\<not> lt (h ! j) (h ! parent j)" if "0 < j" "j < length h" "parent j \<noteq> i" for j
    using assms(1) that by (auto simp: down_inv_def)
  have child: "\<not> lt (h ! j) (h ! parent i)" if "0 < j" "j < length h" "parent j = i" "0 < i" for j
    using assms(1) that by (auto simp: down_inv_def)
  have nth: "?h ! k = (if k = ?s then h ! i else if k = i then h ! ?s else h ! k)" if "k < length h" for k
    using nth_swap [of i h ?s k] i s that by simp
  have "\<forall>c\<in>set ?h. ok c" using okh i s by (metis swap_mset set_mset_mset)
  moreover have "\<not> lt (?h ! j) (?h ! parent j)" if j: "0 < j" "j < length h" "parent j \<noteq> ?s" for j
  proof -
    have pj: "parent j < j" using j parent_less by simp
    consider (s) "j = ?s" | (c) "j \<noteq> ?s" "parent j = i" | (i) "j = i" | (o) "j \<noteq> ?s" "j \<noteq> i" "parent j \<noteq> i" by blast
    then show ?thesis
    proof cases
      case s
      then show ?thesis using nth [of ?s] nth [of i] i s(1) \<open>i < ?s\<close> \<open>parent ?s = i\<close> least(1) j by simp
    next
      case c
      then show ?thesis using nth [of j] nth [of i] i pj \<open>i < ?s\<close> least(2) [of j] j by simp
    next
      case i
      then show ?thesis using nth [of i] nth [of "parent i"] pj \<open>i < ?s\<close> child [of ?s] j \<open>?s < length h\<close> \<open>parent ?s = i\<close> by simp
    next
      case o
      then show ?thesis using nth [of j] nth [of "parent j"] pj edge [of j] j by simp
    qed
  qed
  moreover have "\<not> lt (?h ! j) (?h ! parent ?s)" if j: "0 < j" "j < length h" "parent j = ?s" for j
  proof -
    have "?s < j" using j parent_less [of j] by simp
    then show ?thesis using nth [of j] nth [of i] i s edge [of j] j by simp
  qed
  ultimately show ?thesis using s by (simp add: down_inv_def)
qed

lemma down_heap: "down_inv h i \<Longrightarrow> heap (down lt h i) \<and> mset (down lt h i) = mset h"
proof (induction "length h - i" arbitrary: h i rule: less_induct)
  case less
  let ?s = "smallest lt h i"
  show ?case
  proof (cases "?s = i")
    case True
    then have "down lt h i = h" by (simp add: down.simps [of lt h i])
    moreover have "\<not> lt (h ! j) (h ! parent j)" if "0 < j" "j < length h" for j
      using less.prems that smallest_least(2) [of h i j] True by (cases "parent j = i") (auto simp: down_inv_def)
    ultimately show ?thesis using less.prems by (simp add: heap_def down_inv_def)
  next
    case False
    have s: "?s < length h" "i < ?s" using smallest_cases [of lt h i] False by auto
    have "mset (swap h i ?s) = mset h" using s by (intro swap_mset) auto
    moreover have "heap (down lt (swap h i ?s) ?s) \<and> mset (down lt (swap h i ?s) ?s) = mset (swap h i ?s)"
      using s by (intro less.hyps down_step less.prems False) auto
    ultimately show ?thesis using False by (simp add: down.simps [of lt h i] Let_def)
  qed
qed

lemma heap_top:
  assumes "heap h" "j < length h"
  shows "\<not> lt (h ! j) (h ! 0)"
  using assms(2)
proof (induction j rule: less_induct)
  case (less j)
  show ?case
  proof (cases "j = 0")
    case True
    then show ?thesis using asym by blast
  next
    case False
    then have p: "parent j < j" using parent_less by simp
    then have "\<not> lt (h ! parent j) (h ! 0)" using less by simp
    moreover have "\<not> lt (h ! j) (h ! parent j)" using assms(1) less.prems False by (simp add: heap_def)
    moreover have "ok (h ! k)" if "k \<le> j" for k using assms(1) less.prems that by (simp add: heap_def)
    then have "ok (h ! 0)" "ok (h ! parent j)" "ok (h ! j)" using p by simp_all
    ultimately show ?thesis using not_less_trans by blast
  qed
qed

lemma moved_root:
  assumes "heap h" "h \<noteq> []"
  shows "take (length h - 1) (h[0 := h ! (length h - 1)]) = [] \<or> down_inv (take (length h - 1) (h[0 := h ! (length h - 1)])) 0"
    and "add_mset (h ! 0) (mset (take (length h - 1) (h[0 := h ! (length h - 1)]))) = mset h"
proof -
  let ?n = "length h - 1" and ?g = "take (length h - 1) (h[0 := h ! (length h - 1)])"
  have nth: "?g ! j = h ! j" if "0 < j" "j < ?n" for j using that by simp
  have "set ?g \<subseteq> set h" using assms(2) by (auto dest!: in_set_takeD set_update_subset_insert [THEN subsetD])
  moreover have "\<not> lt (?g ! j) (?g ! parent j)" if "0 < j" "j < ?n" "parent j \<noteq> 0" for j
    using assms(1) that nth [of j] nth [of "parent j"] parent_less [of j] by (simp add: heap_def)
  ultimately show "?g = [] \<or> down_inv ?g 0"
    using assms by (cases "?n = 0") (auto simp: down_inv_def heap_def)
  show "add_mset (h ! 0) (mset ?g) = mset h"
  proof (cases "?n = 0")
    case True
    then obtain x where "h = [x]" using assms(2) by (cases h) auto
    then show ?thesis by simp
  next
    case False
    obtain t z where h: "h = t @ [z]" using assms(2) by (metis rev_exhaust)
    then obtain x t' where t: "t = x # t'" using False by (cases t) auto
    show ?thesis by (simp add: h t)
  qed
qed

lemma pop_heap:
  assumes "heap h" "h \<noteq> []"
  obtains h' where "pop lt h = Some (h ! 0, h')" "heap h'" "add_mset (h ! 0) (mset h') = mset h"
proof -
  let ?g = "take (length h - 1) (h[0 := h ! (length h - 1)])"
  have "heap (down lt ?g 0) \<and> mset (down lt ?g 0) = mset ?g"
    using moved_root(1) [OF assms]
  proof
    assume "?g = []"
    moreover have "down lt [] 0 = []" by (simp add: down.simps [of lt "[]"] smallest_def)
    ultimately show ?thesis by (simp only:) (simp add: heap_def)
  qed (rule down_heap)
  moreover have "pop lt h = Some (h ! 0, down lt ?g 0)" using assms(2) by (simp add: pop_def Let_def)
  ultimately show ?thesis using that moved_root(2) [OF assms] by metis
qed

end

section \<open>The two heaps\<close>

definition f32_nan :: "f32 \<Rightarrow> bool" where "f32_nan x = is_nan 23 8 (unat x)"

definition ranked :: "Candidate \<Rightarrow> bool" where "ranked c = (\<not> f32_nan (cd_Distance c))"

lemma f32_order:
  "f32_lt x y \<Longrightarrow> \<not> f32_lt y x" "f32_lt x y \<Longrightarrow> \<not> f32_eq x y" "f32_eq x y = f32_eq y x"
  "\<not> f32_nan x \<Longrightarrow> \<not> f32_nan y \<Longrightarrow> f32_lt x y \<or> f32_lt y x \<or> f32_eq x y"
  "f32_lt x y \<Longrightarrow> f32_lt y z \<Longrightarrow> f32_lt x z" "f32_eq x y \<Longrightarrow> f32_eq y z \<Longrightarrow> f32_eq x z"
  "f32_eq x y \<Longrightarrow> f32_lt y z \<Longrightarrow> f32_lt x z" "f32_lt x y \<Longrightarrow> f32_eq y z \<Longrightarrow> f32_lt x z"
  by (auto simp: f32_lt_def f32_eq_def ieee_lt_def ieee_eq_def f32_nan_def)

text \<open>On candidates whose distance is a number, the comparison is a strict order that is total on
  the pairs of distance and position.\<close>

lemma minLess_asym: "minLess a b \<Longrightarrow> \<not> minLess b a"
  using f32_order(1) f32_order(3) by (auto simp: minLess_def split: if_splits)

lemma minLess_trans:
  assumes "minLess a b" "minLess b c"
  shows "minLess a c"
proof -
  let ?x = "cd_Distance a" and ?y = "cd_Distance b" and ?z = "cd_Distance c"
  have "f32_lt ?x ?z \<or> (f32_eq ?x ?z \<and> cd_Position a < cd_Position c)"
    using assms f32_order(5-8) [of ?x ?y ?z] by (auto simp: minLess_def split: if_splits)
  then show ?thesis using f32_order(2) [of ?x ?z] by (auto simp: minLess_def)
qed

lemma minLess_total:
  assumes "ranked a" "ranked b"
  shows "minLess a b \<or> minLess b a \<or> (f32_eq (cd_Distance a) (cd_Distance b) \<and> cd_Position a = cd_Position b)"
  using f32_order(4) [of "cd_Distance a" "cd_Distance b"] assms
    f32_order(3) [of "cd_Distance a" "cd_Distance b"]
  by (auto simp: minLess_def ranked_def)

lemma minLess_cong:
  assumes "f32_eq (cd_Distance a) (cd_Distance b) \<and> cd_Position a = cd_Position b"
  shows "minLess a c = minLess b c" "minLess c a = minLess c b"
proof -
  let ?x = "cd_Distance a" and ?y = "cd_Distance b" and ?z = "cd_Distance c"
  have e: "f32_eq ?x ?y" "f32_eq ?y ?x" "cd_Position a = cd_Position b" using assms f32_order(3) [of ?x ?y] by auto
  have "f32_eq ?x ?z = f32_eq ?y ?z" "f32_lt ?x ?z = f32_lt ?y ?z"
    using e f32_order(6,7) [of ?x ?y ?z] f32_order(6,7) [of ?y ?x ?z] by auto
  then show "minLess a c = minLess b c" by (simp add: minLess_def e)
  have "f32_eq ?z ?x = f32_eq ?z ?y" "f32_lt ?z ?x = f32_lt ?z ?y"
    using e f32_order(6,8) [of ?z ?x ?y] f32_order(6,8) [of ?z ?y ?x] by auto
  then show "minLess c a = minLess c b" by (simp add: minLess_def e)
qed

lemma maxLess_flip: "maxLess a b = minLess b a"
  using f32_order(3) [of "cd_Distance a" "cd_Distance b"] by (simp add: maxLess_def minLess_def)

lemma minLess_not_trans:
  "ranked x \<Longrightarrow> ranked y \<Longrightarrow> ranked z \<Longrightarrow> \<not> minLess y x \<Longrightarrow> \<not> minLess z y \<Longrightarrow> \<not> minLess z x"
  using minLess_total [of x y] minLess_total [of y z] minLess_trans [of x y z] minLess_asym [of x z]
    minLess_cong [of x y z] minLess_cong [of y z x] minLess_asym by blast

interpretation min_heap: heap_order minLess ranked
  by unfold_locales (blast dest: minLess_asym, rule minLess_not_trans)

interpretation max_heap: heap_order maxLess ranked
proof
  show "maxLess x y \<Longrightarrow> \<not> maxLess y x" for x y using minLess_asym by (auto simp: maxLess_flip)
  show "ranked x \<Longrightarrow> ranked y \<Longrightarrow> ranked z \<Longrightarrow> \<not> maxLess y x \<Longrightarrow> \<not> maxLess z y \<Longrightarrow> \<not> maxLess z x" for x y z
    using minLess_not_trans [of z y x] by (simp add: maxLess_flip)
qed

text \<open>A run of pushes and pops from the empty heap, beside the multiset it stands for.\<close>

inductive heap_run :: "(Candidate list \<Rightarrow> Candidate \<Rightarrow> Candidate list) \<Rightarrow>
    (Candidate list \<Rightarrow> (Candidate \<times> Candidate list) option) \<Rightarrow> Candidate list \<Rightarrow> Candidate multiset \<Rightarrow> bool"
  for pu po where
  empty: "heap_run pu po [] {#}"
| push: "heap_run pu po h M \<Longrightarrow> ranked c \<Longrightarrow> heap_run pu po (pu h c) (add_mset c M)"
| pop: "heap_run pu po h M \<Longrightarrow> po h = Some (c, h') \<Longrightarrow> heap_run pu po h' (M - {#c#})"

lemma min_run: "heap_run minHeap_push minHeap_pop h M \<Longrightarrow> min_heap.heap h \<and> mset h = M"
proof (induction rule: heap_run.induct)
  case (pop h M c h')
  then have "h \<noteq> []" by (auto simp: minHeap_pop_def pop_def)
  then obtain g where "pop minLess h = Some (h ! 0, g)" "min_heap.heap g" "add_mset (h ! 0) (mset g) = mset h"
    using min_heap.pop_heap pop.IH by blast
  moreover from this have "mset h - {#h ! 0#} = mset g" by (metis add_mset_remove_trivial)
  ultimately show ?case using pop by (simp add: minHeap_pop_def)
next
  case empty
  show ?case by (simp add: min_heap.heap_def)
next
  case (push h M c)
  then show ?case by (simp add: min_heap.push_heap minHeap_push_def)
qed

lemma max_run: "heap_run maxHeap_push maxHeap_pop h M \<Longrightarrow> max_heap.heap h \<and> mset h = M"
proof (induction rule: heap_run.induct)
  case (pop h M c h')
  then have "h \<noteq> []" by (auto simp: maxHeap_pop_def pop_def)
  then obtain g where "pop maxLess h = Some (h ! 0, g)" "max_heap.heap g" "add_mset (h ! 0) (mset g) = mset h"
    using max_heap.pop_heap pop.IH by blast
  moreover from this have "mset h - {#h ! 0#} = mset g" by (metis add_mset_remove_trivial)
  ultimately show ?case using pop by (simp add: maxHeap_pop_def)
next
  case empty
  show ?case by (simp add: max_heap.heap_def)
next
  case (push h M c)
  then show ?case by (simp add: max_heap.push_heap maxHeap_push_def)
qed

text \<open>C16: Both search heaps implement a bag of candidates. After any pushes and pops from the empty heap, with
  distances that are numbers, the slice holds exactly the candidates pushed and not popped. As long
  as there is one, peek and pop return a candidate that no other precedes: in the frontier the
  nearest, in the result heap the farthest, with ties broken by position. Popping an empty heap panics.\<close>

theorem heaps_refine_bag:
  shows "(heap_run minHeap_push minHeap_pop h M \<longrightarrow> mset h = M
      \<and> (if M = {#} then minHeap_pop h = None
         else \<exists>c h'. minHeap_pop h = Some (c, h') \<and> peek h = Some c \<and> c \<in># M \<and> (\<forall>d\<in>#M. \<not> minLess d c)))
    \<and> (heap_run maxHeap_push maxHeap_pop h M \<longrightarrow> mset h = M
      \<and> (if M = {#} then maxHeap_pop h = None
         else \<exists>c h'. maxHeap_pop h = Some (c, h') \<and> peek h = Some c \<and> c \<in># M \<and> (\<forall>d\<in>#M. \<not> minLess c d)))"
proof (intro conjI impI)
  assume "heap_run minHeap_push minHeap_pop h M"
  then have r: "min_heap.heap h" "mset h = M" using min_run by blast+
  show "mset h = M" by fact
  show "if M = {#} then minHeap_pop h = None
      else \<exists>c h'. minHeap_pop h = Some (c, h') \<and> peek h = Some c \<and> c \<in># M \<and> (\<forall>d\<in>#M. \<not> minLess d c)"
  proof (cases "h = []")
    case False
    obtain h' where "pop minLess h = Some (h ! 0, h')" using min_heap.pop_heap [OF r(1) False] by blast
    moreover have "\<forall>d\<in>set h. \<not> minLess d (h ! 0)" using min_heap.heap_top [OF r(1)] by (auto simp: in_set_conv_nth)
    moreover have "h ! 0 \<in> set h" using False by simp
    ultimately show ?thesis using False by (auto simp: r(2) [symmetric] minHeap_pop_def peek_def)
  qed (use r in \<open>simp add: minHeap_pop_def pop_def\<close>)
next
  assume "heap_run maxHeap_push maxHeap_pop h M"
  then have r: "max_heap.heap h" "mset h = M" using max_run by blast+
  show "mset h = M" by fact
  show "if M = {#} then maxHeap_pop h = None
      else \<exists>c h'. maxHeap_pop h = Some (c, h') \<and> peek h = Some c \<and> c \<in># M \<and> (\<forall>d\<in>#M. \<not> minLess c d)"
  proof (cases "h = []")
    case False
    obtain h' where "pop maxLess h = Some (h ! 0, h')" using max_heap.pop_heap [OF r(1) False] by blast
    moreover have "\<forall>d\<in>set h. \<not> maxLess d (h ! 0)" using max_heap.heap_top [OF r(1)] by (auto simp: in_set_conv_nth)
    moreover have "h ! 0 \<in> set h" using False by simp
    ultimately show ?thesis using False by (auto simp: r(2) [symmetric] maxHeap_pop_def peek_def maxLess_flip)
  qed (use r in \<open>simp add: maxHeap_pop_def pop_def\<close>)
qed

text \<open>1.0, 0.5 and 0.5 at positions 1, 9 and 2.\<close>

definition demo_candidates :: "Candidate list" where
  "demo_candidates = [\<lparr>cd_Position = 1, cd_Distance = 0x3F800000\<rparr>, \<lparr>cd_Position = 9, cd_Distance = 0x3F000000\<rparr>,
     \<lparr>cd_Position = 2, cd_Distance = 0x3F000000\<rparr>]"

lemma demo_ranked: "\<forall>c\<in>set demo_candidates. ranked c"
  by (simp add: demo_candidates_def ranked_def f32_nan_def is_nan_def mag_of_def inf_mag_def)

theorem heaps_refine_bag_witness:
  "let h = fold (\<lambda>c h. minHeap_push h c) demo_candidates [] in
   \<exists>c h'. minHeap_pop h = Some (c, h') \<and> cd_Position c = 2"
proof -
  let ?h = "fold (\<lambda>c h. minHeap_push h c) demo_candidates []"
  let ?a = "\<lparr>cd_Position = 1, cd_Distance = 0x3F800000\<rparr>" and ?b = "\<lparr>cd_Position = 9, cd_Distance = 0x3F000000\<rparr>"
    and ?c = "\<lparr>cd_Position = 2, cd_Distance = 0x3F000000\<rparr>"
  have ok: "ranked ?a" "ranked ?b" "ranked ?c" using demo_ranked by (simp_all add: demo_candidates_def)
  have "heap_run minHeap_push minHeap_pop ?h {# ?c, ?b, ?a #}"
    unfolding demo_candidates_def using heap_run.push [OF heap_run.push [OF heap_run.push [OF heap_run.empty ok(1)] ok(2)] ok(3)]
    by simp
  from heaps_refine_bag [THEN conjunct1, THEN mp, OF this]
  obtain c h' where c: "minHeap_pop ?h = Some (c, h')" "c \<in> {?a, ?b, ?c}" "\<not> minLess ?c c" by auto
  moreover have "minLess ?c ?a" "minLess ?c ?b"
    by (simp_all add: minLess_def f32_lt_def f32_eq_def ieee_lt_def ieee_eq_def is_nan_def mag_of_def inf_mag_def
      order_key_def neg_of_def)
  ultimately have "c = ?c" by blast
  then show ?thesis using c(1) by (simp add: Let_def)
qed

end
