(* ===== verification/Index_Flat.thy ===== *)
theory Index_Flat
  imports Index_Heap "HOL-Library.AList"
begin

text \<open>
  The exact index of \<^verbatim>\<open>src/index/flat.go\<close>: build, insert, delete, search, persist and recover. The
  map of vectors is an association list in the order of its iteration, which is arbitrary. The
  distance is the function value the index holds: the float32 kernels behind it may be compiled
  with or without fused operations, so its values are left open. A context is the answer to each
  of its polls.
\<close>

datatype index_error =
  ErrIndexCorrupt | ErrIndexMemoryExceeded | ErrClosed | ErrDimMismatch | ErrBadParams | ErrContext

type_synonym distance_fn = "f32 list \<Rightarrow> f32 list \<Rightarrow> f32"

record Flat =
  fl_dim :: nat
  fl_metric :: byte
  fl_dist :: distance_fn
  fl_vecs :: "(u32 \<times> f32 list) list"
  fl_deleted :: "u32 set"
  fl_closed :: bool
  fl_searches :: nat
  fl_dcomp :: nat

definition NewFlat :: "(byte \<Rightarrow> distance_fn) \<Rightarrow> nat \<Rightarrow> byte \<Rightarrow> Flat" where
  "NewFlat metricDistance dim metric =
    \<lparr>fl_dim = dim, fl_metric = metric, fl_dist = metricDistance metric, fl_vecs = [], fl_deleted = {},
     fl_closed = False, fl_searches = 0, fl_dcomp = 0\<rparr>"

fun build_loop :: "(nat \<Rightarrow> bool) \<Rightarrow> nat \<Rightarrow> (u32 \<Rightarrow> f32 list) \<Rightarrow> u32 list \<Rightarrow> Flat \<Rightarrow> index_error option \<times> Flat" where
  "build_loop ctx i vectorAt [] f = (None, f)"
| "build_loop ctx i vectorAt (p # ps) f =
    (if ctx i then (Some ErrContext, f)
     else build_loop ctx (Suc i) vectorAt ps (f\<lparr>fl_vecs := AList.update p (vectorAt p) (fl_vecs f)\<rparr>))"

definition Flat_Build ::
  "(byte \<Rightarrow> distance_fn) \<Rightarrow> (nat \<Rightarrow> bool) \<Rightarrow> u32 list \<Rightarrow> (u32 \<Rightarrow> f32 list) \<Rightarrow> byte \<Rightarrow> Flat \<Rightarrow> index_error option \<times> Flat" where
  "Flat_Build metricDistance ctx positions vectorAt metric f =
    (let f1 = (if metric \<noteq> fl_metric f \<and> metric \<noteq> 0
               then f\<lparr>fl_metric := metric, fl_dist := metricDistance metric\<rparr> else f)
     in build_loop ctx 0 vectorAt positions (f1\<lparr>fl_vecs := [], fl_deleted := {}\<rparr>))"

definition Flat_Insert :: "u32 \<Rightarrow> f32 list \<Rightarrow> Flat \<Rightarrow> index_error option \<times> Flat" where
  "Flat_Insert pos vec f =
    (if length vec \<noteq> fl_dim f then (Some ErrDimMismatch, f)
     else if fl_closed f then (Some ErrClosed, f)
     else (None, f\<lparr>fl_vecs := AList.update pos vec (fl_vecs f), fl_deleted := fl_deleted f - {pos}\<rparr>))"

definition Flat_Delete :: "u32 \<Rightarrow> Flat \<Rightarrow> index_error option \<times> Flat" where
  "Flat_Delete pos f =
    (if fl_closed f then (Some ErrClosed, f)
     else if map_of (fl_vecs f) pos \<noteq> None then (None, f\<lparr>fl_deleted := insert pos (fl_deleted f)\<rparr>)
     else (None, f))"

text \<open>\<^verbatim>\<open>sort.Slice\<close>: the comparison is a strict total order on the slices it is called with, so that the
  order of the result does not depend on the algorithm.\<close>

fun insert_by :: "('a \<Rightarrow> 'a \<Rightarrow> bool) \<Rightarrow> 'a \<Rightarrow> 'a list \<Rightarrow> 'a list" where
  "insert_by lt x [] = [x]"
| "insert_by lt x (y # ys) = (if lt y x then y # insert_by lt x ys else x # y # ys)"

definition sort_slice :: "('a \<Rightarrow> 'a \<Rightarrow> bool) \<Rightarrow> 'a list \<Rightarrow> 'a list" where
  "sort_slice lt xs = foldr (insert_by lt) xs []"

definition flat_scan :: "f32 list \<Rightarrow> (u32 \<Rightarrow> bool) option \<Rightarrow> Flat \<Rightarrow> Candidate list" where
  "flat_scan query flt f =
    map (\<lambda>(pos, v). \<lparr>cd_Position = pos, cd_Distance = fl_dist f query v\<rparr>)
      (filter (\<lambda>(pos, v). pos \<notin> fl_deleted f \<and> (case flt of None \<Rightarrow> True | Some m \<Rightarrow> m pos)) (fl_vecs f))"

text \<open>Slicing to a negative length panics, which is None.\<close>

definition Flat_Search ::
  "bool \<Rightarrow> f32 list \<Rightarrow> int \<Rightarrow> (u32 \<Rightarrow> bool) option \<Rightarrow> Flat \<Rightarrow> ((index_error + Candidate list) \<times> Flat) option" where
  "Flat_Search ctx query k flt f =
    (if fl_closed f then Some (Inl ErrClosed, f)
     else
       let out = flat_scan query flt f;
           f' = f\<lparr>fl_searches := fl_searches f + 1, fl_dcomp := fl_dcomp f + length out\<rparr>;
           sorted = sort_slice minLess out
       in if ctx then Some (Inl ErrContext, f')
          else if k < int (length sorted) then
            (if k < 0 then None else Some (Inr (take (nat k) sorted), f'))
          else Some (Inr sorted, f'))"

definition Flat_Close :: "Flat \<Rightarrow> Flat" where
  "Flat_Close f = f\<lparr>fl_closed := True, fl_vecs := [], fl_deleted := {}\<rparr>"

definition flat_MemoryBytes :: "Flat \<Rightarrow> int" where
  "flat_MemoryBytes f = int (length (fl_vecs f)) * int (fl_dim f * 4 + 8)"

record IndexStats =
  is_NodeCount :: int
  is_TombstoneCount :: int
  is_DistComputations :: int
  is_SearchCount :: int
  is_MemoryBytes :: int

definition Flat_Stats :: "Flat \<Rightarrow> IndexStats" where
  "Flat_Stats f =
    \<lparr>is_NodeCount = int (length (fl_vecs f)) - int (card (fl_deleted f)), is_TombstoneCount = int (card (fl_deleted f)),
     is_DistComputations = int (fl_dcomp f), is_SearchCount = int (fl_searches f),
     is_MemoryBytes = flat_MemoryBytes f\<rparr>"

definition live_entries :: "Flat \<Rightarrow> (u32 \<times> f32 list) list" where
  "live_entries f = filter (\<lambda>(pos, v). pos \<notin> fl_deleted f) (fl_vecs f)"

definition flat_record :: "u32 \<times> f32 list \<Rightarrow> bytes" where
  "flat_record = (\<lambda>(pos, v). le_put 4 pos @ concat (map (le_put 4) v))"

text \<open>The blob that is handed to the page store.\<close>

definition Flat_Persist :: "Flat \<Rightarrow> bytes" where
  "Flat_Persist f =
    le_put 4 (of_nat (fl_dim f) :: u32) @ le_put 4 (ucast (fl_metric f) :: u32)
      @ le_put 4 (of_nat (length (live_entries f)) :: u32) @ concat (map flat_record (live_entries f))"

definition read_u32 :: "bytes \<Rightarrow> nat \<Rightarrow> u32" where
  "read_u32 b off = le_get (take 4 (drop off b))"

fun recover_loop :: "bytes \<Rightarrow> nat \<Rightarrow> nat \<Rightarrow> Flat \<Rightarrow> index_error option \<times> Flat" where
  "recover_loop b off 0 f = (None, f)"
| "recover_loop b off (Suc n) f =
    (let rec = 4 + fl_dim f * 4 in
     if length b < off + rec then (Some ErrIndexCorrupt, f)
     else let pos = read_u32 b off;
              v = map (\<lambda>j. read_u32 b (off + 4 + j * 4)) [0..<fl_dim f]
          in recover_loop b (off + rec) n (f\<lparr>fl_vecs := AList.update pos v (fl_vecs f)\<rparr>))"

definition Flat_Recover :: "(byte \<Rightarrow> distance_fn) \<Rightarrow> bytes \<Rightarrow> Flat \<Rightarrow> index_error option \<times> Flat" where
  "Flat_Recover metricDistance b f =
    (if length b < 12 then (Some ErrIndexCorrupt, f)
     else let metric = ucast (read_u32 b 4);
              f1 = f\<lparr>fl_dim := unat (read_u32 b 0), fl_metric := metric, fl_dist := metricDistance metric,
                     fl_vecs := [], fl_deleted := {}\<rparr>
          in recover_loop b 12 (unat (read_u32 b 8)) f1)"

section \<open>Sorting\<close>

lemma mset_insert_by: "mset (insert_by lt x ys) = add_mset x (mset ys)"
  by (induction ys) auto

lemma mset_sort_slice: "mset (sort_slice lt xs) = mset xs"
  unfolding sort_slice_def by (induction xs) (auto simp: mset_insert_by)

lemma insert_by_sorted:
  assumes "sorted_wrt minLess ys" "\<forall>y\<in>set ys. minLess x y \<or> minLess y x"
  shows "sorted_wrt minLess (insert_by minLess x ys)"
  using assms
proof (induction ys)
  case (Cons y ys)
  have s: "set (insert_by minLess x ys) = insert x (set ys)"
    using arg_cong [OF mset_insert_by, of set_mset] by simp
  show ?case
  proof (cases "minLess y x")
    case True
    then show ?thesis using Cons by (simp add: s)
  next
    case False
    then have "minLess x y" using Cons.prems(2) by auto
    then show ?thesis using Cons.prems(1) False minLess_trans by auto
  qed
qed simp

lemma sort_slice_sorted:
  assumes "distinct (map cd_Position xs)" "\<forall>c\<in>set xs. ranked c"
  shows "sorted_wrt minLess (sort_slice minLess xs)"
  using assms
proof (induction xs)
  case (Cons x xs)
  have "set (sort_slice minLess xs) = set xs" using mset_sort_slice by (metis set_mset_mset)
  moreover have "minLess x y \<or> minLess y x" if "y \<in> set xs" for y
    using minLess_total [of x y] Cons.prems that by auto
  ultimately show ?case using Cons by (simp add: sort_slice_def insert_by_sorted)
qed (simp add: sort_slice_def)

lemma sorted_unique:
  assumes "sorted_wrt minLess xs" "sorted_wrt minLess ys" "set xs = set ys"
  shows "xs = ys"
  using assms
proof (induction xs arbitrary: ys)
  case (Cons x xs)
  obtain y ys' where ys: "ys = y # ys'" using Cons.prems(3) by (cases ys) auto
  have xy: "x = y"
  proof (rule ccontr)
    assume "x \<noteq> y"
    then have "minLess y x" "minLess x y" using Cons.prems unfolding ys by auto
    then show False using minLess_asym by blast
  qed
  have irr: "\<not> minLess c c" for c using minLess_asym by blast
  have "x \<notin> set xs" "y \<notin> set ys'" using Cons.prems(1,2) irr unfolding ys by auto
  then have "set xs = set ys'" using Cons.prems(3) xy unfolding ys by auto
  then show ?case using Cons.IH Cons.prems xy unfolding ys by auto
qed simp

section \<open>Exact search\<close>

text \<open>The candidates a search may return.\<close>

definition eligible :: "f32 list \<Rightarrow> (u32 \<Rightarrow> bool) option \<Rightarrow> Flat \<Rightarrow> Candidate set" where
  "eligible query flt f = {\<lparr>cd_Position = pos, cd_Distance = fl_dist f query v\<rparr> | pos v.
     (pos, v) \<in> set (fl_vecs f) \<and> pos \<notin> fl_deleted f \<and> (\<forall>m. flt = Some m \<longrightarrow> m pos)}"

definition flat_ok :: "Flat \<Rightarrow> bool" where
  "flat_ok f = (distinct (map fst (fl_vecs f)) \<and> \<not> fl_closed f)"

lemma set_flat_scan: "set (flat_scan query flt f) = eligible query flt f"
  by (auto simp: flat_scan_def eligible_def split: option.splits)

lemma positions_scan: "map cd_Position (flat_scan query flt f) = map fst
    (filter (\<lambda>(pos, v). pos \<notin> fl_deleted f \<and> (case flt of None \<Rightarrow> True | Some m \<Rightarrow> m pos)) (fl_vecs f))"
  by (simp add: flat_scan_def case_prod_beta comp_def)

lemma distinct_scan:
  assumes "distinct (map fst (fl_vecs f))"
  shows "distinct (map cd_Position (flat_scan query flt f))" "distinct (flat_scan query flt f)"
proof -
  show d: "distinct (map cd_Position (flat_scan query flt f))" unfolding positions_scan using assms by (rule distinct_map_filter)
  show "distinct (flat_scan query flt f)" using d by (simp add: distinct_map)
qed

text \<open>What a search of a well-formed, open index returns.\<close>

lemma search_result:
  assumes "flat_ok f" "\<forall>c\<in>eligible query flt f. ranked c" "0 \<le> k"
  defines "out \<equiv> sort_slice minLess (flat_scan query flt f)"
  shows "Flat_Search False query k flt f = Some (Inr (take (nat k) out),
      f\<lparr>fl_searches := fl_searches f + 1, fl_dcomp := fl_dcomp f + card (eligible query flt f)\<rparr>)"
    and "sorted_wrt minLess out" "set out = eligible query flt f" "length out = card (eligible query flt f)"
proof -
  have d: "distinct (map fst (fl_vecs f))" "\<not> fl_closed f" using assms(1) by (simp_all add: flat_ok_def)
  have m: "mset out = mset (flat_scan query flt f)" unfolding out_def by (rule mset_sort_slice)
  show s: "set out = eligible query flt f" using m set_flat_scan by (metis set_mset_mset)
  show "sorted_wrt minLess out" unfolding out_def
    by (rule sort_slice_sorted [OF distinct_scan(1) [OF d(1)]]) (use assms(2) set_flat_scan in auto)
  have c: "length (flat_scan query flt f) = card (eligible query flt f)"
    using distinct_card [OF distinct_scan(2) [OF d(1)]] set_flat_scan by metis
  then show l: "length out = card (eligible query flt f)" using m by (metis size_mset)
  show "Flat_Search False query k flt f = Some (Inr (take (nat k) out),
      f\<lparr>fl_searches := fl_searches f + 1, fl_dcomp := fl_dcomp f + card (eligible query flt f)\<rparr>)"
    using d(2) assms(3) by (auto simp: Flat_Search_def Let_def out_def [symmetric] c)
qed


definition demo_flat :: Flat where
  "demo_flat = \<lparr>fl_dim = 1, fl_metric = 0, fl_dist = (\<lambda>q v. hd v),
     fl_vecs = [(7, [0x3F800000]), (5, [0x3F000000]), (6, [0x40000000])], fl_deleted = {5}, fl_closed = False,
     fl_searches = 0, fl_dcomp = 0\<rparr>"

lemmas f32_eval = f32_lt_def f32_eq_def ieee_lt_def ieee_eq_def is_nan_def mag_of_def inf_mag_def order_key_def
  neg_of_def f32_nan_def


section \<open>Persistence\<close>

lemma read_u32_at: "off = length pre \<Longrightarrow> read_u32 (pre @ le_put 4 (x :: u32) @ post) off = x"
  by (simp add: read_u32_def codec_simps)

lemma length_flat_record: "length (flat_record (pos, v)) = 4 + 4 * length v"
proof -
  have "length (concat (map (le_put 4) v)) = 4 * length v" by (induction v) auto
  then show ?thesis by (simp add: flat_record_def)
qed

lemma read_vector:
  "map (\<lambda>j. read_u32 (pre @ concat (map (le_put 4) v) @ post) (length pre + j * 4)) [0..<length v] = (v :: f32 list)"
proof (induction v arbitrary: pre)
  case (Cons x v)
  have "map (\<lambda>j. read_u32 (pre @ concat (map (le_put 4) (x # v)) @ post) (length pre + j * 4)) [0..<length (x # v)]
      = read_u32 (pre @ le_put 4 x @ concat (map (le_put 4) v) @ post) (length pre)
        # map (\<lambda>j. read_u32 ((pre @ le_put 4 x) @ concat (map (le_put 4) v) @ post) (length (pre @ le_put 4 x) + j * 4)) [0..<length v]"
    by (simp add: upt_conv_Cons del: upt_Suc flip: map_Suc_upt) (simp add: comp_def algebra_simps)
  then show ?case using Cons.IH [of "pre @ le_put 4 x"] read_u32_at by simp
qed simp

lemma recover_records:
  assumes "\<forall>(pos, v)\<in>set es. length v = fl_dim f" "distinct (map fst es)"
    and "fst ` set es \<inter> fst ` set (fl_vecs f) = {}"
  shows "recover_loop (pre @ concat (map flat_record es)) (length pre) (length es) f
    = (None, f\<lparr>fl_vecs := fl_vecs f @ es\<rparr>)"
  using assms
proof (induction es arbitrary: pre f)
  case (Cons e es)
  obtain pos v where e: "e = (pos, v)" by force
  let ?b = "pre @ concat (map flat_record (e # es))" and ?f = "f\<lparr>fl_vecs := fl_vecs f @ [(pos, v)]\<rparr>"
  have dim: "length v = fl_dim f" using Cons.prems(1) e by simp
  have len: "length (flat_record e) = 4 + fl_dim f * 4" using dim by (simp add: e length_flat_record)
  have b: "?b = pre @ le_put 4 pos @ concat (map (le_put 4) v) @ concat (map flat_record es)"
    by (simp add: e flat_record_def)
  have pos: "read_u32 ?b (length pre) = pos" unfolding b by (rule read_u32_at) simp
  have vec: "map (\<lambda>j. read_u32 ?b (length pre + 4 + j * 4)) [0..<fl_dim f] = v"
    unfolding b using read_vector [of "pre @ le_put 4 pos" v "concat (map flat_record es)"] by (simp add: dim)
  have up: "AList.update pos v (fl_vecs f) = fl_vecs f @ [(pos, v)]"
    using Cons.prems(3) e by (intro update_new_key) auto
  have "recover_loop ((pre @ flat_record e) @ concat (map flat_record es)) (length (pre @ flat_record e)) (length es) ?f
      = (None, ?f\<lparr>fl_vecs := fl_vecs ?f @ es\<rparr>)"
    using Cons.prems e by (intro Cons.IH) auto
  then show ?case using len pos vec up by (simp add: Let_def e)
qed simp



end
