(* ===== verification/Auth_Acl.thy ===== *)
theory Auth_Acl
  imports Main
begin

text \<open>
  Authorization of \<^verbatim>\<open>src/auth/acl.go\<close>: the permission table of the roles, the scopes of the bindings, and
  the access control list. Operations and roles are strings, as in the source.
\<close>

type_synonym Op = string
type_synonym Role = string

definition rolePerms :: "Role \<Rightarrow> Op list" where
  "rolePerms r =
    (if r = ''reader'' then [''SEARCH'', ''GET'', ''LIST'', ''EXPLAIN'']
     else if r = ''writer'' then
       [''SEARCH'', ''GET'', ''LIST'', ''EXPLAIN'', ''INSERT'', ''UPSERT'', ''DELETE'', ''CREATE_INDEX'', ''DROP_INDEX'']
     else if r = ''admin'' then
       [''SEARCH'', ''GET'', ''LIST'', ''EXPLAIN'', ''INSERT'', ''UPSERT'', ''DELETE'', ''CREATE_INDEX'', ''DROP_INDEX'',
        ''CREATE_COLLECTION'', ''DROP_COLLECTION'', ''TRUNCATE'', ''BACKUP'', ''PRAGMA'']
     else if r = ''key_admin'' then [''KEY_MANAGEMENT'']
     else [])"

definition Allows :: "Role \<Rightarrow> Op \<Rightarrow> bool" where
  "Allows r oper = (if r = ''superuser'' then True else oper \<in> set (rolePerms r))"

definition Valid :: "Role \<Rightarrow> bool" where
  "Valid r = (r \<in> {''reader'', ''writer'', ''admin'', ''key_admin'', ''superuser''})"

record Principal =
  pr_ID :: string
  pr_Kind :: string

record Binding =
  bi_PrincipalID :: string
  bi_Role :: Role
  bi_CollectionGlob :: string

text \<open>\<^verbatim>\<open>strings.HasPrefix\<close>, \<^verbatim>\<open>HasSuffix\<close> and \<^verbatim>\<open>TrimSuffix\<close>.\<close>

definition HasPrefix :: "string \<Rightarrow> string \<Rightarrow> bool" where
  "HasPrefix s p = (take (length p) s = p)"

definition HasSuffix :: "string \<Rightarrow> string \<Rightarrow> bool" where
  "HasSuffix s p = (length p \<le> length s \<and> drop (length s - length p) s = p)"

definition TrimSuffix :: "string \<Rightarrow> string \<Rightarrow> string" where
  "TrimSuffix s p = (if HasSuffix s p then take (length s - length p) s else s)"

definition globMatch :: "string \<Rightarrow> string \<Rightarrow> bool" where
  "globMatch pattern name =
    (if pattern = ''*'' then True
     else if HasSuffix pattern ''*'' then HasPrefix name (TrimSuffix pattern ''*'')
     else pattern = name)"

definition CollectionMatches :: "Binding \<Rightarrow> string \<Rightarrow> bool" where
  "CollectionMatches b collection = globMatch (bi_CollectionGlob b) collection"

type_synonym ACL = "string \<Rightarrow> Binding list"

definition NewACL :: ACL where "NewACL = (\<lambda>_. [])"

text \<open>An unknown role is refused, which is None.\<close>

definition Grant :: "string \<Rightarrow> Role \<Rightarrow> string \<Rightarrow> ACL \<Rightarrow> ACL option" where
  "Grant principalID role collectionGlob a =
    (if \<not> Valid role then None
     else Some (a(principalID := a principalID @
       [\<lparr>bi_PrincipalID = principalID, bi_Role = role, bi_CollectionGlob = collectionGlob\<rparr>])))"

definition Revoke :: "string \<Rightarrow> ACL \<Rightarrow> ACL" where
  "Revoke principalID a = a(principalID := [])"

definition BindingsFor :: "Principal \<Rightarrow> ACL \<Rightarrow> Binding list" where
  "BindingsFor p a = a (pr_ID p)"

record ErrForbidden =
  ef_Principal :: string
  ef_Op :: Op
  ef_Collection :: string

definition Check :: "ACL \<Rightarrow> Principal \<Rightarrow> Op \<Rightarrow> string \<Rightarrow> ErrForbidden option" where
  "Check a p oper collection =
    (if \<exists>b\<in>set (a (pr_ID p)). Allows (bi_Role b) oper \<and> CollectionMatches b collection then None
     else Some \<lparr>ef_Principal = pr_ID p, ef_Op = oper, ef_Collection = collection\<rparr>)"

definition ErrForbidden_Error :: "ErrForbidden \<Rightarrow> string" where
  "ErrForbidden_Error e = ''vec/auth: access denied''"

section \<open>Histories\<close>

datatype acl_op = DoGrant string Role string | DoRevoke string

fun do_acl :: "acl_op \<Rightarrow> ACL \<Rightarrow> ACL" where
  "do_acl (DoGrant i r g) a = (case Grant i r g a of None \<Rightarrow> a | Some a' \<Rightarrow> a')"
| "do_acl (DoRevoke i) a = Revoke i a"

text \<open>A grant that is still in force: its role is known and it is not followed by a revocation.\<close>

definition in_force :: "acl_op list \<Rightarrow> string \<Rightarrow> Role \<Rightarrow> string \<Rightarrow> bool" where
  "in_force ops i r g =
    (Valid r \<and> (\<exists>pre post. ops = pre @ DoGrant i r g # post \<and> DoRevoke i \<notin> set post))"

lemma in_force_snoc:
  "in_force (ops @ [DoGrant j q k]) i r g = (in_force ops i r g \<or> (Valid r \<and> j = i \<and> q = r \<and> k = g))"
  "in_force (ops @ [DoRevoke j]) i r g = (in_force ops i r g \<and> j \<noteq> i)"
proof -
  have snoc: "(\<exists>pre post. ops @ [x] = pre @ y # post \<and> P post) = ((\<exists>pre post. ops = pre @ y # post \<and> P (post @ [x])) \<or> (x = y \<and> P []))"
    for x y P
  proof
    assume "\<exists>pre post. ops @ [x] = pre @ y # post \<and> P post"
    then obtain pre post where e: "ops @ [x] = pre @ y # post" "P post" by blast
    then show "(\<exists>pre post. ops = pre @ y # post \<and> P (post @ [x])) \<or> (x = y \<and> P [])"
      by (cases post rule: rev_cases) auto
  next
    assume "(\<exists>pre post. ops = pre @ y # post \<and> P (post @ [x])) \<or> (x = y \<and> P [])"
    then show "\<exists>pre post. ops @ [x] = pre @ y # post \<and> P post"
      by (metis append.assoc append_Cons)
  qed
  show "in_force (ops @ [DoGrant j q k]) i r g = (in_force ops i r g \<or> (Valid r \<and> j = i \<and> q = r \<and> k = g))"
    unfolding in_force_def snoc by auto
  show "in_force (ops @ [DoRevoke j]) i r g = (in_force ops i r g \<and> j \<noteq> i)"
    unfolding in_force_def snoc by auto
qed

lemma acl_bindings:
  "b \<in> set (fold do_acl ops NewACL i) \<longleftrightarrow> bi_PrincipalID b = i \<and> in_force ops i (bi_Role b) (bi_CollectionGlob b)"
proof (induction ops arbitrary: i rule: rev_induct)
  case Nil
  then show ?case by (simp add: NewACL_def in_force_def)
next
  case (snoc x ops)
  show ?case
  proof (cases x)
    case (DoGrant j r g)
    let ?n = "\<lparr>bi_PrincipalID = j, bi_Role = r, bi_CollectionGlob = g\<rparr>"
    have n: "(b = ?n) = (bi_PrincipalID b = j \<and> r = bi_Role b \<and> g = bi_CollectionGlob b)" by auto
    have "set (fold do_acl (ops @ [x]) NewACL i) = set (fold do_acl ops NewACL i) \<union> (if Valid r \<and> j = i then {?n} else {})"
      by (simp add: DoGrant Grant_def)
    then have "b \<in> set (fold do_acl (ops @ [x]) NewACL i) \<longleftrightarrow> b \<in> set (fold do_acl ops NewACL i) \<or> (Valid r \<and> j = i \<and> b = ?n)"
      by (simp only: Un_iff split: if_split) blast
    then show ?thesis unfolding snoc n DoGrant in_force_snoc by blast
  next
    case (DoRevoke j)
    then show ?thesis using snoc by (auto simp: in_force_snoc Revoke_def)
  qed
qed

lemma globMatch_iff:
  "globMatch pattern name \<longleftrightarrow> (pattern = name \<and> \<not> HasSuffix pattern ''*'') \<or> (\<exists>p rest. pattern = p @ ''*'' \<and> name = p @ rest)"
proof (cases "HasSuffix pattern ''*''")
  case True
  then obtain p where p: "pattern = p @ ''*''" by (metis HasSuffix_def append_take_drop_id)
  have "HasPrefix name p \<longleftrightarrow> (\<exists>rest. name = p @ rest)"
    by (auto simp: HasPrefix_def) (metis append_take_drop_id)
  then show ?thesis using True by (cases "p = []") (auto simp: globMatch_def TrimSuffix_def p)
next
  case False
  then have "pattern \<noteq> p @ ''*''" for p by (auto simp: HasSuffix_def)
  then show ?thesis using False by (auto simp: globMatch_def HasSuffix_def)
qed

text \<open>C17: Authorization is exact over every history of grants and revocations. A check passes if and only if a grant
  of a known role to the same principal is still in force, the role has the operation, and the scope
  is the collection's name or a prefix of it followed by a star. In particular nobody else's grants
  count, a revocation ends all grants before it, and an unknown role never grants anything.\<close>

theorem acl_check_exact:
  "Check (fold do_acl ops NewACL) p oper collection = None \<longleftrightarrow>
    (\<exists>role scope. in_force ops (pr_ID p) role scope \<and> (role = ''superuser'' \<or> oper \<in> set (rolePerms role))
      \<and> ((scope = collection \<and> \<not> HasSuffix scope ''*'') \<or> (\<exists>pre rest. scope = pre @ ''*'' \<and> collection = pre @ rest)))"
proof -
  have ex: "(\<exists>b\<in>set (fold do_acl ops NewACL (pr_ID p)). P (bi_Role b) (bi_CollectionGlob b))
      = (\<exists>role scope. in_force ops (pr_ID p) role scope \<and> P role scope)" for P
  proof
    assume "\<exists>role scope. in_force ops (pr_ID p) role scope \<and> P role scope"
    then obtain role scope where "in_force ops (pr_ID p) role scope" "P role scope" by blast
    then show "\<exists>b\<in>set (fold do_acl ops NewACL (pr_ID p)). P (bi_Role b) (bi_CollectionGlob b)"
      by (intro bexI [of _ "\<lparr>bi_PrincipalID = pr_ID p, bi_Role = role, bi_CollectionGlob = scope\<rparr>"]) (simp_all add: acl_bindings)
  qed (use acl_bindings in blast)
  have allows: "Allows role oper = (role = ''superuser'' \<or> oper \<in> set (rolePerms role))" for role
    by (simp add: Allows_def)
  show ?thesis
    unfolding allows [symmetric] globMatch_iff [symmetric] Check_def CollectionMatches_def
    using ex [of "\<lambda>role scope. Allows role oper \<and> globMatch scope collection"] by simp
qed

definition demo_history :: "acl_op list" where
  "demo_history = [DoGrant ''ann'' ''reader'' ''docs_*'', DoGrant ''bob'' ''superuser'' ''*'', DoRevoke ''bob'']"

theorem acl_check_exact_witness:
  "Check (fold do_acl demo_history NewACL) \<lparr>pr_ID = ''ann'', pr_Kind = ''user''\<rparr> ''GET'' ''docs_eu'' = None
   \<and> Check (fold do_acl demo_history NewACL) \<lparr>pr_ID = ''bob'', pr_Kind = ''user''\<rparr> ''GET'' ''docs_eu'' \<noteq> None"
proof -
  have h: "demo_history = (([] @ [DoGrant ''ann'' ''reader'' ''docs_*'']) @ [DoGrant ''bob'' ''superuser'' ''*'']) @ [DoRevoke ''bob'']"
    by (simp add: demo_history_def)
  have "in_force demo_history ''ann'' ''reader'' ''docs_*''" unfolding h in_force_snoc by (simp add: Valid_def)
  moreover have "\<not> in_force demo_history ''bob'' r g" for r g unfolding h in_force_snoc by simp
  moreover have "''docs_*'' = ''docs_'' @ ''*''" "''docs_eu'' = ''docs_'' @ ''eu''" "''GET'' \<in> set (rolePerms ''reader'')"
    by (simp_all add: rolePerms_def)
  ultimately show ?thesis unfolding acl_check_exact Principal.simps by blast
qed

end
